(* ===== verification/Prelude.thy ===== *)
theory Prelude
  imports Main "HOL-Library.Word" "HOL-Library.Code_Target_Nat"
begin

text \<open>
  Shared vocabulary of the development: the machine integers of the crate, the
  \<open>Poll\<close> type of Rust futures, single-bit flags of machine words, and the
  compare-and-swap retry loop that every lock-free method of the crate is
  written with.
\<close>

unbundle bit_operations_syntax

type_synonym u8 = "8 word"
type_synonym u16 = "16 word"
type_synonym u32 = "32 word"
type_synonym u64 = "64 word"
type_synonym usize = "64 word"

text \<open>\<open>std::task::Poll\<close>.\<close>

datatype 'a poll = Ready 'a | Pending

section \<open>The retry loop around compare-exchange\<close>

text \<open>
  One round of such a loop looks at the value it last saw and either returns
  without writing (\<open>Abort\<close>) or tries to install a new value and return
  (\<open>Swap\<close>).
\<close>

datatype ('s, 'r) attempt = Abort 'r | Swap 's 'r

text \<open>
  \<open>cas_loop f env cell cur\<close> is the loop \<open>f\<close> that last saw \<open>cur\<close>.
  \<open>env\<close> is what the other threads do: the content of the cell at each
  successive compare-exchange; when it is used up the cell rests at
  \<open>cell\<close>. The result is the returned value and the content of the cell.
\<close>

fun cas_loop :: "('s \<Rightarrow> ('s, 'r) attempt) \<Rightarrow> 's list \<Rightarrow> 's \<Rightarrow> 's \<Rightarrow> 'r \<times> 's" where
  "cas_loop f [] cell cur =
     (case f cur of
        Abort r \<Rightarrow> (r, cell)
      | Swap new r \<Rightarrow>
          if cell = cur then (r, new)
          else (case f cell of Abort r' \<Rightarrow> (r', cell) | Swap new' r' \<Rightarrow> (r', new')))"
| "cas_loop f (v # env) cell cur =
     (case f cur of
        Abort r \<Rightarrow> (r, cell)
      | Swap new r \<Rightarrow> if v = cur then (r, new) else cas_loop f env v v)"

definition cas_run :: "('s \<Rightarrow> ('s, 'r) attempt) \<Rightarrow> 's list \<Rightarrow> 's \<Rightarrow> 'r \<times> 's" where
  "cas_run f env cell = cas_loop f env cell cell"

text \<open>The same method executed in one indivisible step.\<close>

definition atomically :: "('s \<Rightarrow> ('s, 'r) attempt) \<Rightarrow> 's \<Rightarrow> 'r \<times> 's" where
  "atomically f v = (case f v of Abort r \<Rightarrow> (r, v) | Swap new r \<Rightarrow> (r, new))"

named_theorems flag_simps "bit-level view of status words"

lemma cas_loop_linear:
  "\<exists>v \<in> insert cell (set env). cas_loop f env cell cell = atomically f v"
proof (induction env arbitrary: cell)
  case Nil
  then show ?case by (simp add: atomically_def split: attempt.split)
next
  case (Cons w env)
  show ?case
  proof (cases "f cell")
    case (Abort r)
    then show ?thesis by (simp add: atomically_def)
  next
    case (Swap new r)
    show ?thesis
    proof (cases "w = cell")
      case True
      with Swap show ?thesis by (simp add: atomically_def)
    next
      case False
      with Swap have "cas_loop f (w # env) cell cell = cas_loop f env w w" by simp
      with Cons.IH [of w] show ?thesis by auto
    qed
  qed
qed

text \<open>
  Every execution of a retry loop returns, and it behaves as one indivisible
  step on some value the cell really held during the execution.
\<close>

lemma cas_run_linear: "\<exists>v \<in> insert cell (set env). cas_run f env cell = atomically f v"
  unfolding cas_run_def by (rule cas_loop_linear)

lemma cas_run_quiescent [simp]: "cas_run f [] cell = atomically f cell"
  by (simp add: cas_run_def atomically_def split: attempt.split)

section \<open>Single-bit flags\<close>

lemma flag_test:
  fixes w :: "'a::len word"
  assumes "n < LENGTH('a)"
  shows "(w AND 2 ^ n = 2 ^ n) = bit w n"
proof
  assume "w AND 2 ^ n = 2 ^ n"
  then have "bit (w AND 2 ^ n) n" using assms by (simp add: bit_exp_iff)
  then show "bit w n" by (simp add: bit_and_iff)
next
  assume "bit w n"
  then show "w AND 2 ^ n = 2 ^ n"
    by (intro bit_word_eqI) (auto simp: bit_and_iff bit_exp_iff)
qed

lemma flag_test_nonzero:
  fixes w :: "'a::len word"
  assumes "n < LENGTH('a)"
  shows "(w AND 2 ^ n \<noteq> 0) = bit w n"
proof
  assume ne: "w AND 2 ^ n \<noteq> 0"
  show "bit w n"
  proof (rule ccontr)
    assume "\<not> bit w n"
    then have "w AND 2 ^ n = 0"
      by (intro bit_word_eqI) (auto simp: bit_and_iff bit_exp_iff)
    with ne show False by simp
  qed
next
  assume "bit w n"
  then have "w AND 2 ^ n = 2 ^ n" by (simp add: flag_test [OF assms])
  moreover have "(2 :: 'a word) ^ n \<noteq> 0" using assms by (simp add: exp_eq_zero_iff)
  ultimately show "w AND 2 ^ n \<noteq> 0" by simp
qed

lemma map_option_the: "map_option f x = Some y \<Longrightarrow> x = Some (the x)" "map_option f x = Some y \<Longrightarrow> f (the x) = y"
  by auto

text \<open>A sum over a range in which one term changes.\<close>

lemma sum_change:
  fixes f :: "nat \<Rightarrow> 'a :: comm_monoid_add"
  assumes "i < n" "\<And>j. j < n \<Longrightarrow> j \<noteq> i \<Longrightarrow> f' j = f j"
  shows "(\<Sum>j<n. f' j) + f i = (\<Sum>j<n. f j) + f' i"
proof -
  have "sum f' ({..<n} - {i}) = sum f ({..<n} - {i})" by (rule sum.cong) (use assms(2) in auto)
  then show ?thesis using assms(1) by (simp add: sum.remove [of "{..<n}" i] ac_simps)
qed

text \<open>
  Evaluation of word operations truncates to the word length; small numbers need
  no division.
\<close>

lemma take_bit_int_code [code]:
  "take_bit n (k :: int) = (if 0 \<le> k \<and> k < 4294967296 \<and> 32 \<le> n then k
     else if n = 64 then (if 0 \<le> k \<and> k < 18446744073709551616 then k else k mod 18446744073709551616)
     else k mod 2 ^ n)"
proof -
  have "k < 2 ^ n" if "k < 4294967296" "32 \<le> n"
  proof -
    have "(2::int) ^ 32 \<le> 2 ^ n" using that(2) by (rule power_increasing) simp
    with that(1) show ?thesis by simp
  qed
  then show ?thesis by (auto simp: take_bit_eq_mod)
qed

section \<open>Binary digits\<close>

text \<open>The number of binary digits, through which \<open>leading_zeros\<close> of the standard library is expressed.\<close>

fun digits :: "nat \<Rightarrow> nat" where
  "digits n = (if n = 0 then 0 else Suc (digits (n div 2)))"

declare digits.simps [simp del]

lemma digits_range: "2 ^ k \<le> n \<Longrightarrow> n < 2 ^ Suc k \<Longrightarrow> digits n = Suc k"
proof (induction k arbitrary: n)
  case 0
  then have "n = 1" by simp
  then show ?case by (simp add: digits.simps)
next
  case (Suc k)
  have "digits (n div 2) = Suc k" by (rule Suc.IH) (use Suc.prems in auto)
  moreover have "n \<noteq> 0" using Suc.prems by (metis not_le power_not_zero zero_less_iff_neq_zero zero_neq_numeral)
  ultimately show ?case by (subst digits.simps) simp
qed

lemma digits_zero: "digits 0 = 0"
  by (simp add: digits.simps)

end
