(* ===== verification/Task_State.thy ===== *)
theory Task_State
  imports Prelude
begin

text \<open>
  The status word of a task (\<open>ylong_runtime/src/task/state.rs\<close>): six flag
  bits and a reference count in one \<open>AtomicUsize\<close>. A method with a
  compare-exchange loop is given by the body of its loop (\<open>..._try\<close>) and the
  loop itself (\<open>cas_run\<close> of the body); a method that is a single atomic
  instruction returns the old value and the new word.
\<close>

section \<open>Constants and predicates\<close>

definition RUNNING :: usize where "RUNNING = 1"
definition SCHEDULING :: usize where "SCHEDULING = 4"
definition FINISHED :: usize where "FINISHED = 8"
definition CANCELED :: usize where "CANCELED = 16"
definition CARE_JOIN_HANDLE :: usize where "CARE_JOIN_HANDLE = 32"
definition JOIN_WAKER :: usize where "JOIN_WAKER = 64"
definition RC_MASK :: usize where "RC_MASK = NOT 0x3FF"
definition RC_SHIFT :: nat where "RC_SHIFT = 10"
definition REF_ONE :: usize where "REF_ONE = push_bit RC_SHIFT 1"

definition INIT :: usize where
  "INIT = CARE_JOIN_HANDLE OR SCHEDULING OR (REF_ONE * 2)"

lemma state_numerals [code]:
  "RC_MASK = 18446744073709550592" "REF_ONE = 1024" "INIT = 2084"
  by (simp_all add: INIT_def RC_MASK_def REF_ONE_def RC_SHIFT_def CARE_JOIN_HANDLE_def SCHEDULING_def push_bit_eq_mult)

definition ref_count :: "usize \<Rightarrow> usize" where
  "ref_count state = drop_bit RC_SHIFT (state AND RC_MASK)"

definition is_last_ref_count :: "usize \<Rightarrow> bool" where
  "is_last_ref_count prev = (ref_count prev = 1)"

definition is_canceled :: "usize \<Rightarrow> bool" where
  "is_canceled cur = (cur AND CANCELED = CANCELED)"

definition is_care_join_handle :: "usize \<Rightarrow> bool" where
  "is_care_join_handle cur = (cur AND CARE_JOIN_HANDLE = CARE_JOIN_HANDLE)"

definition is_finished :: "usize \<Rightarrow> bool" where
  "is_finished cur = (cur AND FINISHED = FINISHED)"

definition is_set_waker :: "usize \<Rightarrow> bool" where
  "is_set_waker cur = (cur AND JOIN_WAKER = JOIN_WAKER)"

definition is_scheduling :: "usize \<Rightarrow> bool" where
  "is_scheduling cur = (cur AND SCHEDULING = SCHEDULING)"

definition is_running :: "usize \<Rightarrow> bool" where
  "is_running cur = (cur AND RUNNING = RUNNING)"

definition need_enqueue :: "usize \<Rightarrow> bool" where
  "need_enqueue cur =
     (cur AND SCHEDULING \<noteq> SCHEDULING \<and> cur AND RUNNING \<noteq> RUNNING \<and> cur AND FINISHED \<noteq> FINISHED)"

datatype state_action = Success | Canceled usize | Failed usize | Enqueue

text \<open>\<open>ErrorKind\<close> of \<open>error.rs\<close>.\<close>

datatype error_kind =
  TaskShutdown | BlockSpawnErr | NetSpawnErr | TaskCanceled | TaskStateInvalid | Panic | Other

section \<open>Methods\<close>

definition dec_ref :: "usize \<Rightarrow> usize \<times> usize" where
  "dec_ref st = (st, st - REF_ONE)"

definition inc_ref :: "usize \<Rightarrow> usize" where
  "inc_ref st = st + REF_ONE"

definition turning_to_running_try :: "usize \<Rightarrow> (usize, state_action) attempt" where
  "turning_to_running_try cur =
     (if is_running cur \<or> is_finished cur \<or> \<not> is_scheduling cur then Abort (Failed cur)
      else let nxt = (cur AND NOT SCHEDULING) OR RUNNING in
           Swap nxt (if is_canceled nxt then Canceled nxt else Success))"

definition turning_to_finish_try :: "usize \<Rightarrow> (usize, error_kind + usize) attempt" where
  "turning_to_finish_try cur =
     (if is_finished cur then Abort (Inl TaskShutdown)
      else if \<not> is_running cur then Abort (Inl TaskStateInvalid)
      else let nxt = (cur AND NOT RUNNING) OR FINISHED in Swap nxt (Inr nxt))"

definition turning_to_idle_try :: "usize \<Rightarrow> (usize, state_action) attempt" where
  "turning_to_idle_try cur =
     (if \<not> is_running cur then Abort (Failed cur)
      else if is_canceled cur then Abort (Canceled cur)
      else let nxt = cur AND NOT RUNNING in
           Swap nxt (if is_scheduling nxt then Enqueue else Success))"

definition turn_to_scheduling :: "usize \<Rightarrow> usize \<times> usize" where
  "turn_to_scheduling st = (st, st OR SCHEDULING)"

definition turn_to_un_set_waker_try :: "usize \<Rightarrow> (usize, usize + usize) attempt" where
  "turn_to_un_set_waker_try cur =
     (if \<not> is_care_join_handle cur \<or> \<not> is_set_waker cur then Abort (Inl cur)
      else if is_finished cur then Abort (Inl cur)
      else let nxt = cur AND NOT JOIN_WAKER in Swap nxt (Inr nxt))"

definition turn_to_set_waker_try :: "usize \<Rightarrow> (usize, usize + usize) attempt" where
  "turn_to_set_waker_try cur =
     (if \<not> is_care_join_handle cur \<or> is_set_waker cur then Abort (Inl cur)
      else if is_finished cur then Abort (Inl cur)
      else let nxt = cur OR JOIN_WAKER in Swap nxt (Inr nxt))"

definition turn_to_canceled_and_scheduled_try :: "usize \<Rightarrow> (usize, bool) attempt" where
  "turn_to_canceled_and_scheduled_try cur =
     (if is_canceled cur \<or> is_finished cur then Abort False
      else if is_running cur then Swap ((cur OR SCHEDULING) OR CANCELED) False
      else let nxt = cur OR CANCELED in
           if \<not> is_scheduling nxt then Swap (nxt OR SCHEDULING) True else Swap nxt False)"

definition turn_to_un_join_handle_try :: "usize \<Rightarrow> (usize, unit + usize) attempt" where
  "turn_to_un_join_handle_try cur =
     (if is_finished cur then Abort (Inl ())
      else let nxt = cur AND NOT CARE_JOIN_HANDLE in Swap nxt (Inr nxt))"

text \<open>A single compare-exchange without a loop: the flag it returns and the new word.\<close>

definition try_turning_to_un_join_handle :: "usize \<Rightarrow> bool \<times> usize" where
  "try_turning_to_un_join_handle st =
     (if st = INIT then (True, (INIT - REF_ONE) AND NOT CARE_JOIN_HANDLE) else (False, st))"

definition turning_to_running :: "usize list \<Rightarrow> usize \<Rightarrow> state_action \<times> usize" where
  "turning_to_running = cas_run turning_to_running_try"

definition turning_to_finish :: "usize list \<Rightarrow> usize \<Rightarrow> (error_kind + usize) \<times> usize" where
  "turning_to_finish = cas_run turning_to_finish_try"

definition turning_to_idle :: "usize list \<Rightarrow> usize \<Rightarrow> state_action \<times> usize" where
  "turning_to_idle = cas_run turning_to_idle_try"

definition turn_to_un_set_waker :: "usize list \<Rightarrow> usize \<Rightarrow> (usize + usize) \<times> usize" where
  "turn_to_un_set_waker = cas_run turn_to_un_set_waker_try"

definition turn_to_set_waker :: "usize list \<Rightarrow> usize \<Rightarrow> (usize + usize) \<times> usize" where
  "turn_to_set_waker = cas_run turn_to_set_waker_try"

definition turn_to_canceled_and_scheduled :: "usize list \<Rightarrow> usize \<Rightarrow> bool \<times> usize" where
  "turn_to_canceled_and_scheduled = cas_run turn_to_canceled_and_scheduled_try"

definition turn_to_un_join_handle :: "usize list \<Rightarrow> usize \<Rightarrow> (unit + usize) \<times> usize" where
  "turn_to_un_join_handle = cas_run turn_to_un_join_handle_try"

section \<open>Bit-level view\<close>

lemma state_consts_exp:
  "RUNNING = 2 ^ 0" "SCHEDULING = 2 ^ 2" "FINISHED = 2 ^ 3" "CANCELED = 2 ^ 4"
  "CARE_JOIN_HANDLE = 2 ^ 5" "JOIN_WAKER = 2 ^ 6"
  by (simp_all add: RUNNING_def SCHEDULING_def FINISHED_def CANCELED_def
      CARE_JOIN_HANDLE_def JOIN_WAKER_def)

lemma bit_state_consts [flag_simps]:
  "bit RUNNING n \<longleftrightarrow> n = 0" "bit SCHEDULING n \<longleftrightarrow> n = 2" "bit FINISHED n \<longleftrightarrow> n = 3"
  "bit CANCELED n \<longleftrightarrow> n = 4" "bit CARE_JOIN_HANDLE n \<longleftrightarrow> n = 5" "bit JOIN_WAKER n \<longleftrightarrow> n = 6"
  unfolding state_consts_exp bit_exp_iff by (auto simp del: power_0)

lemma state_flags [flag_simps]:
  "is_running w = bit w 0" "is_scheduling w = bit w 2" "is_finished w = bit w 3"
  "is_canceled w = bit w 4" "is_care_join_handle w = bit w 5" "is_set_waker w = bit w 6"
  unfolding is_running_def is_scheduling_def is_finished_def is_canceled_def
    is_care_join_handle_def is_set_waker_def state_consts_exp
  by (rule flag_test, simp)+

lemma need_enqueue_flags [flag_simps]:
  "need_enqueue w \<longleftrightarrow> \<not> bit w 2 \<and> \<not> bit w 0 \<and> \<not> bit w 3"
  using state_flags [of w] by (simp add: need_enqueue_def is_running_def is_scheduling_def is_finished_def)

lemma bit_not64 [flag_simps]: "bit (NOT (w :: usize)) n \<longleftrightarrow> n < 64 \<and> \<not> bit w n"
  by (simp add: bit_not_iff)

declare bit_or_iff [flag_simps] bit_and_iff [flag_simps]

lemma bit64_bound: "bit (w :: usize) n \<Longrightarrow> n < 64"
  by (drule bit_imp_le_length) simp

lemma bit_RC_MASK: "bit RC_MASK n \<longleftrightarrow> 10 \<le> n \<and> n < 64"
proof -
  have e: "(0x3FF :: usize) = mask 10" by (simp add: mask_eq_exp_minus_1)
  show ?thesis unfolding RC_MASK_def e bit_not64 bit_mask_iff by auto
qed

lemma ref_count_drop: "ref_count w = drop_bit 10 w"
  unfolding ref_count_def RC_SHIFT_def
proof (rule bit_word_eqI)
  fix n
  show "bit (drop_bit 10 (w AND RC_MASK)) n = bit (drop_bit 10 w) n"
    unfolding bit_drop_bit_eq comp_apply bit_and_iff bit_RC_MASK using bit64_bound [of w "10 + n"] by auto
qed

lemma ref_count_or:
  assumes "\<And>n. 10 \<le> n \<Longrightarrow> \<not> bit v n"
  shows "ref_count (w OR v) = ref_count w"
  unfolding ref_count_drop
  by (rule bit_word_eqI) (simp only: bit_drop_bit_eq bit_or_iff comp_apply assms le_add1 simp_thms)

lemma ref_count_and_not:
  assumes "\<And>n. 10 \<le> n \<Longrightarrow> \<not> bit v n"
  shows "ref_count (w AND NOT v) = ref_count w"
  unfolding ref_count_drop
proof (rule bit_word_eqI)
  fix n assume "n < LENGTH(64)"
  show "bit (drop_bit 10 (w AND NOT v)) n = bit (drop_bit 10 w) n"
    using bit64_bound [of w "10 + n"]
    by (auto simp only: bit_drop_bit_eq bit_and_iff bit_not64 comp_apply assms le_add1 simp_thms)
qed

lemma ref_count_flag_ops [flag_simps]:
  "ref_count (w OR RUNNING) = ref_count w" "ref_count (w OR SCHEDULING) = ref_count w"
  "ref_count (w OR FINISHED) = ref_count w" "ref_count (w OR CANCELED) = ref_count w"
  "ref_count (w OR JOIN_WAKER) = ref_count w"
  "ref_count (w AND NOT RUNNING) = ref_count w" "ref_count (w AND NOT SCHEDULING) = ref_count w"
  "ref_count (w AND NOT JOIN_WAKER) = ref_count w" "ref_count (w AND NOT CARE_JOIN_HANDLE) = ref_count w"
  by (rule ref_count_or ref_count_and_not, simp add: bit_state_consts)+

lemma unat_ref_count: "unat (ref_count w) = unat w div 1024"
  unfolding ref_count_drop unat_drop_bit_eq by (simp add: drop_bit_eq_div)

lemma REF_ONE_eq: "REF_ONE = 1024"
  by (simp add: REF_ONE_def RC_SHIFT_def)

lemma bit_add_ref [flag_simps]:
  assumes "n < 10"
  shows "bit (w + REF_ONE) n = bit w n"
proof -
  have e: "take_bit 10 (uint w + 1024) = take_bit 10 (uint w)"
    by (simp add: take_bit_eq_mod)
  have "bit (w + 1024) n = bit (uint (w + 1024)) n" using assms by (simp add: bit_uint_iff)
  also have "\<dots> = bit (take_bit 64 (uint w + 1024)) n" by (simp add: uint_word_arith_bintrs)
  also have "\<dots> = bit (take_bit 10 (uint w + 1024)) n" using assms by (simp add: bit_take_bit_iff)
  also have "\<dots> = bit w n" unfolding e using assms by (simp add: bit_take_bit_iff bit_uint_iff)
  finally show ?thesis by (simp add: REF_ONE_eq)
qed

lemma bit_sub_ref [flag_simps]: "n < 10 \<Longrightarrow> bit (w - REF_ONE) n = bit w n"
  using bit_add_ref [of n "w - REF_ONE"] by simp

lemma ref_count_inc:
  assumes "unat (ref_count w) < 2 ^ 54 - 1"
  shows "unat (ref_count (w + REF_ONE)) = Suc (unat (ref_count w))"
proof -
  from assms have "unat w div 1024 < 2 ^ 54 - 1" by (simp only: unat_ref_count)
  then have "unat w < (2 ^ 54 - 1) * 1024" by (simp add: div_less_iff_less_mult)
  then have "unat (w + 1024) = unat w + 1024" by (simp add: unat_plus_if')
  then show ?thesis by (simp add: unat_ref_count REF_ONE_eq)
qed

lemma ref_count_dec:
  assumes "0 < unat (ref_count w)"
  shows "unat (ref_count (w - REF_ONE)) = unat (ref_count w) - 1"
proof -
  from assms have ge: "1024 \<le> unat w" by (simp add: unat_ref_count div_greater_zero_iff)
  then have "unat (w - 1024) = unat w - 1024" by (simp add: unat_sub_if')
  moreover have "(unat w - 1024) div 1024 = unat w div 1024 - 1" using ge le_div_geq [of 1024 "unat w"] by simp
  ultimately show ?thesis by (simp add: unat_ref_count REF_ONE_eq)
qed

lemma is_last_ref_count_iff: "is_last_ref_count w \<longleftrightarrow> unat (ref_count w) = 1"
  unfolding is_last_ref_count_def by (simp add: word_unat_eq_iff)

lemma INIT_exp: "INIT = CARE_JOIN_HANDLE OR SCHEDULING OR 2 ^ 11"
  by (simp add: INIT_def REF_ONE_eq)

lemma bit_INIT [flag_simps]: "bit INIT n \<longleftrightarrow> n = 5 \<or> n = 2 \<or> n = 11"
  unfolding INIT_exp bit_or_iff bit_exp_iff bit_state_consts by auto

lemma ref_count_INIT [flag_simps]: "unat (ref_count INIT) = 2"
proof -
  have e: "INIT = 2084"
    by (simp add: INIT_def CARE_JOIN_HANDLE_def SCHEDULING_def REF_ONE_eq)
  show ?thesis unfolding unat_ref_count e by simp
qed

section \<open>Properties\<close>


end
