(* ===== verification/Task_Lifecycle.thy ===== *)
theory Task_Lifecycle
  imports Task_State
begin

text \<open>
  The life of one spawned task: \<open>task_handle.rs\<close> (run, finish, wake, cancel,
  shutdown, reference counting), \<open>raw.rs\<close> (the stage of the stored future),
  \<open>waker.rs\<close> (the waker made from the task header) and \<open>join_handle.rs\<close>
  (polling and dropping the \<open>JoinHandle\<close>). The worker that runs the task, the
  owner of the \<open>JoinHandle\<close> and the holders of wakers and cancel handles are
  concurrent: each atomic access to the status word is one step, and the
  place an actor has reached inside a method is kept in its program counter.
\<close>

section \<open>State\<close>

text \<open>\<open>Stage\<close> of \<open>raw.rs\<close>; the future itself is not represented.\<close>

datatype 'a stage = Executing | Executed | StoreData "error_kind + 'a" | UsedData

text \<open>How one call of the future's \<open>poll\<close> can end.\<close>

datatype 'a poll_result = PollReady 'a | PollPending | PollPanic

text \<open>
  Where the worker is inside \<open>TaskHandle::run\<close> and \<open>TaskHandle::finish\<close>:
  inside \<open>poll\<close>; just after it; about to store the output of \<open>finish(state,
  output)\<close>; about to turn the state to finished; about to wake the join handle
  (with the word \<open>turning_to_finish\<close> returned); about to drop the task's own
  reference.
\<close>

datatype 'a run_pc =
    NotRunning | Polling | Polled "'a poll_result"
  | FinishStore usize "error_kind + 'a" | FinishTurn | FinishWake usize | FinishDrop

text \<open>
  Where the owner of the \<open>JoinHandle\<close> is: between calls; inside \<open>poll\<close> about
  to unset the old waker, about to write a new waker, about to publish it, about
  to take the result; done with the result; inside \<open>drop_join_handle\<close> (two
  places); gone. Wakers are numbers, so \<open>will_wake\<close> is equality.
\<close>

datatype join_pc =
    JIdle | JUnset nat | JWrite nat usize | JPublish nat | JTake | JTaken | JDrop2 | JDrop3 | JDropped

record 'a task =
  state :: usize
  stage :: "'a stage"
  join_waker :: "nat option"
  queued :: nat
  rpc :: "'a run_pc"
  jpc :: join_pc
  wakers :: nat
  own :: bool
  freed :: bool
  panicked :: bool
  overlap :: bool
  waiting :: "nat option"
  join_wakes :: "nat list"
  outcome :: "(error_kind + 'a) option"
  joined :: "(error_kind + 'a) option"

text \<open>
  \<open>queued\<close> counts the copies of the task in run queues, \<open>wakers\<close> the live
  wakers and cancel handles, \<open>own\<close> says the task's own reference is still
  held, \<open>overlap\<close> that two workers were in \<open>run\<close> at once, \<open>waiting\<close> is the
  waker of the last poll that answered \<open>Pending\<close>, \<open>join_wakes\<close> the wakers
  woken by \<open>wake_join\<close>, \<open>outcome\<close> what \<open>finish\<close> was called with,
  \<open>joined\<close> what the join handle returned.
\<close>

definition create_task :: "'a task" where
  "create_task = \<lparr>state = INIT, stage = Executing, join_waker = None, queued = 1,
     rpc = NotRunning, jpc = JIdle, wakers = 0, own = True, freed = False, panicked = False,
     overlap = False, waiting = None, join_wakes = [], outcome = None, joined = None\<rparr>"

section \<open>Operations of the task handle\<close>

definition panic :: "'a task \<Rightarrow> 'a task" where
  "panic s = s\<lparr>panicked := True\<rparr>"

definition get_scheduled :: "'a task \<Rightarrow> 'a task" where
  "get_scheduled s = s\<lparr>queued := Suc (queued s)\<rparr>"

definition get_canceled :: "'a task \<Rightarrow> 'a task" where
  "get_canceled s = s\<lparr>stage := UsedData\<rparr>"

definition drop_ref :: "'a task \<Rightarrow> 'a task" where
  "drop_ref s = (let (prev, st) = dec_ref (state s) in
     if is_last_ref_count prev then s\<lparr>state := st, freed := True\<rparr> else s\<lparr>state := st\<rparr>)"

text \<open>\<open>run\<close> up to the call of the future's \<open>poll\<close>, on a task taken from a queue.\<close>

definition run_begin :: "'a task \<Rightarrow> 'a task" where
  "run_begin s0 = (let s = s0\<lparr>queued := queued s0 - 1, overlap := overlap s0 \<or> rpc s0 \<noteq> NotRunning\<rparr> in
     case atomically turning_to_running_try (state s) of
       (Success, st) \<Rightarrow> s\<lparr>state := st, rpc := Polling\<rparr>
     | (Canceled cur, st) \<Rightarrow>
         (get_canceled (s\<lparr>state := st\<rparr>))\<lparr>rpc := FinishStore cur (Inl TaskCanceled)\<rparr>
     | (Failed _, st) \<Rightarrow> panic (s\<lparr>state := st\<rparr>)
     | (Enqueue, st) \<Rightarrow> panic (s\<lparr>state := st\<rparr>))"

text \<open>\<open>Inner::poll\<close>: the stage is left to \<open>Executed\<close> when the future is ready.\<close>

definition inner_poll :: "'a poll_result \<Rightarrow> 'a task \<Rightarrow> 'a task" where
  "inner_poll r s =
     (if stage s = Executing
      then (case r of
              PollReady x \<Rightarrow> s\<lparr>stage := Executed, rpc := Polled r\<rparr>
            | _ \<Rightarrow> s\<lparr>rpc := Polled r\<rparr>)
      else s\<lparr>rpc := Polled PollPanic\<rparr>)"

text \<open>\<open>run\<close> after the call of \<open>poll\<close>.\<close>

definition run_after_poll :: "'a poll_result \<Rightarrow> 'a task \<Rightarrow> 'a task" where
  "run_after_poll r s =
     (case r of
        PollReady x \<Rightarrow> s\<lparr>rpc := FinishStore (state s) (Inr x)\<rparr>
      | PollPanic \<Rightarrow> s\<lparr>rpc := FinishStore (state s) (Inl Panic)\<rparr>
      | PollPending \<Rightarrow>
          (case atomically turning_to_idle_try (state s) of
             (Enqueue, st) \<Rightarrow> get_scheduled (s\<lparr>state := st, rpc := NotRunning\<rparr>)
           | (Failed _, st) \<Rightarrow> panic (s\<lparr>state := st\<rparr>)
           | (Canceled cur, st) \<Rightarrow>
               (get_canceled (s\<lparr>state := st\<rparr>))\<lparr>rpc := FinishStore cur (Inl TaskCanceled)\<rparr>
           | (Success, st) \<Rightarrow> s\<lparr>state := st, rpc := NotRunning\<rparr>))"

text \<open>The four steps of \<open>finish\<close>.\<close>

definition finish_store :: "usize \<Rightarrow> (error_kind + 'a) \<Rightarrow> 'a task \<Rightarrow> 'a task" where
  "finish_store st out s =
     (if is_care_join_handle st then s\<lparr>stage := StoreData out, outcome := Some out, rpc := FinishTurn\<rparr>
      else s\<lparr>stage := UsedData, outcome := Some out, rpc := FinishTurn\<rparr>)"

definition finish_turn :: "'a task \<Rightarrow> 'a task" where
  "finish_turn s =
     (case atomically turning_to_finish_try (state s) of
        (Inr cur, st) \<Rightarrow> s\<lparr>state := st, rpc := FinishWake cur\<rparr>
      | (Inl _, st) \<Rightarrow> panic (s\<lparr>state := st\<rparr>))"

definition finish_wake :: "usize \<Rightarrow> 'a task \<Rightarrow> 'a task" where
  "finish_wake cur s =
     (if is_set_waker cur
      then (case join_waker s of
              Some w \<Rightarrow> s\<lparr>join_wakes := join_wakes s @ [w], rpc := FinishDrop\<rparr>
            | None \<Rightarrow> panic s)
      else s\<lparr>rpc := FinishDrop\<rparr>)"

definition finish_drop :: "'a task \<Rightarrow> 'a task" where
  "finish_drop s = (drop_ref s)\<lparr>rpc := NotRunning, own := False\<rparr>"

definition wake_by_ref :: "'a task \<Rightarrow> 'a task" where
  "wake_by_ref s = (let (prev, st) = turn_to_scheduling (state s); s' = s\<lparr>state := st\<rparr> in
     if need_enqueue prev then get_scheduled s' else s')"

definition set_canceled :: "'a task \<Rightarrow> 'a task" where
  "set_canceled s =
     (case atomically turn_to_canceled_and_scheduled_try (state s) of
        (True, st) \<Rightarrow> get_scheduled (s\<lparr>state := st\<rparr>)
      | (False, st) \<Rightarrow> s\<lparr>state := st\<rparr>)"

text \<open>\<open>clone\<close> and \<open>drop\<close> of the raw waker; \<open>CancelHandle::new\<close> clones the same way.\<close>

definition waker_clone :: "'a task \<Rightarrow> 'a task" where
  "waker_clone s = s\<lparr>state := inc_ref (state s), wakers := Suc (wakers s)\<rparr>"

definition waker_drop :: "'a task \<Rightarrow> 'a task" where
  "waker_drop s = (drop_ref s)\<lparr>wakers := wakers s - 1\<rparr>"

text \<open>
  \<open>wake\<close> by value; its two accesses to the status word are the separate events
  \<open>WakeByRef\<close> and \<open>WakerDrop\<close> below.
\<close>

definition wake :: "'a task \<Rightarrow> 'a task" where
  "wake s = waker_drop (wake_by_ref s)"

text \<open>\<open>shutdown\<close> of a task that a dropped run queue still held.\<close>

definition shutdown_task :: "'a task \<Rightarrow> 'a task" where
  "shutdown_task s0 = (let (cur, st) = dec_ref (state s0);
        s = s0\<lparr>state := st, queued := queued s0 - 1, own := False\<rparr> in
     if 0 < ref_count cur \<and> is_care_join_handle cur then set_canceled s
     else s\<lparr>freed := True\<rparr>)"

section \<open>Operations of the join handle\<close>

definition turning_to_get_data :: "'a task \<Rightarrow> 'a task" where
  "turning_to_get_data s =
     (case stage s of
        StoreData out \<Rightarrow> s\<lparr>stage := UsedData, joined := Some out, jpc := JTaken\<rparr>
      | _ \<Rightarrow> panic (s\<lparr>stage := UsedData\<rparr>))"

text \<open>\<open>JoinHandle::poll\<close> up to the first write, with the waker \<open>w\<close> of the context.\<close>

definition join_poll :: "nat \<Rightarrow> 'a task \<Rightarrow> 'a task" where
  "join_poll w s = (let cur = state s in
     if \<not> is_care_join_handle cur then panic s
     else if is_finished cur then turning_to_get_data s
     else if is_set_waker cur
     then (case join_waker s of
             None \<Rightarrow> panic s
           | Some w' \<Rightarrow> if w' = w then s\<lparr>waiting := Some w\<rparr> else s\<lparr>jpc := JUnset w\<rparr>)
     else s\<lparr>jpc := JWrite w cur\<rparr>)"

definition join_unset :: "nat \<Rightarrow> 'a task \<Rightarrow> 'a task" where
  "join_unset w s =
     (case atomically turn_to_un_set_waker_try (state s) of
        (Inr cur, st) \<Rightarrow> s\<lparr>state := st, jpc := JWrite w cur\<rparr>
      | (Inl cur, st) \<Rightarrow>
          if is_finished cur then s\<lparr>state := st, jpc := JTake\<rparr> else panic (s\<lparr>state := st\<rparr>))"

text \<open>\<open>set_waker_inner\<close>: the two assertions and the write, then the publication.\<close>

definition join_write :: "nat \<Rightarrow> usize \<Rightarrow> 'a task \<Rightarrow> 'a task" where
  "join_write w cur s =
     (if \<not> is_care_join_handle cur \<or> is_set_waker cur then panic s
      else s\<lparr>join_waker := Some w, jpc := JPublish w\<rparr>)"

definition join_publish :: "nat \<Rightarrow> 'a task \<Rightarrow> 'a task" where
  "join_publish w s =
     (case atomically turn_to_set_waker_try (state s) of
        (Inr _, st) \<Rightarrow> s\<lparr>state := st, jpc := JIdle, waiting := Some w\<rparr>
      | (Inl cur, st) \<Rightarrow>
          let s' = s\<lparr>state := st, join_waker := None\<rparr> in
          if is_finished cur then s'\<lparr>jpc := JTake\<rparr> else panic s')"

text \<open>\<open>drop_join_handle\<close>: the fast path, the slow path, the final \<open>drop_ref\<close>.\<close>

definition join_drop :: "'a task \<Rightarrow> 'a task" where
  "join_drop s = (let (ok, st) = try_turning_to_un_join_handle (state s) in
     if ok then s\<lparr>state := st, jpc := JDropped\<rparr> else s\<lparr>state := st, jpc := JDrop2\<rparr>)"

definition join_drop2 :: "'a task \<Rightarrow> 'a task" where
  "join_drop2 s =
     (case atomically turn_to_un_join_handle_try (state s) of
        (Inr _, st) \<Rightarrow> s\<lparr>state := st, jpc := JDrop3\<rparr>
      | (Inl _, st) \<Rightarrow> s\<lparr>state := st, stage := UsedData, jpc := JDrop3\<rparr>)"

definition join_drop3 :: "'a task \<Rightarrow> 'a task" where
  "join_drop3 s = (drop_ref s)\<lparr>jpc := JDropped\<rparr>"

section \<open>Interleavings\<close>

datatype 'a task_event =
    RunBegin | InnerPoll "'a poll_result" | AfterPoll | DoFinish
  | WakeByRef | WakerClone | WakerDrop | Cancel
  | JoinPoll nat | JoinStep | JoinDrop

text \<open>
  Who may act: a worker holding the queued task; the runner where it stands;
  a waker while one is alive, or the borrowed waker of the running poll; the
  owner of the join handle where it stands, who does not poll it again once it
  returned \<open>Ready\<close>. The number of wakers is bounded by memory: the bound
  keeps the 54-bit reference count from wrapping.
\<close>

definition waker_bound :: int where
  "waker_bound = 2 ^ 53"

definition may_wake :: "'a task \<Rightarrow> bool" where
  "may_wake s = (0 < wakers s \<or> rpc s = Polling)"

fun task_step :: "'a task_event \<Rightarrow> 'a task \<Rightarrow> 'a task option" where
  "task_step RunBegin s = (if 0 < queued s then Some (run_begin s) else None)"
| "task_step (InnerPoll r) s = (if rpc s = Polling then Some (inner_poll r s) else None)"
| "task_step AfterPoll s = (case rpc s of Polled r \<Rightarrow> Some (run_after_poll r s) | _ \<Rightarrow> None)"
| "task_step DoFinish s =
     (case rpc s of
        FinishStore st out \<Rightarrow> Some (finish_store st out s)
      | FinishTurn \<Rightarrow> Some (finish_turn s)
      | FinishWake cur \<Rightarrow> Some (finish_wake cur s)
      | FinishDrop \<Rightarrow> Some (finish_drop s)
      | _ \<Rightarrow> None)"
| "task_step WakeByRef s = (if may_wake s then Some (wake_by_ref s) else None)"
| "task_step WakerClone s =
     (if (may_wake s \<or> jpc s = JIdle) \<and> int (wakers s) < waker_bound then Some (waker_clone s) else None)"
| "task_step WakerDrop s = (if 0 < wakers s then Some (waker_drop s) else None)"
| "task_step Cancel s =
     (if 0 < wakers s \<or> jpc s = JIdle \<or> jpc s = JTaken then Some (set_canceled s) else None)"
| "task_step (JoinPoll w) s = (if jpc s = JIdle then Some (join_poll w s) else None)"
| "task_step JoinStep s =
     (case jpc s of
        JUnset w \<Rightarrow> Some (join_unset w s)
      | JWrite w cur \<Rightarrow> Some (join_write w cur s)
      | JPublish w \<Rightarrow> Some (join_publish w s)
      | JTake \<Rightarrow> Some (turning_to_get_data s)
      | JDrop2 \<Rightarrow> Some (join_drop2 s)
      | JDrop3 \<Rightarrow> Some (join_drop3 s)
      | _ \<Rightarrow> None)"
| "task_step JoinDrop s = (if jpc s = JIdle \<or> jpc s = JTaken then Some (join_drop s) else None)"

inductive task_reachable :: "'a task \<Rightarrow> bool" where
  created: "task_reachable create_task"
| stepped: "task_reachable s \<Longrightarrow> task_step e s = Some t \<Longrightarrow> task_reachable t"

fun task_run :: "'a task_event list \<Rightarrow> 'a task \<Rightarrow> 'a task option" where
  "task_run [] s = Some s"
| "task_run (e # es) s = (case task_step e s of None \<Rightarrow> None | Some t \<Rightarrow> task_run es t)"

section \<open>Invariant\<close>

fun caring :: "join_pc \<Rightarrow> bool" where
  "caring JDrop3 = False" | "caring JDropped = False" | "caring _ = True"

fun unread :: "join_pc \<Rightarrow> bool" where
  "unread JIdle = True" | "unread (JUnset _) = True" | "unread (JWrite _ _) = True"
| "unread (JPublish _) = True" | "unread JTake = True" | "unread _ = False"

fun is_finish_wake :: "'a run_pc \<Rightarrow> bool" where
  "is_finish_wake (FinishWake _) = True" | "is_finish_wake _ = False"

fun stored :: "'a stage \<Rightarrow> bool" where
  "stored (StoreData _) = True" | "stored _ = False"

definition refs_ok :: "'a task \<Rightarrow> bool" where
  "refs_ok s \<longleftrightarrow> int (wakers s) \<le> waker_bound \<and>
     unat (ref_count (state s)) = of_bool (own s) + of_bool (jpc s \<noteq> JDropped) + wakers s \<and>
     freed s = (\<not> own s \<and> jpc s = JDropped \<and> wakers s = 0)"

definition queue_ok :: "'a task \<Rightarrow> bool" where
  "queue_ok s \<longleftrightarrow>
     queued s = of_bool (bit (state s) 2 \<and> \<not> bit (state s) 0 \<and> \<not> bit (state s) 3)"

definition runner_ok :: "'a task \<Rightarrow> bool" where
  "runner_ok s \<longleftrightarrow>
     (case rpc s of
        NotRunning \<Rightarrow> \<not> bit (state s) 0 \<and> own s = (\<not> bit (state s) 3) \<and>
          (\<not> bit (state s) 3 \<longrightarrow> stage s = Executing)
      | Polling \<Rightarrow> bit (state s) 0 \<and> \<not> bit (state s) 3 \<and> own s \<and> stage s = Executing
      | Polled r \<Rightarrow> bit (state s) 0 \<and> \<not> bit (state s) 3 \<and> own s \<and>
          (r = PollPending \<longrightarrow> stage s = Executing)
      | FinishStore c out \<Rightarrow> bit (state s) 0 \<and> \<not> bit (state s) 3 \<and> own s \<and> (caring (jpc s) \<longrightarrow> bit c 5)
      | FinishTurn \<Rightarrow> bit (state s) 0 \<and> \<not> bit (state s) 3 \<and> own s \<and> (caring (jpc s) \<longrightarrow> stored (stage s))
      | FinishWake c \<Rightarrow> \<not> bit (state s) 0 \<and> bit (state s) 3 \<and> own s \<and> bit c 6 = bit (state s) 6
      | FinishDrop \<Rightarrow> \<not> bit (state s) 0 \<and> bit (state s) 3 \<and> own s)"

definition join_ok :: "'a task \<Rightarrow> bool" where
  "join_ok s \<longleftrightarrow>
     (caring (jpc s) \<longrightarrow> bit (state s) 5) \<and>
     (unread (jpc s) \<and> bit (state s) 3 \<longrightarrow> stored (stage s)) \<and>
     (bit (state s) 6 \<longrightarrow> join_waker s \<noteq> None) \<and>
     (case jpc s of
        JUnset _ \<Rightarrow> bit (state s) 6
      | JWrite _ c \<Rightarrow> \<not> bit (state s) 6 \<and> bit c 5 \<and> \<not> bit c 6
      | JPublish w \<Rightarrow> \<not> bit (state s) 6 \<and> join_waker s = Some w
      | JTake \<Rightarrow> bit (state s) 3
      | JTaken \<Rightarrow> bit (state s) 3
      | _ \<Rightarrow> True)"

definition wake_ok :: "'a task \<Rightarrow> bool" where
  "wake_ok s \<longleftrightarrow>
     (jpc s = JIdle \<and> waiting s \<noteq> None \<longrightarrow> bit (state s) 6 \<and> join_waker s = waiting s) \<and>
     join_wakes s =
       (if bit (state s) 3 \<and> bit (state s) 6 \<and> \<not> is_finish_wake (rpc s)
        then [the (join_waker s)] else [])"

definition data_ok :: "'a task \<Rightarrow> bool" where
  "data_ok s \<longleftrightarrow>
     (\<forall>out. stage s = StoreData out \<longrightarrow> outcome s = Some out) \<and>
     (\<forall>out. joined s = Some out \<longrightarrow> outcome s = Some out \<and> bit (state s) 3)"

definition task_inv :: "'a task \<Rightarrow> bool" where
  "task_inv s \<longleftrightarrow> \<not> panicked s \<and> \<not> overlap s \<and>
     refs_ok s \<and> queue_ok s \<and> runner_ok s \<and> join_ok s \<and> wake_ok s \<and> data_ok s"

lemmas task_inv_defs = task_inv_def refs_ok_def queue_ok_def runner_ok_def join_ok_def
  wake_ok_def data_ok_def

lemmas task_try_defs = atomically_def turning_to_running_try_def turning_to_finish_try_def
  turning_to_idle_try_def turn_to_un_set_waker_try_def turn_to_set_waker_try_def
  turn_to_canceled_and_scheduled_try_def turn_to_un_join_handle_try_def

lemma task_inv_create: "task_inv create_task"
  by (simp add: task_inv_defs create_task_def waker_bound_def flag_simps)

text \<open>
  Frame lemmas: a step that only moves the scheduling flags, and one that only
  moves references, leave the rest of the invariant alone.
\<close>

lemma task_inv_sched:
  assumes "task_inv s" "t = s\<lparr>state := state t, queued := queued t\<rparr>"
    "bit (state t) 0 = bit (state s) 0" "bit (state t) 3 = bit (state s) 3"
    "bit (state t) 5 = bit (state s) 5" "bit (state t) 6 = bit (state s) 6"
    "ref_count (state t) = ref_count (state s)" "queue_ok t"
  shows "task_inv t"
proof -
  obtain st q where t: "t = s\<lparr>state := st, queued := q\<rparr>" using assms(2) by blast
  show ?thesis using assms unfolding t by (simp add: task_inv_defs cong: run_pc.case_cong join_pc.case_cong)
qed

lemma task_inv_refs:
  assumes "task_inv s" "t = s\<lparr>state := state t, wakers := wakers t, freed := freed t\<rparr>"
    "\<And>n. n < 10 \<Longrightarrow> bit (state t) n = bit (state s) n" "refs_ok t"
  shows "task_inv t"
proof -
  obtain st k f where t: "t = s\<lparr>state := st, wakers := k, freed := f\<rparr>" using assms(2) by blast
  show ?thesis using assms unfolding t by (simp add: task_inv_defs cong: run_pc.case_cong join_pc.case_cong)
qed

lemma wake_by_ref_inv: "task_inv s \<Longrightarrow> task_inv (wake_by_ref s)"
  by (rule task_inv_sched [of s])
    (auto simp: wake_by_ref_def turn_to_scheduling_def get_scheduled_def Let_def flag_simps
      task_inv_def queue_ok_def)

lemma set_canceled_inv: "task_inv s \<Longrightarrow> task_inv (set_canceled s)"
  by (rule task_inv_sched [of s])
    (auto simp: set_canceled_def turn_to_canceled_and_scheduled_try_def atomically_def
      get_scheduled_def Let_def flag_simps task_inv_def queue_ok_def)

text \<open>Every operation keeps the invariant.\<close>

lemma run_begin_inv: "task_inv s \<Longrightarrow> 0 < queued s \<Longrightarrow> task_inv (run_begin s)"
  unfolding run_begin_def
  by (cases "rpc s"; cases "jpc s")
    (auto simp: task_inv_defs task_try_defs get_canceled_def Let_def flag_simps)

lemma inner_poll_inv: "task_inv s \<Longrightarrow> rpc s = Polling \<Longrightarrow> task_inv (inner_poll r s)"
  unfolding inner_poll_def by (cases r; cases "jpc s") (auto simp: task_inv_defs)

lemma run_after_poll_inv: "task_inv s \<Longrightarrow> rpc s = Polled r \<Longrightarrow> task_inv (run_after_poll r s)"
  unfolding run_after_poll_def
  by (cases r; cases "jpc s")
    (auto simp: task_inv_defs task_try_defs get_canceled_def get_scheduled_def Let_def flag_simps)

lemma finish_store_inv:
  "task_inv s \<Longrightarrow> rpc s = FinishStore st out \<Longrightarrow> task_inv (finish_store st out s)"
  unfolding finish_store_def by (cases "bit st 5"; cases "jpc s") (auto simp: task_inv_defs flag_simps)

lemma finish_turn_inv: "task_inv s \<Longrightarrow> rpc s = FinishTurn \<Longrightarrow> task_inv (finish_turn s)"
  unfolding finish_turn_def
  by (cases "jpc s") (auto simp: task_inv_defs task_try_defs Let_def flag_simps)

lemma finish_wake_inv: "task_inv s \<Longrightarrow> rpc s = FinishWake c \<Longrightarrow> task_inv (finish_wake c s)"
  unfolding finish_wake_def
  by (cases "bit (state s) 6"; cases "join_waker s"; cases "jpc s") (simp_all add: task_inv_defs flag_simps)

lemma drop_ref_simps [simp]:
  "stage (drop_ref s) = stage s" "join_waker (drop_ref s) = join_waker s"
  "queued (drop_ref s) = queued s" "rpc (drop_ref s) = rpc s" "jpc (drop_ref s) = jpc s"
  "wakers (drop_ref s) = wakers s" "own (drop_ref s) = own s" "panicked (drop_ref s) = panicked s"
  "overlap (drop_ref s) = overlap s" "waiting (drop_ref s) = waiting s"
  "join_wakes (drop_ref s) = join_wakes s" "outcome (drop_ref s) = outcome s"
  "joined (drop_ref s) = joined s" "state (drop_ref s) = state s - REF_ONE"
  "freed (drop_ref s) = (freed s \<or> unat (ref_count (state s)) = 1)"
  by (simp_all add: drop_ref_def dec_ref_def is_last_ref_count_iff)

lemma drop_ref_record: "drop_ref s = s\<lparr>state := state (drop_ref s), freed := freed (drop_ref s)\<rparr>"
  by (auto simp: drop_ref_def dec_ref_def)

lemma finish_drop_inv: "task_inv s \<Longrightarrow> rpc s = FinishDrop \<Longrightarrow> task_inv (finish_drop s)"
  unfolding finish_drop_def
  by (cases "jpc s") (auto simp: task_inv_defs flag_simps ref_count_dec)

lemma waker_clone_inv:
  assumes "task_inv s" "int (wakers s) < waker_bound" "may_wake s \<or> jpc s = JIdle"
  shows "task_inv (waker_clone s)"
proof (rule task_inv_refs [of s])
  have "unat (ref_count (state s)) < 2 ^ 54 - 1"
    using assms by (auto simp: task_inv_def refs_ok_def waker_bound_def)
  from ref_count_inc [OF this] show "refs_ok (waker_clone s)"
    using assms by (auto simp: task_inv_def refs_ok_def waker_clone_def inc_ref_def may_wake_def runner_ok_def)
qed (use assms in \<open>auto simp: waker_clone_def inc_ref_def flag_simps\<close>)

lemma waker_drop_inv: "task_inv s \<Longrightarrow> 0 < wakers s \<Longrightarrow> task_inv (waker_drop s)"
  by (rule task_inv_refs [of s])
    (auto simp: waker_drop_def task_inv_def refs_ok_def flag_simps ref_count_dec drop_ref_def dec_ref_def
      is_last_ref_count_iff)

lemma join_poll_inv: "task_inv s \<Longrightarrow> jpc s = JIdle \<Longrightarrow> task_inv (join_poll w s)"
  unfolding join_poll_def turning_to_get_data_def Let_def
  by (cases "bit (state s) 3"; cases "stage s"; cases "rpc s"; cases "join_waker s")
     (simp_all add: task_inv_defs flag_simps)

lemma join_unset_inv: "task_inv s \<Longrightarrow> jpc s = JUnset w \<Longrightarrow> task_inv (join_unset w s)"
  unfolding join_unset_def
  by (cases "bit (state s) 3"; cases "rpc s")
     (auto simp: task_inv_defs task_try_defs Let_def flag_simps)

lemma join_write_inv: "task_inv s \<Longrightarrow> jpc s = JWrite w c \<Longrightarrow> task_inv (join_write w c s)"
  unfolding join_write_def by (cases "rpc s") (auto simp: task_inv_defs flag_simps)

lemma join_publish_inv: "task_inv s \<Longrightarrow> jpc s = JPublish w \<Longrightarrow> task_inv (join_publish w s)"
  unfolding join_publish_def
  by (cases "bit (state s) 3"; cases "rpc s")
     (auto simp: task_inv_defs task_try_defs Let_def flag_simps)

lemma join_take_inv: "task_inv s \<Longrightarrow> jpc s = JTake \<Longrightarrow> task_inv (turning_to_get_data s)"
  unfolding turning_to_get_data_def
  by (cases "stage s"; cases "rpc s") (auto simp: task_inv_defs)

lemma try_un_join_init:
  "bit ((INIT - REF_ONE) AND NOT CARE_JOIN_HANDLE) n \<longleftrightarrow> n = 2 \<or> n = 10"
  "unat (ref_count ((INIT - REF_ONE) AND NOT CARE_JOIN_HANDLE)) = 1"
proof -
  have e: "(INIT - REF_ONE) AND NOT CARE_JOIN_HANDLE = 2 ^ 2 OR 2 ^ 10"
    by (simp add: INIT_def CARE_JOIN_HANDLE_def SCHEDULING_def REF_ONE_eq)
  show "bit ((INIT - REF_ONE) AND NOT CARE_JOIN_HANDLE) n \<longleftrightarrow> n = 2 \<or> n = 10"
    unfolding e bit_or_iff bit_exp_iff by auto
qed (simp add: flag_simps ref_count_dec)

lemma task_inv_INIT:
  assumes "task_inv s" "state s = INIT"
  shows "rpc s = NotRunning" "own s" "stage s = Executing" "join_wakes s = []" "joined s = None"
    "queued s = 1"
  using assms
  by (cases "rpc s"; auto simp: task_inv_def runner_ok_def wake_ok_def data_ok_def queue_ok_def flag_simps)+

lemma join_drop_fast_inv:
  assumes i: "task_inv s" and st: "state s = INIT" and j: "jpc s = JIdle"
  shows "task_inv (s\<lparr>state := (INIT - REF_ONE) AND NOT CARE_JOIN_HANDLE, jpc := JDropped\<rparr>)"
proof -
  note f = task_inv_INIT [OF i st]
  have "wakers s = 0" "\<not> freed s" using i j st f(2) by (simp_all add: task_inv_def refs_ok_def ref_count_INIT)
  with i f show ?thesis by (simp add: task_inv_defs try_un_join_init)
qed

lemma join_drop_slow_inv:
  assumes "task_inv s" "jpc s = JIdle \<or> jpc s = JTaken"
  shows "task_inv (s\<lparr>jpc := JDrop2\<rparr>)"
  using assms by (elim disjE; cases "rpc s") (simp_all add: task_inv_defs)

lemma join_drop_inv:
  assumes "task_inv s" "jpc s = JIdle \<or> jpc s = JTaken"
  shows "task_inv (join_drop s)"
proof (cases "state s = INIT")
  case True
  with assms have "jpc s = JIdle" by (auto simp: task_inv_def join_ok_def flag_simps)
  with True assms join_drop_fast_inv show ?thesis
    by (simp add: join_drop_def try_turning_to_un_join_handle_def)
next
  case False
  with join_drop_slow_inv [OF assms] show ?thesis
    by (simp add: join_drop_def try_turning_to_un_join_handle_def)
qed

lemma join_drop2_inv: "task_inv s \<Longrightarrow> jpc s = JDrop2 \<Longrightarrow> task_inv (join_drop2 s)"
  unfolding join_drop2_def
  by (cases "bit (state s) 3"; cases "rpc s")
     (auto simp: task_inv_defs task_try_defs Let_def flag_simps)

lemma join_drop3_inv: "task_inv s \<Longrightarrow> jpc s = JDrop3 \<Longrightarrow> task_inv (join_drop3 s)"
  unfolding join_drop3_def
  by (cases "rpc s") (auto simp: task_inv_defs flag_simps ref_count_dec)

lemma task_step_inv: "task_step e s = Some t \<Longrightarrow> task_inv s \<Longrightarrow> task_inv t"
  by (cases e)
    (auto simp: run_begin_inv inner_poll_inv run_after_poll_inv finish_store_inv finish_turn_inv
      finish_wake_inv finish_drop_inv wake_by_ref_inv waker_clone_inv waker_drop_inv set_canceled_inv
      join_poll_inv join_unset_inv join_write_inv join_publish_inv join_take_inv join_drop_inv
      join_drop2_inv join_drop3_inv split: if_splits run_pc.splits join_pc.splits)

lemma task_reachable_inv: "task_reachable s \<Longrightarrow> task_inv s"
  by (induction rule: task_reachable.induct) (auto intro: task_inv_create task_step_inv)

section \<open>Properties\<close>

lemma task_run_reachable: "task_run es s = Some t \<Longrightarrow> task_reachable s \<Longrightarrow> task_reachable t"
  by (induction es arbitrary: s) (auto split: option.splits intro: stepped)

lemma task_run_eval:
  assumes "map_option f (task_run es create_task) = Some y"
  shows "task_reachable (the (task_run es create_task))" "f (the (task_run es create_task)) = y"
  using task_run_reachable [OF map_option_the(1) [OF assms] created] map_option_the(2) [OF assms] by simp_all

lemmas reachable_parts = task_reachable_inv [unfolded task_inv_def]





text \<open>
  C3: No wake-up is lost. After \<open>wake_by_ref\<close> on an unfinished task the task is in
  a run queue or is running with the scheduling bit set; and a poll that returns
  \<open>Pending\<close> with that bit set ends with the task queued again, or finishing
  because it was cancelled.
\<close>

theorem task_no_lost_wake:
  assumes "task_reachable s"
  shows "(\<not> is_finished (state s) \<longrightarrow>
      queued (wake_by_ref s) = 1 \<or> is_running (state (wake_by_ref s)) \<and> is_scheduling (state (wake_by_ref s))) \<and>
    (rpc s = Polled PollPending \<and> is_scheduling (state s) \<longrightarrow>
      queued (run_after_poll PollPending s) = 1 \<or>
      rpc (run_after_poll PollPending s) = FinishStore (state s) (Inl TaskCanceled))"
  using reachable_parts [OF assms]
  by (auto simp: wake_by_ref_def turn_to_scheduling_def get_scheduled_def Let_def queue_ok_def runner_ok_def
      run_after_poll_def task_try_defs get_canceled_def flag_simps)

theorem task_no_lost_wake_witness:
  "let s = the (task_run [RunBegin, WakeByRef, InnerPoll PollPending] (create_task :: nat task))
   in queued s = 0 \<and> queued (run_after_poll PollPending s) = 1"
proof -
  let ?es = "[RunBegin, WakeByRef, InnerPoll PollPending] :: nat task_event list"
  let ?s = "the (task_run ?es create_task)"
  have "map_option (\<lambda>s. (rpc s, is_scheduling (state s), queued s, rpc (run_after_poll PollPending s))) (task_run ?es create_task) =
      Some (Polled PollPending, True, 0, NotRunning)" by code_simp
  note e = task_run_eval [OF this]
  from task_no_lost_wake [OF e(1)] e(2) show ?thesis by (simp add: Let_def)
qed

text \<open>
  C4: A join handle whose last poll answered \<open>Pending\<close> with the waker \<open>w\<close> is
  woken by the finishing worker exactly once, with that waker: after the worker
  has passed \<open>wake_join\<close>, the woken wakers are exactly \<open>w\<close>.
\<close>

theorem task_join_waker_woken_once:
  assumes "task_reachable s" "jpc s = JIdle" "waiting s = Some w"
    "is_finished (state s)" "\<not> is_finish_wake (rpc s)"
  shows "join_wakes s = [w]"
  using reachable_parts [OF assms(1)] assms(2-) by (auto simp: wake_ok_def flag_simps)

theorem task_join_waker_woken_once_witness:
  "join_wakes (the (task_run [JoinPoll 3, JoinStep, JoinStep, RunBegin, JoinPoll 4, JoinStep,
     InnerPoll (PollReady 9), AfterPoll, DoFinish, JoinStep, JoinStep, DoFinish, DoFinish]
     (create_task :: nat task))) = [4]"
proof -
  let ?es = "[JoinPoll 3, JoinStep, JoinStep, RunBegin, JoinPoll 4, JoinStep,
     InnerPoll (PollReady 9), AfterPoll, DoFinish, JoinStep, JoinStep, DoFinish, DoFinish] :: nat task_event list"
  let ?s = "the (task_run ?es create_task)"
  have "map_option (\<lambda>s. (jpc s, waiting s, is_finished (state s), is_finish_wake (rpc s))) (task_run ?es create_task) =
      Some (JIdle, Some 4, True, False)" by code_simp
  note e = task_run_eval [OF this]
  from task_join_waker_woken_once [OF e(1)] e(2) show ?thesis by simp
qed

text \<open>
  C5: The join handle returns what the task finished with: a poll of the handle of
  a finished task returns the value \<open>finish\<close> was called with, and whatever the
  handle has returned is that value.
\<close>

theorem task_join_result:
  assumes "task_reachable s"
  shows "(jpc s = JIdle \<and> is_finished (state s) \<longrightarrow>
      (\<exists>out. outcome s = Some out \<and> joined (join_poll w s) = Some out)) \<and>
    (\<forall>out. joined s = Some out \<longrightarrow> outcome s = Some out)"
  using reachable_parts [OF assms]
  by (cases "stage s") (auto simp: join_ok_def data_ok_def join_poll_def turning_to_get_data_def Let_def flag_simps)

theorem task_join_result_witness:
  "joined (join_poll 1 (the (task_run [RunBegin, InnerPoll PollPanic, AfterPoll, DoFinish, DoFinish]
     (create_task :: nat task)))) = Some (Inl Panic)"
proof -
  let ?es = "[RunBegin, InnerPoll PollPanic, AfterPoll, DoFinish, DoFinish] :: nat task_event list"
  let ?s = "the (task_run ?es create_task)"
  have "map_option (\<lambda>s. (jpc s, is_finished (state s), outcome s)) (task_run ?es create_task) =
      Some (JIdle, True, Some (Inl Panic))" by code_simp
  note e = task_run_eval [OF this]
  from task_join_result [OF e(1), where w = 1] e(2) show ?thesis by simp
qed
lemma queued_flags:
  "queue_ok s \<Longrightarrow> queued s = 1 \<Longrightarrow> bit (state s) 2 \<and> \<not> bit (state s) 0 \<and> \<not> bit (state s) 3"
  by (cases "bit (state s) 2 \<and> \<not> bit (state s) 0 \<and> \<not> bit (state s) 3") (simp_all add: queue_ok_def)

lemma finish_chain:
  assumes "task_inv s" "rpc s = FinishStore st out"
  obtains t where "task_run [DoFinish, DoFinish, DoFinish, DoFinish] s = Some t"
    "rpc t = NotRunning" "is_finished (state t)" "outcome t = Some out" "\<not> own t" "task_inv t"
proof -
  define s1 where "s1 = finish_store st out s"
  define s2 where "s2 = finish_turn s1"
  have i1: "task_inv s1" and r1: "rpc s1 = FinishTurn" and o1: "outcome s1 = Some out"
    using assms by (auto simp: s1_def finish_store_inv) (simp_all add: finish_store_def)
  have "is_running (state s1)" "\<not> is_finished (state s1)"
    using i1 r1 by (auto simp: task_inv_def runner_ok_def flag_simps)
  then obtain c where r2: "rpc s2 = FinishWake c" and o2: "outcome s2 = Some out" and f2: "bit (state s2) 3"
    by (simp add: s2_def finish_turn_def task_try_defs Let_def o1 flag_simps)
  have i2: "task_inv s2" using i1 r1 by (simp add: s2_def finish_turn_inv)
  define s3 where "s3 = finish_wake c s2"
  have i3: "task_inv s3" using i2 r2 by (simp add: s3_def finish_wake_inv)
  have r3: "rpc s3 = FinishDrop" "outcome s3 = Some out" "bit (state s3) 3"
    using i2 r2 o2 f2 by (auto simp: s3_def finish_wake_def task_inv_def runner_ok_def join_ok_def flag_simps)
  have i4: "task_inv (finish_drop s3)" using i3 r3 by (simp add: finish_drop_inv)
  show ?thesis
    by (rule that [of "finish_drop s3"])
      (use assms r1 r2 r3 i4 in \<open>simp_all add: s1_def [symmetric] s2_def [symmetric] s3_def [symmetric]
        finish_drop_def flag_simps\<close>)
qed

text \<open>
  C6: The two unsynchronised cells of a task are never touched from two sides at
  once. While the worker is between \<open>turning_to_running\<close> and \<open>turning_to_finish\<close>
  (the only part of \<open>run\<close> that accesses the stage) the task is not finished, and
  the join handle accesses the stage only of a finished task; and while the
  worker reads the join waker in \<open>wake_join\<close>, the join handle is not at a place
  where it writes it.
\<close>

theorem task_cells_race_free:
  assumes "task_reachable s"
  shows "(case rpc s of
       NotRunning \<Rightarrow> True
     | FinishWake c \<Rightarrow> is_set_waker c \<longrightarrow> (case jpc s of JWrite _ _ \<Rightarrow> False | JPublish _ \<Rightarrow> False | _ \<Rightarrow> True)
     | FinishDrop \<Rightarrow> True
     | _ \<Rightarrow> \<not> is_finished (state s) \<and> jpc s \<noteq> JTake \<and> jpc s \<noteq> JTaken \<and> joined (join_poll w s) = joined s \<and>
           stage (join_poll w s) = stage s \<and> stage (join_drop2 s) = stage s)"
  using reachable_parts [OF assms]
  by (cases "rpc s"; cases "jpc s")
    (auto simp: runner_ok_def join_ok_def join_poll_def join_drop2_def turn_to_un_join_handle_try_def
      atomically_def panic_def Let_def flag_simps split: option.splits)

theorem task_cells_race_free_witness:
  "let s = the (task_run [JoinPoll 3, JoinStep, JoinStep, RunBegin, InnerPoll (PollReady 9), AfterPoll,
     DoFinish, JoinPoll 4, DoFinish] (create_task :: nat task))
   in jpc s = JUnset 4 \<and> is_finish_wake (rpc s)"
proof -
  let ?es = "[JoinPoll 3, JoinStep, JoinStep, RunBegin, InnerPoll (PollReady 9), AfterPoll,
     DoFinish, JoinPoll 4, DoFinish] :: nat task_event list"
  have "map_option (\<lambda>s. (jpc s, is_finish_wake (rpc s))) (task_run ?es create_task) = Some (JUnset 4, True)" by code_simp
  note e = task_run_eval [OF this]
  from task_cells_race_free [OF e(1), of 0] e(2) show ?thesis by (simp add: Let_def)
qed

text \<open>
  C7: A cancelled task finishes with \<open>TaskCanceled\<close> the next time a worker takes it
  from its queue: \<open>run\<close> drops the future without polling it and completes,
  five steps of the worker later the task is finished with that outcome and the
  task's own reference is dropped.
\<close>

theorem task_cancel_finishes:
  assumes "task_reachable s" "queued s = 1" "is_canceled (state s)"
  shows "\<exists>t. task_run [RunBegin, DoFinish, DoFinish, DoFinish, DoFinish] s = Some t \<and>
    rpc t = NotRunning \<and> is_finished (state t) \<and> outcome t = Some (Inl TaskCanceled) \<and> \<not> own t"
proof -
  have i: "task_inv s" by (rule task_reachable_inv [OF assms(1)])
  have "bit (state s) 2" "\<not> bit (state s) 0" "\<not> bit (state s) 3" "bit (state s) 4"
    using queued_flags [of s] i assms by (simp_all add: task_inv_def flag_simps)
  then have "\<exists>c. rpc (run_begin s) = FinishStore c (Inl TaskCanceled)"
    by (simp add: run_begin_def task_try_defs get_canceled_def Let_def flag_simps)
  then obtain c where c: "rpc (run_begin s) = FinishStore c (Inl TaskCanceled)" by blast
  have "task_inv (run_begin s)" using i assms(2) by (simp add: run_begin_inv)
  from finish_chain [OF this c] show ?thesis using assms(2) by auto
qed

theorem task_cancel_finishes_witness:
  "\<exists>t. task_run [RunBegin, DoFinish, DoFinish, DoFinish, DoFinish]
      (the (task_run [Cancel] (create_task :: nat task))) = Some t \<and> outcome t = Some (Inl TaskCanceled)"
proof -
  let ?es = "[Cancel] :: nat task_event list"
  let ?s = "the (task_run ?es create_task)"
  have "map_option (\<lambda>s. (queued s, is_canceled (state s))) (task_run ?es create_task) = Some (1, True)" by code_simp
  note e = task_run_eval [OF this]
  from task_cancel_finishes [OF e(1)] e(2) show ?thesis by blast
qed

text \<open>
  C9: \<open>TaskHandle::shutdown\<close>, called on the tasks left in a dropped run queue,
  reads the count from before its own decrement and releases the allocation as
  soon as the join handle is gone: a reachable queued task with a live waker is
  freed while that waker still holds a reference.
\<close>

theorem task_shutdown_frees_live_waker:
  "\<exists>s :: nat task. task_reachable s \<and> queued s = 1 \<and> 0 < wakers s \<and>
     freed (shutdown_task s) \<and> unat (ref_count (state (shutdown_task s))) = wakers s"
proof -
  let ?es = "[WakerClone, JoinDrop, JoinStep, JoinStep] :: nat task_event list"
  let ?s = "the (task_run ?es create_task)"
  have "map_option (\<lambda>s. (queued s, wakers s, freed (shutdown_task s), unat (ref_count (state (shutdown_task s)))))
      (task_run ?es create_task) = Some (1, 1, True, 1)" by code_simp
  note e = task_run_eval [OF this]
  from e(2) have "queued ?s = 1" "wakers ?s = 1" "freed (shutdown_task ?s)" "unat (ref_count (state (shutdown_task ?s))) = 1"
    by (simp_all only: prod.inject)
  with e(1) show ?thesis by force
qed

end
