(* ===== verification/Slots.thy ===== *)
theory Slots
  imports Prelude
begin

text \<open>
  The container \<open>Slots\<close> of \<open>util/slots.rs\<close>: a doubly linked list whose nodes
  live in a vector and are named by their index, with the unused nodes in a free
  list threaded through the same \<open>next\<close> fields. Its content, in list order, is
  the sequence of (key, value) pairs its iterator delivers; every operation is
  shown to act on that sequence as the container promises.
\<close>

section \<open>Model\<close>

definition NULL :: nat where
  "NULL = 2 ^ 64 - 1"

record 'a entry =
  data :: "'a option"
  prev :: nat
  next_key :: nat

definition entry_new :: "'a \<Rightarrow> nat \<Rightarrow> nat \<Rightarrow> 'a entry" where
  "entry_new val p n = \<lparr>data = Some val, prev = p, next_key = n\<rparr>"

record 'a slots =
  entries :: "'a entry list"
  slots_len :: nat
  head :: nat
  tail :: nat
  next_free :: nat

definition with_capacity :: "nat \<Rightarrow> 'a slots" where
  "with_capacity capacity = \<lparr>entries = [], slots_len = 0, head = NULL, tail = NULL, next_free = 0\<rparr>"

definition slots_new :: "'a slots" where
  "slots_new = with_capacity 0"

text \<open>\<open>Vec::get\<close>, and the in-place update behind \<open>if let Some(entry) = get_mut(i)\<close>.\<close>

definition vec_get :: "'b list \<Rightarrow> nat \<Rightarrow> 'b option" where
  "vec_get xs i = (if i < length xs then Some (xs ! i) else None)"

definition vec_modify :: "nat \<Rightarrow> ('b \<Rightarrow> 'b) \<Rightarrow> 'b list \<Rightarrow> 'b list" where
  "vec_modify i f xs = (if i < length xs then xs[i := f (xs ! i)] else xs)"

definition push_back :: "'a \<Rightarrow> 'a slots \<Rightarrow> nat \<times> 'a slots" where
  "push_back val s =
     (let key = next_free s; tl = tail s; s1 = s\<lparr>slots_len := slots_len s + 1\<rparr>;
          s2 = (if key = length (entries s1)
                then s1\<lparr>next_free := key + 1, entries := entries s1 @ [entry_new val tl NULL]\<rparr>
                else s1\<lparr>next_free := next_key (entries s1 ! key),
                        entries := vec_modify key
                          (\<lambda>e. e\<lparr>prev := tl, next_key := NULL, data := Some val\<rparr>) (entries s1)\<rparr>);
          s3 = (case vec_get (entries s2) tl of
                  None \<Rightarrow> s2\<lparr>head := key\<rparr>
                | Some _ \<Rightarrow> s2\<lparr>entries := vec_modify tl (\<lambda>e. e\<lparr>next_key := key\<rparr>) (entries s2)\<rparr>)
      in (key, s3\<lparr>tail := key\<rparr>))"

definition pop_front :: "'a slots \<Rightarrow> 'a option \<times> 'a slots" where
  "pop_front s =
     (let curr = head s in
      case vec_get (entries s) curr of
        None \<Rightarrow> (None, s)
      | Some entry \<Rightarrow>
          let s1 = s\<lparr>head := next_key entry,
                     entries := vec_modify curr
                       (\<lambda>e. e\<lparr>prev := NULL, next_key := next_free s, data := None\<rparr>) (entries s)\<rparr>;
              s2 = (case vec_get (entries s1) (head s1) of
                      None \<Rightarrow> s1\<lparr>tail := NULL\<rparr>
                    | Some _ \<Rightarrow> s1\<lparr>entries := vec_modify (head s1) (\<lambda>e. e\<lparr>prev := NULL\<rparr>) (entries s1)\<rparr>)
          in (data entry, s2\<lparr>slots_len := slots_len s2 - 1, next_free := curr\<rparr>))"

datatype slots_error = SlotsError

definition remove_key :: "nat \<Rightarrow> 'a slots \<Rightarrow> (slots_error + 'a) \<times> 'a slots" where
  "remove_key key s =
     (case vec_get (entries s) key of
        None \<Rightarrow> (Inl SlotsError, s)
      | Some entry \<Rightarrow>
          (case data entry of
             None \<Rightarrow> (Inl SlotsError, s)
           | Some val \<Rightarrow>
               let p = prev entry; n = next_key entry;
                   s1 = s\<lparr>entries := vec_modify key
                       (\<lambda>e. e\<lparr>data := None, prev := NULL, next_key := next_free s\<rparr>) (entries s)\<rparr>;
                   s2 = (case vec_get (entries s1) p of
                           None \<Rightarrow> s1\<lparr>head := n\<rparr>
                         | Some _ \<Rightarrow> s1\<lparr>entries := vec_modify p (\<lambda>e. e\<lparr>next_key := n\<rparr>) (entries s1)\<rparr>);
                   s3 = (case vec_get (entries s2) n of
                           None \<Rightarrow> s2\<lparr>tail := p\<rparr>
                         | Some _ \<Rightarrow> s2\<lparr>entries := vec_modify n (\<lambda>e. e\<lparr>prev := p\<rparr>) (entries s2)\<rparr>)
               in (Inr val, s3\<lparr>slots_len := slots_len s3 - 1, next_free := key\<rparr>)))"

definition slots_is_empty :: "'a slots \<Rightarrow> bool" where
  "slots_is_empty s = (slots_len s = 0)"

definition get_by_index :: "nat \<Rightarrow> 'a slots \<Rightarrow> 'a option" where
  "get_by_index key s = (case vec_get (entries s) key of None \<Rightarrow> None | Some e \<Rightarrow> data e)"

definition get_first :: "'a slots \<Rightarrow> 'a option" where
  "get_first s = (case vec_get (entries s) (head s) of None \<Rightarrow> None | Some e \<Rightarrow> data e)"

text \<open>\<open>Index::index\<close>: \<open>None\<close> stands for the panic.\<close>

definition slots_index :: "'a slots \<Rightarrow> nat \<Rightarrow> 'a option" where
  "slots_index s i = (case vec_get (entries s) i of Some e \<Rightarrow> data e | None \<Rightarrow> None)"

text \<open>\<open>SlotsIter\<close>: its state is the vector, the number of items left and the next key.\<close>

record 'a slots_iter =
  it_entries :: "'a entry list"
  it_len :: nat
  it_head :: nat

definition iter_next :: "'a slots_iter \<Rightarrow> (nat \<times> 'a) option \<times> 'a slots_iter" where
  "iter_next it =
     (if it_len it = 0 then (None, it)
      else (case vec_get (it_entries it) (it_head it) of
              None \<Rightarrow> (None, it)
            | Some e \<Rightarrow>
                let it' = it\<lparr>it_len := it_len it - 1, it_head := next_key e\<rparr> in
                (case data e of Some v \<Rightarrow> (Some (it_head it, v), it') | None \<Rightarrow> (None, it'))))"

definition slots_iter :: "'a slots \<Rightarrow> 'a slots_iter" where
  "slots_iter s = \<lparr>it_entries = entries s, it_len = slots_len s, it_head = head s\<rparr>"

text \<open>Everything the iterator delivers, in order; \<open>n\<close> bounds the number of calls.\<close>

fun collect :: "nat \<Rightarrow> 'a slots_iter \<Rightarrow> (nat \<times> 'a) list" where
  "collect 0 it = []"
| "collect (Suc n) it =
     (case iter_next it of (None, _) \<Rightarrow> [] | (Some kv, it') \<Rightarrow> kv # collect n it')"

definition slots_list :: "'a slots \<Rightarrow> (nat \<times> 'a) list" where
  "slots_list s = collect (slots_len s) (slots_iter s)"

section \<open>Well-formedness\<close>

text \<open>
  \<open>lseg es p ks n\<close>: the keys \<open>ks\<close> are a doubly linked segment that starts after
  \<open>p\<close> and whose last node points to \<open>n\<close>. \<open>fseg es f fs\<close>: \<open>fs\<close> is the free list from
  \<open>f\<close>, ending at the end of the vector.
\<close>

fun lseg :: "'a entry list \<Rightarrow> nat \<Rightarrow> nat list \<Rightarrow> nat \<Rightarrow> bool" where
  "lseg es p [] n \<longleftrightarrow> True"
| "lseg es p (k # ks) n \<longleftrightarrow>
     k < length es \<and> data (es ! k) \<noteq> None \<and> prev (es ! k) = p \<and>
     next_key (es ! k) = (case ks of [] \<Rightarrow> n | k' # _ \<Rightarrow> k') \<and> lseg es k ks n"

fun fseg :: "'a entry list \<Rightarrow> nat \<Rightarrow> nat list \<Rightarrow> bool" where
  "fseg es f [] \<longleftrightarrow> f = length es"
| "fseg es f (k # ks) \<longleftrightarrow> f = k \<and> k < length es \<and> data (es ! k) = None \<and> fseg es (next_key (es ! k)) ks"

definition first_key :: "nat list \<Rightarrow> nat \<Rightarrow> nat" where
  "first_key ks n = (case ks of [] \<Rightarrow> n | k # _ \<Rightarrow> k)"

definition last_key :: "nat \<Rightarrow> nat list \<Rightarrow> nat" where
  "last_key p ks = (if ks = [] then p else last ks)"

definition slots_wf :: "'a slots \<Rightarrow> nat list \<Rightarrow> nat list \<Rightarrow> bool" where
  "slots_wf s ks fs \<longleftrightarrow>
     lseg (entries s) NULL ks NULL \<and> fseg (entries s) (next_free s) fs \<and>
     distinct (ks @ fs) \<and> set (ks @ fs) = {..<length (entries s)} \<and>
     head s = first_key ks NULL \<and> tail s = last_key NULL ks \<and>
     slots_len s = length ks \<and> length (entries s) \<le> NULL"

definition slots_ok :: "'a slots \<Rightarrow> bool" where
  "slots_ok s \<longleftrightarrow> (\<exists>ks fs. slots_wf s ks fs)"

section \<open>Segments\<close>

abbreviation kv :: "'a entry list \<Rightarrow> nat \<Rightarrow> nat \<times> 'a" where
  "kv es k \<equiv> (k, the (data (es ! k)))"

lemma NULL_code [code]: "NULL = 18446744073709551615"
  by (simp add: NULL_def)

lemma first_key_simps [simp]: "first_key [] n = n" "first_key (k # ks) n = k"
  by (simp_all add: first_key_def)

lemma last_key_simps [simp]: "last_key p [] = p" "last_key p (k # ks) = last_key k ks"
  "last_key p (ks @ [k]) = k" "ks \<noteq> [] \<Longrightarrow> last_key p ks = last ks"
  by (simp_all add: last_key_def)

lemma first_key_append: "first_key (xs @ ys) n = first_key xs (first_key ys n)"
  by (cases xs) simp_all

lemma last_key_append: "last_key p (xs @ ys) = last_key (last_key p xs) ys"
  by (simp add: last_key_def)

lemma vec_modify_length [simp]: "length (vec_modify i f xs) = length xs"
  by (simp add: vec_modify_def)

lemma vec_modify_nth: "j < length xs \<Longrightarrow> vec_modify i f xs ! j = (if i = j then f (xs ! j) else xs ! j)"
  by (simp add: vec_modify_def nth_list_update)

lemma vec_modify_nth_other [simp]: "i \<noteq> j \<Longrightarrow> vec_modify i f xs ! j = xs ! j"
  by (simp add: vec_modify_def)

lemma vec_modify_id: "length xs \<le> i \<Longrightarrow> vec_modify i f xs = xs"
  by (simp add: vec_modify_def)

lemma lseg_bound: "lseg es p ks n \<Longrightarrow> k \<in> set ks \<Longrightarrow> k < length es \<and> data (es ! k) \<noteq> None"
  by (induction ks arbitrary: p) auto

lemma lseg_append:
  "lseg es p (xs @ ys) n \<longleftrightarrow> lseg es p xs (first_key ys n) \<and> lseg es (last_key p xs) ys n"
proof (induction xs arbitrary: p)
  case (Cons x xs)
  then show ?case by (cases xs; cases ys) auto
qed simp

lemma lseg_cong:
  assumes "lseg es p ks n" "\<And>k. k \<in> set ks \<Longrightarrow> es' ! k = es ! k" "length es \<le> length es'"
  shows "lseg es' p ks n"
  using assms by (induction ks arbitrary: p) auto

lemma lseg_modify_other:
  "lseg es p ks n \<Longrightarrow> i \<notin> set ks \<Longrightarrow> lseg (vec_modify i f es) p ks n"
  by (erule lseg_cong) (subst vec_modify_nth_other, auto)

lemma lseg_relink_next:
  assumes "lseg es p ks m" "distinct ks" "ks \<noteq> []"
  shows "lseg (vec_modify (last ks) (\<lambda>e. e\<lparr>next_key := n\<rparr>) es) p ks n"
proof -
  obtain xs k where ks: "ks = xs @ [k]" using assms(3) by (cases ks rule: rev_cases) auto
  have "lseg es p xs k" "lseg es (last_key p xs) [k] m" using assms(1) by (simp_all add: ks lseg_append)
  moreover have "k \<notin> set xs" using assms(2) by (simp add: ks)
  ultimately show ?thesis by (simp add: ks lseg_append lseg_modify_other vec_modify_nth)
qed

lemma lseg_relink_prev:
  assumes "lseg es p ks n" "distinct ks" "ks \<noteq> []"
  shows "lseg (vec_modify (hd ks) (\<lambda>e. e\<lparr>prev := q\<rparr>) es) q ks n"
  using assms by (cases ks) (auto simp: lseg_modify_other vec_modify_nth)

lemma fseg_cong:
  assumes "fseg es f fs" "\<And>k. k \<in> set fs \<Longrightarrow> es' ! k = es ! k" "length es' = length es"
  shows "fseg es' f fs"
  using assms by (induction fs arbitrary: f) auto

lemma fseg_modify_other:
  "fseg es f fs \<Longrightarrow> i \<notin> set fs \<Longrightarrow> fseg (vec_modify i g es) f fs"
  by (erule fseg_cong) (subst vec_modify_nth_other, auto)

lemma fseg_free: "fseg es f fs \<Longrightarrow> k \<in> set fs \<Longrightarrow> data (es ! k) = None"
  by (induction fs arbitrary: f) auto

lemma collect_lseg:
  "lseg es p ks n \<Longrightarrow>
   collect (length ks) \<lparr>it_entries = es, it_len = length ks, it_head = first_key ks n\<rparr> = map (kv es) ks"
proof (induction ks arbitrary: p)
  case (Cons k ks)
  then have "next_key (es ! k) = first_key ks n" "k < length es" "lseg es k ks n" by (cases ks; simp)+
  with Cons.IH [of k] Cons.prems show ?case by (auto simp: iter_next_def vec_get_def Let_def)
qed simp

lemma slots_list_wf: "slots_wf s ks fs \<Longrightarrow> slots_list s = map (kv (entries s)) ks"
  by (auto simp: slots_wf_def slots_list_def slots_iter_def collect_lseg [where p = NULL])

lemma slots_wf_bound: "slots_wf s ks fs \<Longrightarrow> k \<in> set ks \<Longrightarrow> k < length (entries s) \<and> data (entries s ! k) \<noteq> None"
  by (auto simp: slots_wf_def dest: lseg_bound)

lemma slots_wf_free: "slots_wf s ks fs \<Longrightarrow> k \<in> set fs \<Longrightarrow> data (entries s ! k) = None"
  by (auto simp: slots_wf_def dest: fseg_free)

lemma slots_wf_last: "slots_wf s ks fs \<Longrightarrow> ks \<noteq> [] \<Longrightarrow> tail s < length (entries s)"
  using slots_wf_bound [of s ks fs "last ks"] by (simp add: slots_wf_def)

section \<open>Creation and insertion\<close>

lemma slots_new_wf: "slots_wf slots_new [] []"
  by (simp add: slots_wf_def slots_new_def with_capacity_def NULL_def)

text \<open>Writing the new node and linking it behind the old tail.\<close>

lemma lseg_link_tail:
  assumes "lseg es NULL ks NULL" "distinct ks" "k \<notin> set ks" "k < length es" "length es \<le> NULL"
    "data (es ! k) = Some v" "prev (es ! k) = last_key NULL ks" "next_key (es ! k) = NULL"
  shows "lseg (vec_modify (last_key NULL ks) (\<lambda>e. e\<lparr>next_key := k\<rparr>) es) NULL (ks @ [k]) NULL"
proof (cases "ks = []")
  case True
  with assms show ?thesis by (simp add: vec_modify_id)
next
  case False
  with assms have "last ks \<noteq> k" by auto
  with assms False lseg_relink_next [OF assms(1,2) False] show ?thesis by (simp add: lseg_append)
qed


text \<open>The vector after the new node was written, and what is left of the free list.\<close>

definition put_node :: "'a \<Rightarrow> 'a slots \<Rightarrow> 'a entry list" where
  "put_node v s = (if next_free s = length (entries s) then entries s @ [entry_new v (tail s) NULL]
    else vec_modify (next_free s) (\<lambda>e. e\<lparr>prev := tail s, next_key := NULL, data := Some v\<rparr>) (entries s))"

lemma push_back_eq:
  "push_back v s = (next_free s, s\<lparr>
     entries := vec_modify (tail s) (\<lambda>e. e\<lparr>next_key := next_free s\<rparr>) (put_node v s),
     slots_len := slots_len s + 1,
     head := (if tail s < length (put_node v s) then head s else next_free s),
     tail := next_free s,
     next_free := (if next_free s = length (entries s) then next_free s + 1 else next_key (entries s ! next_free s))\<rparr>)"
  by (simp add: push_back_def put_node_def vec_get_def vec_modify_id Let_def)

lemma put_node_new:
  assumes "next_free s \<le> length (entries s)"
  shows "next_free s < length (put_node v s)" "data (put_node v s ! next_free s) = Some v"
    "prev (put_node v s ! next_free s) = tail s" "next_key (put_node v s ! next_free s) = NULL"
  using assms by (auto simp: put_node_def entry_new_def vec_modify_nth)

lemma put_node_old:
  "k < length (entries s) \<Longrightarrow> k \<noteq> next_free s \<Longrightarrow> put_node v s ! k = entries s ! k"
  by (simp add: put_node_def nth_append)

lemma slots_wf_next_free: "slots_wf s ks fs \<Longrightarrow> next_free s \<le> length (entries s) \<and> next_free s \<notin> set ks"
  by (cases fs) (auto simp: slots_wf_def)

lemma put_node_free:
  assumes "slots_wf s ks fs"
  shows "fseg (put_node v s) (if next_free s = length (entries s) then next_free s + 1
      else next_key (entries s ! next_free s)) (tl fs) \<and>
    insert (next_free s) (set ks \<union> set (tl fs)) = {..<length (put_node v s)} \<and> next_free s \<notin> set (tl fs)"
proof (cases fs)
  case Nil
  with assms show ?thesis by (simp add: slots_wf_def put_node_def lessThan_Suc)
next
  case (Cons f gs)
  with assms have f: "next_free s = f" "f < length (entries s)" "f \<notin> set gs" "fseg (entries s) (next_key (entries s ! f)) gs"
    "insert f (set ks \<union> set gs) = {..<length (entries s)}"
    by (simp_all add: slots_wf_def)
  then show ?thesis by (simp add: Cons put_node_def fseg_modify_other)
qed

lemma push_back_wf:
  assumes wf: "slots_wf s ks fs" and room: "length (entries s) < NULL"
  shows "slots_wf (snd (push_back v s)) (ks @ [next_free s]) (tl fs)"
    and "slots_list (snd (push_back v s)) = slots_list s @ [(next_free s, v)]"
proof -
  let ?es = "put_node v s" and ?k = "next_free s"
  note nf = slots_wf_next_free [OF wf] and new = put_node_new [of s v] and free = put_node_free [OF wf, of v]
  have head: "head s = first_key ks NULL" using wf by (simp add: slots_wf_def)
  have tail: "tail s = last_key NULL ks" and len: "length (entries s) \<le> length ?es" "length ?es \<le> NULL"
    using wf room by (simp_all add: slots_wf_def put_node_def)
  have old: "?es ! k = entries s ! k" if "k \<in> set ks" for k
    using that slots_wf_bound [OF wf that] nf by (intro put_node_old) auto
  have d: "distinct ks" "distinct (tl fs)" "set ks \<inter> set (tl fs) = {}"
    using wf by (cases fs; simp add: slots_wf_def; blast)+
  have l: "lseg ?es NULL ks NULL"
    using wf len(1) by (intro lseg_cong [OF _ old]) (simp_all add: slots_wf_def)
  have l': "lseg (vec_modify (tail s) (\<lambda>e. e\<lparr>next_key := ?k\<rparr>) ?es) NULL (ks @ [?k]) NULL"
    unfolding tail using nf new tail len(2) by (intro lseg_link_tail [OF l d(1)]) simp_all
  have t: "tail s \<notin> set (tl fs)"
  proof (cases "ks = []")
    case True
    with tail have "tail s = NULL" by simp
    moreover have "set (tl fs) \<subseteq> {..<length ?es}" using free by blast
    ultimately show ?thesis using len(2) by auto
  next
    case False
    with tail have "tail s \<in> set ks" by simp
    with d(3) show ?thesis by blast
  qed
  have h: "(if tail s < length ?es then head s else ?k) = first_key (ks @ [?k]) NULL"
    using head tail len slots_wf_last [OF wf] by (cases ks) auto
  show wf': "slots_wf (snd (push_back v s)) (ks @ [?k]) (tl fs)"
    using wf l' t free d nf len(2) h by (simp add: slots_wf_def push_back_eq fseg_modify_other Un_commute)
  have "kv (entries (snd (push_back v s))) k = kv (entries s) k" if "k \<in> set ks" for k
    using old [OF that] slots_wf_bound [OF wf that] len(1)
    by (cases "tail s = k") (simp_all add: push_back_eq vec_modify_nth)
  moreover have "kv (entries (snd (push_back v s))) ?k = (?k, v)"
    using new nf by (cases "tail s = ?k") (simp_all add: push_back_eq vec_modify_nth)
  ultimately show "slots_list (snd (push_back v s)) = slots_list s @ [(?k, v)]"
    unfolding slots_list_wf [OF wf] slots_list_wf [OF wf'] by simp
qed

section \<open>Removal\<close>

definition free_node :: "nat \<Rightarrow> nat \<Rightarrow> 'a entry list \<Rightarrow> 'a entry list" where
  "free_node key f = vec_modify key (\<lambda>e. e\<lparr>data := None, prev := NULL, next_key := f\<rparr>)"

definition link_next :: "nat \<Rightarrow> nat \<Rightarrow> 'a entry list \<Rightarrow> 'a entry list" where
  "link_next p n = vec_modify p (\<lambda>e. e\<lparr>next_key := n\<rparr>)"

definition link_prev :: "nat \<Rightarrow> nat \<Rightarrow> 'a entry list \<Rightarrow> 'a entry list" where
  "link_prev n p = vec_modify n (\<lambda>e. e\<lparr>prev := p\<rparr>)"

lemmas link_defs = free_node_def link_next_def link_prev_def

lemma lseg_link_next:
  assumes "lseg es NULL xs m" "distinct xs" "length es \<le> NULL"
  shows "lseg (link_next (last_key NULL xs) n es) NULL xs n"
  using assms lseg_relink_next [OF assms(1,2)] by (cases "xs = []") (simp_all add: link_next_def vec_modify_id)

lemma lseg_link_prev:
  assumes "lseg es p ys NULL" "distinct ys" "length es \<le> NULL"
  shows "lseg (link_prev (first_key ys NULL) q es) q ys NULL"
  using assms lseg_relink_prev [OF assms(1,2)] by (cases ys) (simp_all add: link_prev_def vec_modify_id)

lemma last_key_fresh:
  "set xs \<inter> A = {} \<Longrightarrow> (\<And>x. x \<in> A \<Longrightarrow> x < NULL) \<Longrightarrow> last_key NULL xs \<notin> A"
  by (cases "xs = []") (auto simp: last_key_def dest: last_in_set)

lemma first_key_fresh:
  "set ys \<inter> A = {} \<Longrightarrow> (\<And>x. x \<in> A \<Longrightarrow> x < NULL) \<Longrightarrow> first_key ys NULL \<notin> A"
  by (cases ys) auto

lemma lseg_unlink:
  assumes l: "lseg es NULL (xs @ k # ys) NULL" and d: "distinct (xs @ k # ys)" and len: "length es \<le> NULL"
  shows "lseg (link_prev (first_key ys NULL) (last_key NULL xs)
      (link_next (last_key NULL xs) (first_key ys NULL) (free_node k f es))) NULL (xs @ ys) NULL"
proof -
  let ?e1 = "free_node k f es" and ?p = "last_key NULL xs" and ?n = "first_key ys NULL"
  let ?e2 = "link_next ?p ?n ?e1"
  have b: "x < NULL" if "x \<in> set (xs @ k # ys)" for x using lseg_bound [OF l that] len by simp
  have "lseg es NULL xs k" "lseg es k ys NULL" using l by (simp_all add: lseg_append)
  then have e1: "lseg ?e1 NULL xs k" "lseg ?e1 k ys NULL"
    using d by (simp_all add: free_node_def lseg_modify_other)
  have p: "?p \<notin> set ys" using d b by (intro last_key_fresh) auto
  have n: "?n \<notin> set xs" using d b by (intro first_key_fresh) auto
  have e2: "lseg ?e2 NULL xs ?n" "lseg ?e2 k ys NULL"
    using lseg_link_next [OF e1(1), of ?n] d len p e1(2)
    by (simp_all add: link_defs lseg_modify_other)
  have "lseg (link_prev ?n ?p ?e2) NULL xs ?n" using e2(1) n by (simp add: link_prev_def lseg_modify_other)
  moreover have "lseg (link_prev ?n ?p ?e2) ?p ys NULL"
    using d len by (intro lseg_link_prev [OF e2(2)]) (simp_all add: link_defs)
  ultimately show ?thesis by (simp add: lseg_append)
qed

lemma link_data [simp]:
  "k < length es \<Longrightarrow> data (link_next i n es ! k) = data (es ! k)"
  "k < length es \<Longrightarrow> data (link_prev i n es ! k) = data (es ! k)"
  "k < length es \<Longrightarrow> data (free_node i f es ! k) = (if i = k then None else data (es ! k))"
  "length (link_next i n es) = length es" "length (link_prev i n es) = length es"
  "length (free_node i f es) = length es"
  by (simp_all add: link_defs vec_modify_nth)

lemma remove_key_eq:
  assumes "k < length (entries s)" "data (entries s ! k) = Some v"
    "p = prev (entries s ! k)" "n = next_key (entries s ! k)"
  shows "remove_key k s = (Inr v, s\<lparr>
     entries := link_prev n p (link_next p n (free_node k (next_free s) (entries s))),
     slots_len := slots_len s - 1,
     head := (if p < length (entries s) then head s else n),
     tail := (if n < length (entries s) then tail s else p),
     next_free := k\<rparr>)"
  using assms by (simp add: remove_key_def vec_get_def link_defs vec_modify_id Let_def)

lemma slots_wf_split:
  assumes "slots_wf s (xs @ k # ys) fs"
  shows "k < length (entries s)" "data (entries s ! k) \<noteq> None"
    "prev (entries s ! k) = last_key NULL xs" "next_key (entries s ! k) = first_key ys NULL"
  using assms by (cases ys; simp add: slots_wf_def lseg_append)+

lemma slots_wf_ends:
  assumes wf: "slots_wf s (xs @ k # ys) fs"
  shows "(if last_key NULL xs < length (entries s) then head s else first_key ys NULL) = first_key (xs @ ys) NULL"
    "(if first_key ys NULL < length (entries s) then tail s else last_key NULL xs) = last_key NULL (xs @ ys)"
proof -
  have e: "length (entries s) \<le> NULL" "head s = first_key (xs @ k # ys) NULL" "tail s = last_key NULL (xs @ k # ys)"
    using wf by (simp_all add: slots_wf_def)
  show "(if last_key NULL xs < length (entries s) then head s else first_key ys NULL) = first_key (xs @ ys) NULL"
  proof (cases xs)
    case (Cons x zs)
    then have "last xs \<in> set (xs @ k # ys)" by (cases zs) simp_all
    from slots_wf_bound [OF wf this] have "last_key NULL xs < length (entries s)" by (simp add: Cons last_key_def split: if_splits)
    with e Cons show ?thesis by simp
  qed (use e in simp)
  show "(if first_key ys NULL < length (entries s) then tail s else last_key NULL xs) = last_key NULL (xs @ ys)"
  proof (cases ys)
    case (Cons y zs)
    then have "y < length (entries s)" using slots_wf_bound [OF wf, of y] by simp
    with e Cons show ?thesis by (simp add: last_key_append)
  qed (use e in simp)
qed

lemma remove_key_wf:
  assumes wf: "slots_wf s (xs @ k # ys) fs"
  shows "slots_wf (snd (remove_key k s)) (xs @ ys) (k # fs)"
    and "slots_list (snd (remove_key k s)) = map (kv (entries s)) (xs @ ys)"
    and "fst (remove_key k s) = Inr (the (data (entries s ! k)))"
proof -
  let ?p = "last_key NULL xs" and ?n = "first_key ys NULL"
  let ?es = "link_prev ?n ?p (link_next ?p ?n (free_node k (next_free s) (entries s)))"
  note k = slots_wf_split [OF wf]
  from k(2) obtain v where v: "data (entries s ! k) = Some v" by blast
  note eq = remove_key_eq [OF k(1) v k(3,4) [symmetric]]
  have d: "distinct (xs @ k # ys)" "distinct fs" "k \<notin> set fs" "(set xs \<union> set ys) \<inter> set fs = {}"
    and part: "set (xs @ ys) \<union> set (k # fs) = {..<length (entries s)}" and len: "length (entries s) \<le> NULL"
    using wf by (simp_all add: slots_wf_def) blast+
  show "fst (remove_key k s) = Inr (the (data (entries s ! k)))" by (simp add: eq v)
  show wf': "slots_wf (snd (remove_key k s)) (xs @ ys) (k # fs)"
  proof -
    have fresh: "?p \<notin> A" "?n \<notin> A" if "A \<subseteq> {..<length (entries s)}" "(set xs \<union> set ys) \<inter> A = {}" for A
      using that len by (intro last_key_fresh first_key_fresh; fastforce)+
    have "?p \<noteq> k" "?n \<noteq> k" using fresh [of "{k}"] d(1) k(1) by auto
    moreover have "?p \<notin> set fs" "?n \<notin> set fs" using fresh [of "set fs"] d(4) part by auto
    ultimately have "fseg ?es k (k # fs)"
      using wf k(1) d(3) by (simp add: slots_wf_def link_defs vec_modify_nth fseg_modify_other)
    moreover have "lseg ?es NULL (xs @ ys) NULL"
      using wf d(1) len by (intro lseg_unlink) (simp_all add: slots_wf_def)
    moreover have "(if ?p < length (entries s) then head s else ?n) = first_key (xs @ ys) NULL"
      "(if ?n < length (entries s) then tail s else ?p) = last_key NULL (xs @ ys)"
      using slots_wf_ends [OF wf] by simp_all
    ultimately show ?thesis unfolding eq using wf d part len by (simp add: slots_wf_def)
  qed
  have ent: "entries (snd (remove_key k s)) = ?es" by (simp add: eq)
  have "kv ?es j = kv (entries s) j" if "j \<in> set (xs @ ys)" for j
    using that d(1) slots_wf_bound [OF wf, of j] by auto
  then show "slots_list (snd (remove_key k s)) = map (kv (entries s)) (xs @ ys)"
    unfolding slots_list_wf [OF wf'] ent by simp
qed

lemma remove_key_absent:
  assumes "slots_wf s ks fs" "k \<notin> set ks"
  shows "remove_key k s = (Inl SlotsError, s)" "get_by_index k s = None" "slots_index s k = None"
proof -
  have "data (entries s ! k) = None" if "k < length (entries s)"
  proof -
    have "set (ks @ fs) = {..<length (entries s)}" using assms by (simp add: slots_wf_def)
    with that assms(2) have "k \<in> set fs" by auto
    with assms(1) show ?thesis by (simp add: slots_wf_free)
  qed
  then show "remove_key k s = (Inl SlotsError, s)" "get_by_index k s = None" "slots_index s k = None"
    by (simp_all add: remove_key_def get_by_index_def slots_index_def vec_get_def)
qed

lemma pop_front_remove:
  assumes wf: "slots_wf s (k # ys) fs"
  shows "pop_front s = (Some (the (data (entries s ! k))), snd (remove_key k s))"
proof -
  have wf0: "slots_wf s ([] @ k # ys) fs" using wf by simp
  note k = slots_wf_split [OF wf0]
  from k(2) obtain v where v: "data (entries s ! k) = Some v" by blast
  have h: "head s = k" "length (entries s) \<le> NULL" and d: "distinct (k # ys)" using wf by (simp_all add: slots_wf_def)
  have p: "prev (entries s ! k) = NULL" using k(3) by simp
  have n: "first_key ys NULL \<noteq> k"
    using d k(1) h(2) by (cases ys) auto
  have upd: "(\<lambda>e. e\<lparr>prev := NULL, next_key := f, data := None\<rparr>) =
      (\<lambda>e :: 'a entry. e\<lparr>data := None, prev := NULL, next_key := f\<rparr>)" for f
    by (intro ext entry.equality) simp_all
  show ?thesis
    using k(1) v p h n k(4) unfolding remove_key_eq [OF k(1) v p [symmetric] k(4) [symmetric]]
    by (auto simp: pop_front_def vec_get_def link_defs vec_modify_id upd Let_def intro!: slots.equality)
qed

section \<open>Refinement to the delivered sequence\<close>

lemma slots_okI: "slots_wf s ks fs \<Longrightarrow> slots_ok s"
  by (auto simp: slots_ok_def)

lemma slots_ok_new: "slots_ok slots_new" "slots_list slots_new = []"
  using slots_okI [OF slots_new_wf] slots_list_wf [OF slots_new_wf] by simp_all

lemma slots_keys_distinct: "slots_ok s \<Longrightarrow> distinct (map fst (slots_list s))"
  by (auto simp: slots_ok_def slots_list_wf comp_def) (simp add: slots_wf_def)

lemma slots_len_list: "slots_ok s \<Longrightarrow> slots_len s = length (slots_list s)"
  by (auto simp: slots_ok_def slots_list_wf) (simp add: slots_wf_def)

lemma push_back_refines:
  assumes "slots_ok s" "length (entries s) < NULL" "push_back v s = (key, s')"
  shows "slots_ok s' \<and> slots_list s' = slots_list s @ [(key, v)] \<and> key \<notin> fst ` set (slots_list s)"
proof -
  obtain ks fs where wf: "slots_wf s ks fs" using assms(1) by (auto simp: slots_ok_def)
  have "fst (push_back v s) = next_free s" by (simp add: push_back_eq)
  with assms(3) have k: "key = next_free s" "s' = snd (push_back v s)" by simp_all
  from push_back_wf [OF wf assms(2), of v] slots_wf_next_free [OF wf] show ?thesis
    unfolding k by (auto simp: slots_list_wf [OF wf] intro: slots_okI)
qed

lemma pop_front_cases:
  assumes "slots_ok s"
  obtains (empty) "slots_list s = []" "pop_front s = (None, s)" "get_first s = None"
  | (item) k v where "slots_list s = (k, v) # tl (slots_list s)" "fst (pop_front s) = Some v"
      "get_first s = Some v" "slots_ok (snd (pop_front s))" "slots_list (snd (pop_front s)) = tl (slots_list s)"
proof -
  obtain ks fs where wf: "slots_wf s ks fs" using assms by (auto simp: slots_ok_def)
  show thesis
  proof (cases ks)
    case Nil
    with wf have "head s = NULL" "length (entries s) \<le> NULL" by (simp_all add: slots_wf_def)
    with Nil show thesis
      by (intro empty) (simp_all add: slots_list_wf [OF wf] pop_front_def get_first_def vec_get_def)
  next
    case (Cons k ys)
    note wf' = wf [unfolded Cons] and wf0 = wf [unfolded Cons, folded append_Nil]
    have "head s = k" using wf' by (simp add: slots_wf_def)
    with slots_wf_bound [OF wf', of k] have "get_first s = Some (the (data (entries s ! k)))"
      by (auto simp: get_first_def vec_get_def)
    with remove_key_wf [of s "[]" k ys fs] wf' show thesis
      by (intro item [of k "the (data (entries s ! k))"])
        (auto simp: pop_front_remove [OF wf'] slots_list_wf [OF wf'] intro: slots_okI)
  qed
qed

lemma get_by_index_map: "slots_ok s \<Longrightarrow> get_by_index k s = map_of (slots_list s) k"
proof -
  assume "slots_ok s"
  then obtain ks fs where wf: "slots_wf s ks fs" by (auto simp: slots_ok_def)
  show ?thesis
  proof (cases "k \<in> set ks")
    case True
    with slots_wf_bound [OF wf this] show ?thesis
      by (auto simp: slots_list_wf [OF wf] get_by_index_def vec_get_def map_of_map_restrict)
  next
    case False
    with remove_key_absent [OF wf this] show ?thesis
      by (simp add: slots_list_wf [OF wf] map_of_map_restrict)
  qed
qed

lemma remove_key_refines:
  assumes "slots_ok s"
  shows "slots_ok (snd (remove_key k s))"
    "slots_list (snd (remove_key k s)) = filter (\<lambda>(j, _). j \<noteq> k) (slots_list s)"
    "fst (remove_key k s) = (case map_of (slots_list s) k of None \<Rightarrow> Inl SlotsError | Some v \<Rightarrow> Inr v)"
proof -
  obtain ks fs where wf: "slots_wf s ks fs" using assms by (auto simp: slots_ok_def)
  have "slots_ok (snd (remove_key k s)) \<and>
    slots_list (snd (remove_key k s)) = filter (\<lambda>(j, _). j \<noteq> k) (slots_list s) \<and>
    fst (remove_key k s) = (case map_of (slots_list s) k of None \<Rightarrow> Inl SlotsError | Some v \<Rightarrow> Inr v)"
  proof (cases "k \<in> set ks")
    case True
    then obtain xs ys where ks: "ks = xs @ k # ys" by (auto dest: split_list)
    note wf' = wf [unfolded ks]
    have d: "k \<notin> set xs" "k \<notin> set ys" using wf' by (simp_all add: slots_wf_def)
    have "filter (\<lambda>x. x \<noteq> k) xs = xs" "filter (\<lambda>x. x \<noteq> k) ys = ys"
      using d by (auto intro!: filter_True)
    then have "filter (\<lambda>(j, _). j \<noteq> k) (slots_list s) = map (kv (entries s)) (xs @ ys)"
      by (simp add: slots_list_wf [OF wf'] filter_map comp_def)
    moreover have "map_of (slots_list s) k = Some (the (data (entries s ! k)))"
      using True by (simp add: slots_list_wf [OF wf] map_of_map_restrict)
    ultimately show ?thesis using remove_key_wf [OF wf'] by (auto intro: slots_okI)
  next
    case False
    then have "map_of (slots_list s) k = None" "filter (\<lambda>(j, _). j \<noteq> k) (slots_list s) = slots_list s"
      by (auto simp: slots_list_wf [OF wf] map_of_map_restrict intro!: filter_True)
    with assms remove_key_absent [OF wf False] show ?thesis by simp
  qed
  then show "slots_ok (snd (remove_key k s))"
    "slots_list (snd (remove_key k s)) = filter (\<lambda>(j, _). j \<noteq> k) (slots_list s)"
    "fst (remove_key k s) = (case map_of (slots_list s) k of None \<Rightarrow> Inl SlotsError | Some v \<Rightarrow> Inr v)"
    by simp_all
qed

lemma pop_front_entries [simp]: "length (entries (snd (pop_front s))) = length (entries s)"
  by (simp add: pop_front_def Let_def vec_get_def)

lemma remove_key_entries [simp]: "length (entries (snd (remove_key k s))) = length (entries s)"
  by (simp add: remove_key_def Let_def vec_get_def split: option.split)

lemma push_back_entries: "length (entries (snd (push_back v s))) \<le> Suc (length (entries s))"
  by (simp add: push_back_eq put_node_def)

section \<open>Interface for the users of the container\<close>

text \<open>
  What a user of a keyed first-in first-out queue relies on: \<open>items\<close> is the
  queue as (key, value) pairs, oldest first.
\<close>

locale keyed_queue =
  fixes inv :: "'s \<Rightarrow> bool" and items :: "'s \<Rightarrow> (nat \<times> 'a) list" and room :: "'s \<Rightarrow> bool"
    and push :: "'a \<Rightarrow> 's \<Rightarrow> nat \<times> 's" and pop :: "'s \<Rightarrow> 'a option \<times> 's" and first :: "'s \<Rightarrow> 'a option"
    and del :: "nat \<Rightarrow> 's \<Rightarrow> (slots_error + 'a) \<times> 's" and lookup :: "nat \<Rightarrow> 's \<Rightarrow> 'a option"
  assumes keys: "inv s \<Longrightarrow> distinct (map fst (items s))"
    and push: "inv s \<Longrightarrow> room s \<Longrightarrow> inv (snd (push v s)) \<and>
      items (snd (push v s)) = items s @ [(fst (push v s), v)] \<and> fst (push v s) \<notin> fst ` set (items s)"
    and pop: "inv s \<Longrightarrow> inv (snd (pop s)) \<and> items (snd (pop s)) = tl (items s) \<and>
      fst (pop s) = (case items s of [] \<Rightarrow> None | (k, v) # _ \<Rightarrow> Some v)"
    and first: "inv s \<Longrightarrow> first s = (case items s of [] \<Rightarrow> None | (k, v) # _ \<Rightarrow> Some v)"
    and del: "inv s \<Longrightarrow> inv (snd (del k s)) \<and> items (snd (del k s)) = filter (\<lambda>(j, _). j \<noteq> k) (items s)"
    and lookup: "inv s \<Longrightarrow> lookup k s = map_of (items s) k"
begin

lemma push_lookup: "inv s \<Longrightarrow> room s \<Longrightarrow> lookup (fst (push v s)) (snd (push v s)) = Some v"
  using push [of s v] by (auto simp: lookup map_add_def map_of_eq_None_iff [THEN iffD2] split: option.split)

lemma push_lookup_other:
  "inv s \<Longrightarrow> room s \<Longrightarrow> lookup k s = Some w \<Longrightarrow> lookup k (snd (push v s)) = Some w"
  using push [of s v] by (auto simp: lookup map_add_def dest!: map_of_SomeD split: option.split)

lemma del_lookup: "inv s \<Longrightarrow> lookup k (snd (del k s)) = None"
  using del [of s k] by (auto simp: lookup map_of_eq_None_iff)

lemma pop_length: "inv s \<Longrightarrow> length (items (snd (pop s))) = length (items s) - 1"
  using pop [of s] by simp

lemma push_del: "inv s \<Longrightarrow> room s \<Longrightarrow> items (snd (del (fst (push v s)) (snd (push v s)))) = items s"
  using push [of s v] del [of "snd (push v s)" "fst (push v s)"]
  by (auto simp: image_iff intro!: filter_True)

end

lemma push_back_room:
  assumes "slots_ok s" "length (entries s) < NULL"
  shows "slots_ok (snd (push_back v s)) \<and>
    slots_list (snd (push_back v s)) = slots_list s @ [(fst (push_back v s), v)] \<and>
    fst (push_back v s) \<notin> fst ` set (slots_list s)"
  using push_back_refines [OF assms, of v "fst (push_back v s)" "snd (push_back v s)"] by simp

lemma pop_front_refines:
  "slots_ok s \<Longrightarrow> slots_ok (snd (pop_front s)) \<and> slots_list (snd (pop_front s)) = tl (slots_list s) \<and>
    fst (pop_front s) = (case slots_list s of [] \<Rightarrow> None | (k, v) # _ \<Rightarrow> Some v)"
  by (frule pop_front_cases) (auto split: list.split)

lemma get_first_refines:
  "slots_ok s \<Longrightarrow> get_first s = (case slots_list s of [] \<Rightarrow> None | (k, v) # _ \<Rightarrow> Some v)"
  by (erule pop_front_cases) (auto split: list.split)

interpretation slotq: keyed_queue slots_ok slots_list "\<lambda>s. length (entries s) < NULL"
  push_back pop_front get_first remove_key get_by_index
  by unfold_locales
    (simp_all add: slots_keys_distinct push_back_room pop_front_refines get_first_refines
      remove_key_refines get_by_index_map)

section \<open>Properties\<close>

definition slots_example :: "nat slots" where
  "slots_example = snd (remove_key 1 (snd (push_back 30 (snd (push_back 20 (snd (push_back 10 slots_new)))))))"

lemma slots_example_ok: "slots_ok slots_example"
proof -
  have "length (entries slots_new) < NULL" "length (entries (snd (push_back (10::nat) slots_new))) < NULL"
    "length (entries (snd (push_back 20 (snd (push_back (10::nat) slots_new))))) < NULL" by code_simp+
  then show ?thesis
    unfolding slots_example_def by (intro remove_key_refines push_back_room [THEN conjunct1] slots_ok_new)
qed



text \<open>
  C11: Removal keeps a \<open>Slots\<close> container well-formed and exact: \<open>pop_front\<close> takes the
  oldest value, \<open>remove\<close> takes the value of its key wherever it stands in the list
  and leaves the order of the others, and answers \<open>SlotsError\<close> without changing
  anything when the key is not in use.
\<close>

theorem slots_removal_correct:
  assumes "slots_ok s"
  shows "slots_ok (snd (pop_front s)) \<and> slots_list (snd (pop_front s)) = tl (slots_list s) \<and>
     fst (pop_front s) = (case slots_list s of [] \<Rightarrow> None | (k, v) # _ \<Rightarrow> Some v) \<and>
     slots_ok (snd (remove_key key s)) \<and>
     slots_list (snd (remove_key key s)) = filter (\<lambda>(j, _). j \<noteq> key) (slots_list s) \<and>
     fst (remove_key key s) = (case get_by_index key s of None \<Rightarrow> Inl SlotsError | Some v \<Rightarrow> Inr v) \<and>
     slots_len s = length (slots_list s)"
  using assms pop_front_refines [OF assms] remove_key_refines [OF assms, of key]
  by (simp add: get_by_index_map slots_len_list)

theorem slots_removal_correct_witness:
  "fst (remove_key 2 slots_example) = Inr 30 \<and> fst (pop_front slots_example) = Some 10"
proof -
  note slots_example_ok
  moreover have "slots_list slots_example = [(0, 10), (2, 30)]" "get_by_index 2 slots_example = Some 30" by code_simp+
  ultimately show ?thesis using slots_removal_correct [of slots_example 2] by simp
qed

end
