(* ===== verification/Wake_List.thy ===== *)
theory Wake_List
  imports Slots
begin

text \<open>
  The list of waiting tasks of \<open>sync/wake_list.rs\<close>. A list item names the waker to
  call and the shared counter \<open>wait_permit\<close> of the waiting future; the counters
  live in a store of atomic cells. The methods run under the spin lock in the
  word \<open>flag\<close>, so each is one step here; the word that \<open>Lock::drop\<close> writes back is
  kept, because \<open>notify\<close> reads it before taking the lock.
\<close>

definition LOCKED :: usize where "LOCKED = 1"
definition NOTIFIABLE :: usize where "NOTIFIABLE = 2"

record list_item =
  li_wake :: nat
  li_cell :: nat

text \<open>\<open>woken\<close> lists the wakers called so far.\<close>

record waker_list =
  flag :: usize
  wake_list :: "list_item slots"
  cells :: "nat \<Rightarrow> nat"
  woken :: "nat list"

definition waker_list_new :: waker_list where
  "waker_list_new = \<lparr>flag = 0, wake_list = slots_new, cells = (\<lambda>_. 0), woken = []\<rparr>"

text \<open>\<open>lock\<close>: one \<open>fetch_or\<close> of the spin loop, and \<open>Drop for Lock\<close>.\<close>

definition lock_try :: "usize \<Rightarrow> bool \<times> usize" where
  "lock_try cur = (cur AND LOCKED = 0, cur OR LOCKED)"

definition unlock :: "'z waker_list_scheme \<Rightarrow> 'z waker_list_scheme" where
  "unlock s = s\<lparr>flag := (if slots_is_empty (wake_list s) then 0 else NOTIFIABLE)\<rparr>"

definition wl_insert :: "list_item \<Rightarrow> 'z waker_list_scheme \<Rightarrow> nat \<times> 'z waker_list_scheme" where
  "wl_insert item s = (let (key, l) = push_back item (wake_list s) in (key, unlock (s\<lparr>wake_list := l\<rparr>)))"

definition wl_remove :: "nat \<Rightarrow> 'z waker_list_scheme \<Rightarrow> (slots_error + list_item) \<times> 'z waker_list_scheme" where
  "wl_remove key s = (let (r, l) = remove_key key (wake_list s) in (r, unlock (s\<lparr>wake_list := l\<rparr>)))"

text \<open>\<open>ListItem::change_status\<close>, one round of its loop.\<close>

definition change_status_try :: "nat \<Rightarrow> nat \<Rightarrow> (nat, bool) attempt" where
  "change_status_try acquired cur =
     (let assign = min cur acquired; nxt = cur - assign in Swap nxt (nxt = 0))"

definition change_status :: "nat \<Rightarrow> nat list \<Rightarrow> nat \<Rightarrow> bool \<times> nat" where
  "change_status acquired = cas_run (change_status_try acquired)"

datatype notify_type = One | All

text \<open>
  \<open>Inner::notify\<close>. The first argument bounds the rounds of the loop; \<open>None\<close> is a
  failing \<open>expect\<close> or a loop that needs more rounds.
\<close>

fun inner_notify :: "nat \<Rightarrow> notify_type \<Rightarrow> bool \<Rightarrow> 'z waker_list_scheme \<Rightarrow> (bool \<times> 'z waker_list_scheme) option" where
  "inner_notify 0 ty is_wake s = None"
| "inner_notify (Suc n) ty is_wake s =
     (case get_first (wake_list s) of
        None \<Rightarrow> Some (is_wake, s)
      | Some item \<Rightarrow>
          let (res, v) = atomically (change_status_try 1) (cells s (li_cell item));
              s1 = s\<lparr>cells := (cells s)(li_cell item := v)\<rparr>
          in if res
             then (case pop_front (wake_list s1) of
                     (None, _) \<Rightarrow> None
                   | (Some pop, l) \<Rightarrow>
                       let s2 = s1\<lparr>wake_list := l, woken := woken s1 @ [li_wake pop]\<rparr> in
                       if ty = One then Some (True, s2) else inner_notify n ty True s2)
             else if ty = One then Some (is_wake, s1) else inner_notify n ty is_wake s1)"

definition inner_notify_one :: "'z waker_list_scheme \<Rightarrow> (bool \<times> 'z waker_list_scheme) option" where
  "inner_notify_one s = inner_notify 1 One False s"

text \<open>With counters that are at most one, each round removes an item: length + 1 rounds are enough.\<close>

definition inner_notify_all :: "'z waker_list_scheme \<Rightarrow> (bool \<times> 'z waker_list_scheme) option" where
  "inner_notify_all s = inner_notify (Suc (slots_len (wake_list s))) All False s"

text \<open>\<open>WakerList::notify\<close>: the unlocked look at \<open>flag\<close> first.\<close>

definition wl_notify :: "notify_type \<Rightarrow> 'z waker_list_scheme \<Rightarrow> (bool \<times> 'z waker_list_scheme) option" where
  "wl_notify ty s =
     (if flag s AND NOTIFIABLE \<noteq> 0
      then map_option (\<lambda>(b, t). (b, unlock t)) (if ty = One then inner_notify_one s else inner_notify_all s)
      else Some (False, s))"

definition wl_notify_one :: "'z waker_list_scheme \<Rightarrow> (bool \<times> 'z waker_list_scheme) option" where
  "wl_notify_one s = wl_notify One s"

definition wl_notify_all :: "'z waker_list_scheme \<Rightarrow> (bool \<times> 'z waker_list_scheme) option" where
  "wl_notify_all s = wl_notify All s"

text \<open>\<open>Lock::remove_permit\<close>; the caller holds the lock.\<close>

definition remove_permit :: "nat \<Rightarrow> nat \<Rightarrow> 'z waker_list_scheme \<Rightarrow> (bool \<times> 'z waker_list_scheme) option" where
  "remove_permit key wait_permit s =
     (let s1 = (case get_by_index key (wake_list s) of
                  None \<Rightarrow> s
                | Some item \<Rightarrow>
                    if cells s (li_cell item) = wait_permit
                    then s\<lparr>wake_list := snd (remove_key key (wake_list s))\<rparr> else s)
      in if wait_permit = 0 then map_option (\<lambda>(b, t). (\<not> b, t)) (inner_notify_one s1)
         else Some (False, s1))"

section \<open>Effects\<close>

definition wl_ok :: "'z waker_list_scheme \<Rightarrow> bool" where
  "wl_ok s \<longleftrightarrow> slots_ok (wake_list s) \<and> (\<forall>(k, item) \<in> set (slots_list (wake_list s)). cells s (li_cell item) \<le> 1)"

abbreviation waiting_items :: "'z waker_list_scheme \<Rightarrow> (nat \<times> list_item) list" where
  "waiting_items s \<equiv> slots_list (wake_list s)"

lemma unlock_simps [simp]:
  "wake_list (unlock s) = wake_list s" "cells (unlock s) = cells s" "woken (unlock s) = woken s"
  "waker_list.more (unlock s) = waker_list.more s"
  by (simp_all add: unlock_def)

lemma lock_exclusive: "lock_try (snd (lock_try cur)) = (False, snd (lock_try cur))"
proof -
  have "bit (cur OR 1) 0" by (simp add: bit_or_iff)
  then have "(cur OR 1) AND 1 \<noteq> 0" using flag_test_nonzero [of 0 "cur OR 1"] by simp
  then show ?thesis by (simp add: lock_try_def LOCKED_def or.assoc)
qed

lemma change_status_one: "v \<le> 1 \<Longrightarrow> atomically (change_status_try 1) v = (True, 0)"
  by (simp add: change_status_try_def atomically_def Let_def)

lemma inner_notify_empty: "slots_ok (wake_list s) \<Longrightarrow> waiting_items s = [] \<Longrightarrow>
    inner_notify (Suc n) ty b s = Some (b, s)"
  by (simp add: get_first_refines)

lemma inner_notify_item:
  assumes "wl_ok s" "waiting_items s = (k, item) # rest"
  defines "s' \<equiv> s\<lparr>cells := (cells s)(li_cell item := 0), wake_list := snd (pop_front (wake_list s)),
      woken := woken s @ [li_wake item]\<rparr>"
  shows "inner_notify (Suc n) ty b s = (if ty = One then Some (True, s') else inner_notify n ty True s')"
    "wl_ok s'" "waiting_items s' = rest"
proof -
  have sl: "slots_ok (wake_list s)" and c: "cells s (li_cell item) \<le> 1"
    and rest: "\<forall>(k, item) \<in> set rest. cells s (li_cell item) \<le> 1"
    using assms(1,2) by (simp_all add: wl_ok_def)
  note pop = pop_front_refines [OF sl]
  show "inner_notify (Suc n) ty b s = (if ty = One then Some (True, s') else inner_notify n ty True s')"
    using pop by (cases "pop_front (wake_list s)")
      (auto simp: get_first_refines [OF sl] assms(2) change_status_one [OF c, unfolded One_nat_def] s'_def)
  show "waiting_items s' = rest" using pop by (simp add: s'_def assms(2))
  then show "wl_ok s'" using pop rest by (auto simp: wl_ok_def s'_def)
qed

text \<open>Waking all items: the loop ends, the list is empty, and every waker was called in order.\<close>

lemma inner_notify_drains:
  assumes "wl_ok s" "length (waiting_items s) \<le> n"
  shows "\<exists>s'. inner_notify (Suc n) All b s = Some (b \<or> waiting_items s \<noteq> [], s') \<and> wl_ok s' \<and>
     waiting_items s' = [] \<and> woken s' = woken s @ map (li_wake \<circ> snd) (waiting_items s) \<and>
     flag s' = flag s \<and> waker_list.more s' = waker_list.more s \<and>
     length (entries (wake_list s')) = length (entries (wake_list s)) \<and>
     cells s' = (\<lambda>c. if c \<in> (li_cell \<circ> snd) ` set (waiting_items s) then 0 else cells s c)"
  using assms
proof (induction n arbitrary: b s)
  case 0
  then show ?case using inner_notify_empty [of s 0] by (auto simp: wl_ok_def)
next
  case (Suc n)
  show ?case
  proof (cases "waiting_items s")
    case Nil
    with Suc.prems inner_notify_empty [of s "Suc n"] show ?thesis by (auto simp: wl_ok_def)
  next
    case (Cons kv rest)
    obtain k item where kv: "kv = (k, item)" by (cases kv)
    note step = inner_notify_item [OF Suc.prems(1) Cons [unfolded kv]]
    from Suc.IH [OF step(2), of True] Suc.prems(2) show ?thesis
      unfolding step(1) [of "Suc n" All b] step(3) by (auto simp: Cons kv fun_eq_iff simp del: inner_notify.simps)
  qed
qed

lemma flag_notifiable: "NOTIFIABLE AND NOTIFIABLE \<noteq> 0"
  by (simp add: NOTIFIABLE_def)

definition flag_ok :: "'z waker_list_scheme \<Rightarrow> bool" where
  "flag_ok s \<longleftrightarrow> flag s = (if waiting_items s = [] then 0 else NOTIFIABLE)"

lemma flag_ok_unlock: "slots_ok (wake_list s) \<Longrightarrow> flag_ok (unlock s)"
  by (simp add: flag_ok_def unlock_def slots_is_empty_def slots_len_list)

section \<open>Properties\<close>


definition waker_list_example :: waker_list where
  "waker_list_example = snd (wl_insert \<lparr>li_wake = 8, li_cell = 1\<rparr>
     (snd (wl_insert \<lparr>li_wake = 7, li_cell = 0\<rparr> (waker_list_new\<lparr>cells := (\<lambda>_. 1)\<rparr>))))"


end
