(* ===== verification/Semaphore.thy ===== *)
theory Semaphore
  imports Wake_List
begin

text \<open>
  The counting semaphore of \<open>sync/semaphore_inner.rs\<close>, on which \<open>Semaphore\<close>,
  \<open>AutoRelSemaphore\<close>, \<open>Mutex\<close>, \<open>RwLock\<close> and \<open>Waiter\<close> are built. The word \<open>permits\<close>
  holds twice the number of free permits plus the closed flag; it is changed
  by compare-exchange outside the lock of the waker list, so the polls of
  several acquire futures, the releases and the drops of futures interleave:
  each atomic access (or critical section) is one step.
\<close>

section \<open>Constants and state\<close>

definition MAX_PERMITS :: usize where "MAX_PERMITS = drop_bit 1 (- 1)"
definition PERMIT_SHIFT :: nat where "PERMIT_SHIFT = 1"
definition SEM_CLOSED :: usize where "SEM_CLOSED = 1"

datatype semaphore_error = Overflow | Empty | Closed

text \<open>
  An acquire future (\<open>Permit\<close>) and where its \<open>poll\<close> stands: between polls; in the
  loop of \<open>poll_acquire\<close> with the value of \<open>curr\<close>; about to reload \<open>permits\<close>; about to
  \<open>release\<close> the permit it took although it is in the list; finished; dropped.
  The counter \<open>wait_permit\<close> and the waker of future number \<open>i\<close> are cell \<open>i\<close> and
  waker \<open>i\<close>.
\<close>

datatype fut_pc = FIdle | FLoop usize | FReload | FRelease | FDone "semaphore_error + unit" | FDropped

record permit =
  waker_index :: "nat option"
  enqueue :: bool
  fpc :: fut_pc

definition permit_new :: permit where
  "permit_new = \<lparr>waker_index = None, enqueue = False, fpc = FIdle\<rparr>"

text \<open>
  The semaphore with the futures that were created on it; \<open>held\<close> counts the
  permits handed out and not given back, \<open>total\<close> the permits that exist.
\<close>

record sem = waker_list +
  permits :: usize
  futs :: "permit list"
  held :: nat
  total :: nat
  sem_panicked :: bool

definition semaphore_new :: "usize \<Rightarrow> semaphore_error + sem" where
  "semaphore_new n =
     (if MAX_PERMITS \<le> n then Inl Overflow
      else Inr \<lparr>flag = 0, wake_list = slots_new, cells = (\<lambda>_. 0), woken = [],
                permits = push_bit PERMIT_SHIFT n, futs = [], held = 0, total = unat n, sem_panicked = False\<rparr>)"

section \<open>Operations\<close>

definition current_permits :: "sem \<Rightarrow> usize" where
  "current_permits s = drop_bit PERMIT_SHIFT (permits s)"

definition is_closed_word :: "usize \<Rightarrow> bool" where
  "is_closed_word w = (w AND SEM_CLOSED = SEM_CLOSED)"

definition is_closed :: "sem \<Rightarrow> bool" where
  "is_closed s = is_closed_word (permits s)"

definition sem_panic :: "sem \<Rightarrow> sem" where
  "sem_panic s = s\<lparr>sem_panicked := True\<rparr>"

text \<open>\<open>permits.fetch_add(n << PERMIT_SHIFT)\<close> and the assertion on the old value.\<close>

definition add_permits :: "usize \<Rightarrow> sem \<Rightarrow> sem" where
  "add_permits n s = (let prv = permits s; s' = s\<lparr>permits := prv + push_bit PERMIT_SHIFT n\<rparr> in
     if drop_bit PERMIT_SHIFT prv < MAX_PERMITS then s' else sem_panic s')"

definition release :: "sem \<Rightarrow> sem" where
  "release s =
     (case inner_notify_one s of
        None \<Rightarrow> sem_panic s
      | Some (True, s1) \<Rightarrow> unlock s1
      | Some (False, s1) \<Rightarrow> unlock (add_permits 1 s1))"

definition release_notify :: "sem \<Rightarrow> sem" where
  "release_notify s =
     (case inner_notify_one s of
        None \<Rightarrow> sem_panic s
      | Some (True, s1) \<Rightarrow> unlock s1
      | Some (False, s1) \<Rightarrow> unlock (s1\<lparr>permits := push_bit PERMIT_SHIFT 1\<rparr>))"

text \<open>The loop of \<open>release_multi\<close>: the permits that found no waiter are added at the end.\<close>

fun release_multi_loop :: "nat \<Rightarrow> sem \<Rightarrow> nat \<times> sem" where
  "release_multi_loop 0 s = (0, s)"
| "release_multi_loop (Suc n) s =
     (case inner_notify_one s of
        None \<Rightarrow> (Suc n, sem_panic s)
      | Some (True, s1) \<Rightarrow> release_multi_loop n s1
      | Some (False, s1) \<Rightarrow> (Suc n, s1))"

definition release_multi :: "nat \<Rightarrow> sem \<Rightarrow> sem" where
  "release_multi n s = (let (left, s1) = release_multi_loop n s in unlock (add_permits (of_nat left) s1))"

definition release_all :: "sem \<Rightarrow> sem" where
  "release_all s = (case wl_notify_all s of None \<Rightarrow> sem_panic s | Some (_, s1) \<Rightarrow> s1)"

text \<open>One round of the loop of \<open>try_acquire\<close>, and the method.\<close>

definition try_acquire_try :: "usize \<Rightarrow> (usize, semaphore_error + unit) attempt" where
  "try_acquire_try cur =
     (if is_closed_word cur then Abort (Inl Closed)
      else if cur = 0 then Abort (Inl Empty)
      else Swap (cur - push_bit PERMIT_SHIFT 1) (Inr ()))"

definition try_acquire :: "sem \<Rightarrow> (semaphore_error + unit) \<times> sem" where
  "try_acquire s = (let (r, w) = atomically try_acquire_try (permits s);
        s' = s\<lparr>permits := w\<rparr> in (r, if r = Inr () then s'\<lparr>held := held s' + 1\<rparr> else s'))"

definition sem_close :: "sem \<Rightarrow> sem" where
  "sem_close s = (let s0 = s\<lparr>permits := permits s OR SEM_CLOSED\<rparr> in
     case inner_notify_all s0 of None \<Rightarrow> sem_panic s0 | Some (_, s1) \<Rightarrow> unlock s1)"

definition acquire :: "sem \<Rightarrow> nat \<times> sem" where
  "acquire s = (let i = length (futs s) in
     (i, s\<lparr>futs := futs s @ [permit_new], cells := (cells s)(i := 1)\<rparr>))"

definition set_pc :: "nat \<Rightarrow> fut_pc \<Rightarrow> sem \<Rightarrow> sem" where
  "set_pc i pc s = s\<lparr>futs := (futs s)[i := (futs s ! i)\<lparr>fpc := pc\<rparr>]\<rparr>"

definition set_enqueue :: "nat \<Rightarrow> bool \<Rightarrow> sem \<Rightarrow> sem" where
  "set_enqueue i b s = s\<lparr>futs := (futs s)[i := (futs s ! i)\<lparr>enqueue := b\<rparr>]\<rparr>"

text \<open>\<open>poll_acquire\<close>: the part before the loop.\<close>

definition poll_acquire :: "nat \<Rightarrow> sem \<Rightarrow> sem" where
  "poll_acquire i s = (let cur = permits s in
     if is_closed_word cur then set_pc i (FDone (Inl Closed)) s
     else if enqueue (futs s ! i)
     then (set_pc i (FDone (Inr ())) (set_enqueue i False s))\<lparr>held := held s + 1\<rparr>
     else set_pc i (FLoop cur) s)"

text \<open>\<open>update_permit\<close>: the compare-exchange of the loop.\<close>

definition update_permit :: "nat \<Rightarrow> usize \<Rightarrow> sem \<Rightarrow> sem" where
  "update_permit i cur s =
     (if permits s = cur
      then let s1 = s\<lparr>permits := cur - push_bit PERMIT_SHIFT 1\<rparr> in
           if enqueue (futs s1 ! i) then set_pc i FRelease s1
           else (set_pc i (FDone (Inr ())) s1)\<lparr>held := held s1 + 1\<rparr>
      else set_pc i (FLoop (permits s)) s)"

text \<open>One round of the loop of \<open>poll_acquire\<close>.\<close>

definition poll_acquire_loop :: "nat \<Rightarrow> usize \<Rightarrow> sem \<Rightarrow> sem" where
  "poll_acquire_loop i cur s =
     (if is_closed_word cur then set_pc i (FDone (Inl Closed)) s
      else if push_bit PERMIT_SHIFT 1 \<le> cur then update_permit i cur s
      else if \<not> enqueue (futs s ! i)
      then let (key, s1) = wl_insert \<lparr>li_wake = i, li_cell = i\<rparr> s in
           s1\<lparr>futs := (futs s1)[i := \<lparr>waker_index = Some key, enqueue = True, fpc = FReload\<rparr>]\<rparr>
      else set_pc i FIdle s)"

text \<open>\<open>Drop for Permit\<close>.\<close>

definition permit_drop :: "nat \<Rightarrow> sem \<Rightarrow> sem" where
  "permit_drop i s = (let f = futs s ! i; s0 = set_enqueue i False (set_pc i FDropped s) in
     if enqueue f
     then (case waker_index f of
             None \<Rightarrow> sem_panic s0
           | Some index \<Rightarrow>
               (case remove_permit index (cells s i) s0 of
                  None \<Rightarrow> sem_panic s0
                | Some (True, s1) \<Rightarrow> unlock (add_permits 1 s1)
                | Some (False, s1) \<Rightarrow> unlock s1))
     else set_pc i FDropped s)"

section \<open>Interleavings\<close>

datatype sem_event =
    Acquire | Poll nat | PollStep nat | DropFut nat | TryAcquire | Release | AddPermit | Close

text \<open>
  A future is polled for the first time, or again after its waker was called;
  it is dropped between polls or after it is ready. Permits are given back by
  those who hold one (\<open>Release\<close>), or added by \<open>Semaphore::release\<close> up to the
  documented maximum (\<open>AddPermit\<close>).
\<close>

fun sem_step :: "sem_event \<Rightarrow> sem \<Rightarrow> sem option" where
  "sem_step Acquire s = (if length (futs s) + 1 < NULL then Some (snd (acquire s)) else None)"
| "sem_step (Poll i) s =
     (if i < length (futs s) \<and> fpc (futs s ! i) = FIdle \<and> (enqueue (futs s ! i) \<longrightarrow> i \<in> set (woken s))
      then Some (poll_acquire i s) else None)"
| "sem_step (PollStep i) s =
     (if i < length (futs s)
      then (case fpc (futs s ! i) of
              FLoop cur \<Rightarrow> Some (poll_acquire_loop i cur s)
            | FReload \<Rightarrow> Some (set_pc i (FLoop (permits s)) s)
            | FRelease \<Rightarrow> Some (set_pc i FIdle (release s))
            | _ \<Rightarrow> None)
      else None)"
| "sem_step (DropFut i) s =
     (if i < length (futs s) \<and> (case fpc (futs s ! i) of FIdle \<Rightarrow> True | FDone _ \<Rightarrow> True | _ \<Rightarrow> False)
      then Some (permit_drop i s) else None)"
| "sem_step TryAcquire s = Some (snd (try_acquire s))"
| "sem_step Release s = (if 0 < held s then Some (release (s\<lparr>held := held s - 1\<rparr>)) else None)"
| "sem_step AddPermit s =
     (if int (total s) < uint MAX_PERMITS then Some (release (s\<lparr>total := total s + 1\<rparr>)) else None)"
| "sem_step Close s = Some (sem_close s)"

inductive sem_reachable :: "sem \<Rightarrow> bool" where
  sem_created: "semaphore_new n = Inr s \<Longrightarrow> sem_reachable s"
| sem_stepped: "sem_reachable s \<Longrightarrow> sem_step e s = Some t \<Longrightarrow> sem_reachable t"

fun sem_run :: "sem_event list \<Rightarrow> sem \<Rightarrow> sem option" where
  "sem_run [] s = Some s"
| "sem_run (e # es) s = (case sem_step e s of None \<Rightarrow> None | Some t \<Rightarrow> sem_run es t)"

section \<open>Permit words\<close>

definition pcount :: "usize \<Rightarrow> nat" where
  "pcount w = unat w div 2"

lemma MAX_PERMITS_code [code]: "MAX_PERMITS = 9223372036854775807"
  by (simp add: MAX_PERMITS_def mask_eq_exp_minus_1)

lemma push_permit [simp]: "push_bit PERMIT_SHIFT (1 :: usize) = 2"
  by (simp add: PERMIT_SHIFT_def)

lemma two_shift [simp]: "2 ^ PERMIT_SHIFT = (2 :: usize)"
  by (simp add: PERMIT_SHIFT_def)

lemma closed_bit: "is_closed_word w \<longleftrightarrow> bit w 0"
  unfolding is_closed_word_def SEM_CLOSED_def using flag_test [of 0 w] by simp

lemma closed_odd: "is_closed_word w \<longleftrightarrow> odd (unat w)"
proof -
  have "odd (unat w) = bit (unat w) 0" by (rule bit_0 [symmetric])
  also have "\<dots> = bit w 0" by (subst bit_unsigned_iff) simp
  finally show ?thesis by (simp add: closed_bit)
qed

lemma unat_MAX_PERMITS: "unat MAX_PERMITS = 2 ^ 63 - 1"
  by (simp add: MAX_PERMITS_def mask_eq_exp_minus_1)

lemma pcount_drop: "unat (drop_bit PERMIT_SHIFT w) = pcount w"
  by (simp add: PERMIT_SHIFT_def pcount_def drop_bit_eq_div unat_div)

lemma pcount_bound: "pcount w \<le> 2 ^ 63 - 1"
  using unsigned_less [of w, where 'a = nat] by (simp add: pcount_def)

lemma pcount_add:
  assumes "pcount w < 2 ^ 63 - 1"
  shows "pcount (w + 2) = Suc (pcount w)" "is_closed_word (w + 2) = is_closed_word w"
proof -
  have "unat w + 2 < 2 ^ 64" using assms by (simp add: pcount_def)
  then have "unat (w + 2) = unat w + 2" by (simp add: unat_plus_if')
  then show "pcount (w + 2) = Suc (pcount w)" "is_closed_word (w + 2) = is_closed_word w"
    by (simp_all add: pcount_def closed_odd)
qed

lemma closed_add: "is_closed_word (w + 2) = is_closed_word w"
  by (simp add: closed_bit bit_0)

lemma pcount_sub:
  assumes "2 \<le> w"
  shows "pcount (w - 2) = pcount w - 1" "0 < pcount w" "is_closed_word (w - 2) = is_closed_word w"
proof -
  have "2 \<le> unat w" using assms by (simp add: word_le_nat_alt)
  moreover then have "unat (w - 2) = unat w - 2" by (simp add: unat_sub_if')
  ultimately show "pcount (w - 2) = pcount w - 1" "0 < pcount w" "is_closed_word (w - 2) = is_closed_word w"
    by (simp_all add: pcount_def closed_odd)
qed

lemma pcount_zero: "\<not> 2 \<le> w \<Longrightarrow> pcount w = 0"
  by (simp add: pcount_def word_le_nat_alt)

lemma pcount_empty: "\<not> is_closed_word w \<Longrightarrow> (2 \<le> w) = (w \<noteq> 0)"
proof -
  assume "\<not> is_closed_word w"
  then have e: "even (unat w)" by (simp add: closed_odd)
  have "w \<noteq> 0 \<longleftrightarrow> unat w \<noteq> 0" by (simp add: unat_eq_zero)
  with e show ?thesis by (auto simp: word_le_nat_alt elim!: evenE)
qed

lemma closed_or: "is_closed_word (w OR SEM_CLOSED)"
  by (simp add: closed_bit bit_or_iff SEM_CLOSED_def)

section \<open>Sums over the futures\<close>

lemma sum_list_upd:
  fixes g :: "'b \<Rightarrow> nat \<Rightarrow> nat"
  assumes "i < length fs"
  shows "(\<Sum>j<length fs. g (fs[i := x] ! j) j) + g (fs ! i) i = (\<Sum>j<length fs. g (fs ! j) j) + g x i"
proof -
  have m: "i \<in> {..<length fs}" using assms by simp
  have "(\<Sum>j \<in> {..<length fs} - {i}. g (fs[i := x] ! j) j) = (\<Sum>j \<in> {..<length fs} - {i}. g (fs ! j) j)"
    by (rule sum.cong) auto
  then show ?thesis using assms by (simp add: sum.remove [OF _ m])
qed

lemma sum_fun_upd:
  fixes h :: "nat \<Rightarrow> 'c \<Rightarrow> nat"
  assumes "i < n"
  shows "(\<Sum>j<n. h j ((c(i := v)) j)) + h i (c i) = (\<Sum>j<n. h j (c j)) + h i v"
proof -
  have m: "i \<in> {..<n}" using assms by simp
  have "(\<Sum>j \<in> {..<n} - {i}. h j ((c(i := v)) j)) = (\<Sum>j \<in> {..<n} - {i}. h j (c j))"
    by (rule sum.cong) auto
  then show ?thesis using assms by (simp add: sum.remove [OF _ m])
qed

section \<open>Invariant\<close>

text \<open>One future and its counter.\<close>

definition fut_ok :: "nat \<Rightarrow> permit \<Rightarrow> bool" where
  "fut_ok c f \<longleftrightarrow> c \<le> 1 \<and> (enqueue f \<or> c = 0 \<longrightarrow> waker_index f \<noteq> None) \<and>
     (waker_index f \<noteq> None \<and> \<not> enqueue f \<longrightarrow> (case fpc f of FDone _ \<Rightarrow> True | FDropped \<Rightarrow> True | _ \<Rightarrow> False)) \<and>
     (fpc f = FReload \<or> fpc f = FRelease \<longrightarrow> enqueue f) \<and> (fpc f = FDropped \<longrightarrow> \<not> enqueue f)"

text \<open>The list holds exactly the futures that wait and were not granted a permit.\<close>

definition queue_holds :: "sem \<Rightarrow> bool" where
  "queue_holds s \<longleftrightarrow> slots_ok (wake_list s) \<and>
     length (entries (wake_list s)) \<le> card {i. i < length (futs s) \<and> waker_index (futs s ! i) \<noteq> None} \<and>
     (\<forall>k item. (k, item) \<in> set (waiting_items s) \<longleftrightarrow>
        (\<exists>i < length (futs s). item = \<lparr>li_wake = i, li_cell = i\<rparr> \<and> enqueue (futs s ! i) \<and> cells s i = 1 \<and>
           waker_index (futs s ! i) = Some k))"

definition struct_ok :: "sem \<Rightarrow> bool" where
  "struct_ok s \<longleftrightarrow> queue_holds s \<and> length (futs s) < NULL \<and> (\<forall>i < length (futs s). fut_ok (cells s i) (futs s ! i)) \<and>
     (\<forall>i \<in> set (woken s). i < length (futs s) \<and> cells s i = 0)"

text \<open>Permits on their way: granted to a waiting future, or taken by one that must give it back.\<close>

definition owed :: "nat \<Rightarrow> permit \<Rightarrow> nat" where
  "owed c f = of_bool (enqueue f \<and> c = 0) + of_bool (fpc f = FRelease)"

definition avail :: "sem \<Rightarrow> nat" where
  "avail s = pcount (permits s) + (\<Sum>i<length (futs s). owed (cells s i) (futs s ! i))"

text \<open>A future in the list whose poll will still look at the permits, or release one.\<close>

definition active :: "permit \<Rightarrow> nat" where
  "active f = of_bool (enqueue f \<and> (case fpc f of FReload \<Rightarrow> True | FRelease \<Rightarrow> True | FLoop c \<Rightarrow> 2 \<le> c | _ \<Rightarrow> False))"

definition attended :: "sem \<Rightarrow> bool" where
  "attended s \<longleftrightarrow> 0 < pcount (permits s) \<longrightarrow> length (waiting_items s) \<le> (\<Sum>i<length (futs s). active (futs s ! i))"

definition fresh_loops :: "permit list \<Rightarrow> bool" where
  "fresh_loops fs \<longleftrightarrow> (\<forall>f \<in> set fs. \<forall>c. fpc f = FLoop c \<longrightarrow> \<not> is_closed_word c)"

definition live_ok :: "sem \<Rightarrow> bool" where
  "live_ok s \<longleftrightarrow> (\<not> is_closed s \<longrightarrow> \<not> sem_panicked s \<and> avail s + held s = total s \<and> attended s \<and> fresh_loops (futs s))"

definition sem_inv :: "sem \<Rightarrow> bool" where
  "sem_inv s \<longleftrightarrow> struct_ok s \<and> live_ok s \<and> total s \<le> 2 ^ 63 - 1"

lemma semaphore_new_inv: "semaphore_new n = Inr s \<Longrightarrow> sem_inv s"
proof -
  assume a: "semaphore_new n = Inr s"
  then have "n < MAX_PERMITS" by (auto simp: semaphore_new_def split: if_splits)
  then have n: "unat n < 2 ^ 63 - 1" using unat_MAX_PERMITS by (simp add: word_less_nat_alt)
  then have u: "unat (push_bit 1 n) = 2 * unat n"
    unfolding unsigned_push_bit_eq by (simp add: take_bit_nat_eq_self push_bit_eq_mult)
  show ?thesis using a n u slots_ok_new
    by (auto simp: semaphore_new_def sem_inv_def struct_ok_def queue_holds_def live_ok_def avail_def attended_def fresh_loops_def
        pcount_def PERMIT_SHIFT_def slots_new_def with_capacity_def NULL_def split: if_splits)
qed
section \<open>Steps keep the invariant\<close>

lemma struct_wl_ok: "struct_ok s \<Longrightarrow> wl_ok s"
  unfolding struct_ok_def queue_holds_def wl_ok_def by (auto simp: fut_ok_def)

text \<open>Changing one future; its place in the list only matters while it waits ungranted.\<close>

lemma struct_set_fut:
  assumes s: "struct_ok s" and i: "i < length (futs s)" and f: "fut_ok (cells s i) f"
    and w: "waker_index f = waker_index (futs s ! i)" "cells s i = 1 \<longrightarrow> enqueue f = enqueue (futs s ! i)"
  shows "struct_ok (s\<lparr>futs := (futs s)[i := f]\<rparr>)"
proof -
  have wj: "waker_index ((futs s)[i := f] ! j) = waker_index (futs s ! j)" for j
    using w(1) i by (cases "j = i") simp_all
  have ej: "(enqueue ((futs s)[i := f] ! j) \<and> cells s j = Suc 0 \<and> P) = (enqueue (futs s ! j) \<and> cells s j = Suc 0 \<and> P)"
    for j P using w(2) i by (cases "j = i") auto
  have "queue_holds (s\<lparr>futs := (futs s)[i := f]\<rparr>)"
    using s by (simp add: struct_ok_def queue_holds_def wj ej)
  then show ?thesis using s f i by (simp add: struct_ok_def nth_list_update)
qed

lemma struct_simps [simp]:
  "struct_ok (s\<lparr>permits := w\<rparr>) = struct_ok s" "struct_ok (s\<lparr>held := h\<rparr>) = struct_ok s"
  "struct_ok (s\<lparr>total := n\<rparr>) = struct_ok s" "struct_ok (s\<lparr>sem_panicked := b\<rparr>) = struct_ok s"
  "struct_ok (s\<lparr>flag := x\<rparr>) = struct_ok s" "struct_ok (unlock s) = struct_ok s"
  by (simp_all add: struct_ok_def queue_holds_def unlock_def)

lemma notify_one_cases:
  assumes s: "struct_ok s"
  obtains (none) "waiting_items s = []" "inner_notify_one s = Some (False, s)"
  | (woke) i l where "i < length (futs s)" "enqueue (futs s ! i)" "cells s i = 1"
      "waiting_items s \<noteq> []" "slots_list l = tl (waiting_items s)"
      "inner_notify_one s = Some (True, s\<lparr>cells := (cells s)(i := 0), wake_list := l, woken := woken s @ [i]\<rparr>)"
      "struct_ok (s\<lparr>cells := (cells s)(i := 0), wake_list := l, woken := woken s @ [i]\<rparr>)"
proof (cases "waiting_items s")
  case Nil
  with s show ?thesis
    by (intro none) (simp_all add: inner_notify_one_def inner_notify_empty struct_ok_def queue_holds_def
        del: inner_notify.simps)
next
  case (Cons kv rest)
  obtain k item where kv: "kv = (k, item)" by (cases kv)
  have q: "queue_holds s" using s by (simp add: struct_ok_def)
  then have "(k, item) \<in> set (waiting_items s)" by (simp add: Cons kv)
  with q obtain i where i: "i < length (futs s)" "item = \<lparr>li_wake = i, li_cell = i\<rparr>" "enqueue (futs s ! i)"
      "cells s i = 1" "waker_index (futs s ! i) = Some k"
    unfolding queue_holds_def by blast
  let ?l = "snd (pop_front (wake_list s))"
  let ?s = "s\<lparr>cells := (cells s)(i := 0), wake_list := ?l, woken := woken s @ [i]\<rparr>"
  note one = inner_notify_item [OF struct_wl_ok [OF s] Cons [unfolded kv]]
  have r: "slots_list ?l = rest" "slots_ok ?l" using one(2,3) by (simp_all add: wl_ok_def)
  have d: "distinct (map fst (waiting_items s))" using q by (simp add: queue_holds_def slots_keys_distinct)
  have m: "x \<in> set rest \<longleftrightarrow> x \<in> set (waiting_items s) \<and> x \<noteq> (k, item)" for x
    using d by (auto simp: Cons kv image_iff)
  have "(k', item') \<in> set rest \<longleftrightarrow> (\<exists>j < length (futs s). item' = \<lparr>li_wake = j, li_cell = j\<rparr> \<and> enqueue (futs s ! j) \<and>
      ((cells s)(i := 0)) j = 1 \<and> waker_index (futs s ! j) = Some k')" for k' item'
    using q i unfolding m queue_holds_def by (cases "li_cell item' = i") auto
  then have "queue_holds ?s" using q r by (simp add: queue_holds_def)
  with s i have "struct_ok ?s" by (auto simp: struct_ok_def fut_ok_def)
  with one(1) [of 0 One False] i r show ?thesis
    by (intro woke [of i ?l]) (simp_all add: inner_notify_one_def Cons del: inner_notify.simps)
qed
lemma add_permits_one:
  assumes "pcount (permits s) < 2 ^ 63 - 1"
  shows "add_permits 1 s = s\<lparr>permits := permits s + 2\<rparr>"
proof -
  have "drop_bit PERMIT_SHIFT (permits s) < MAX_PERMITS"
    using assms by (simp add: word_less_nat_alt pcount_drop unat_MAX_PERMITS)
  then show ?thesis by (simp add: add_permits_def Let_def)
qed

lemma add_permits_frame [simp]:
  "futs (add_permits n s) = futs s" "held (add_permits n s) = held s" "total (add_permits n s) = total s"
  "wake_list (add_permits n s) = wake_list s" "cells (add_permits n s) = cells s" "woken (add_permits n s) = woken s"
  "struct_ok (add_permits n s) = struct_ok s"
  by (simp_all add: add_permits_def sem_panic_def Let_def)

lemma closed_add_permits [simp]: "is_closed (add_permits 1 s) = is_closed s"
  by (simp add: is_closed_def add_permits_def sem_panic_def Let_def closed_add)

lemma unlock_frame [simp]:
  "futs (unlock s) = futs s" "held (unlock s) = held s" "total (unlock s) = total s"
  "permits (unlock s) = permits s" "sem_panicked (unlock s) = sem_panicked s" "is_closed (unlock s) = is_closed s"
  "avail (unlock s) = avail s" "attended (unlock s) = attended s"
  by (simp_all add: unlock_def is_closed_def avail_def attended_def)

lemma avail_permits: "avail (s\<lparr>permits := w\<rparr>) + pcount (permits s) = avail s + pcount w"
  by (simp add: avail_def)

lemma avail_grant:
  assumes "i < length (futs s)" "enqueue (futs s ! i)" "cells s i = 1"
  shows "avail (s\<lparr>cells := (cells s)(i := 0), wake_list := l, woken := w\<rparr>) = Suc (avail s)"
  using assms sum_fun_upd [of i "length (futs s)" "\<lambda>j c. owed c (futs s ! j)" "cells s" 0]
  by (simp add: avail_def owed_def)

lemma release_facts:
  assumes s: "struct_ok s"
  shows "struct_ok (release s) \<and> futs (release s) = futs s \<and> held (release s) = held s \<and> total (release s) = total s \<and>
    is_closed (release s) = is_closed s \<and> waiting_items (release s) = tl (waiting_items s) \<and>
    (waiting_items s \<noteq> [] \<longrightarrow> permits (release s) = permits s) \<and>
    (pcount (permits s) < 2 ^ 63 - 1 \<longrightarrow> sem_panicked (release s) = sem_panicked s \<and> avail (release s) = Suc (avail s))"
  using s
proof (cases rule: notify_one_cases)
  case none
  have "avail (s\<lparr>permits := permits s + 2\<rparr>) = Suc (avail s)" if "pcount (permits s) < 2 ^ 63 - 1"
    using avail_permits [where s = s and w = "permits s + 2"] pcount_add [OF that] by simp
  then show ?thesis using s none by (simp add: release_def add_permits_one)
next
  case (woke i l)
  then show ?thesis using s avail_grant [of i s] by (simp add: release_def is_closed_def)
qed

text \<open>Sums under a change of one future.\<close>

lemma sum_active_upd:
  assumes "i < length (futs s)"
  shows "(\<Sum>j<length (futs s). active ((futs s)[i := f] ! j)) + active (futs s ! i) =
    (\<Sum>j<length (futs s). active (futs s ! j)) + active f"
  using sum_list_upd [OF assms, of "\<lambda>f _. active f" f] by simp

lemma avail_set_fut:
  assumes "i < length (futs s)"
  shows "avail (s\<lparr>futs := (futs s)[i := f]\<rparr>) + owed (cells s i) (futs s ! i) = avail s + owed (cells s i) f"
  using sum_list_upd [OF assms, of "\<lambda>f j. owed (cells s j) f" f] by (simp add: avail_def)

lemma live_set_fut:
  assumes l: "live_ok s" and i: "i < length (futs s)"
    and o: "\<not> is_closed s \<Longrightarrow> owed (cells s i) f + h = owed (cells s i) (futs s ! i) + held s"
    and a: "\<not> is_closed s \<Longrightarrow> 0 < pcount (permits s) \<Longrightarrow> active (futs s ! i) \<le> active f"
    and c: "\<And>c. \<not> is_closed s \<Longrightarrow> fpc f = FLoop c \<Longrightarrow> \<not> is_closed_word c"
  shows "live_ok (s\<lparr>futs := (futs s)[i := f], held := h\<rparr>)"
proof -
  let ?t = "s\<lparr>futs := (futs s)[i := f], held := h\<rparr>"
  have e: "is_closed ?t = is_closed s" "sem_panicked ?t = sem_panicked s" "total ?t = total s" "held ?t = h"
    "permits ?t = permits s" "waiting_items ?t = waiting_items s" by (simp_all add: is_closed_def)
  have av: "avail ?t = avail (s\<lparr>futs := (futs s)[i := f]\<rparr>)" by (simp add: avail_def)
  show ?thesis unfolding live_ok_def e
  proof (intro impI conjI)
    assume o': "\<not> is_closed s"
    with l have s: "\<not> sem_panicked s" "avail s + held s = total s" "attended s" "fresh_loops (futs s)"
      by (simp_all add: live_ok_def)
    show "fresh_loops (futs ?t)"
      using s(4) c [OF o'] set_update_subset_insert [of "futs s" i f] by (auto simp: fresh_loops_def)
    show "\<not> sem_panicked s" by (rule s)
    show "avail ?t + h = total s"
      unfolding av using avail_set_fut [OF i, of f] o [OF o'] s(2) by linarith
    show "attended ?t"
      unfolding attended_def e using sum_active_upd [OF i, of f] a [OF o'] s(3) by (fastforce simp: attended_def)
  qed
qed

lemma sem_invI: "struct_ok s \<Longrightarrow> live_ok s \<Longrightarrow> total s \<le> 2 ^ 63 - 1 \<Longrightarrow> sem_inv s"
  by (simp add: sem_inv_def)

lemma sem_inv_fut: "sem_inv s \<Longrightarrow> i < length (futs s) \<Longrightarrow> fut_ok (cells s i) (futs s ! i)"
  by (simp add: sem_inv_def struct_ok_def)

lemma sem_inv_set_fut:
  assumes s: "sem_inv s" and i: "i < length (futs s)" and f: "fut_ok (cells s i) f"
    and w: "waker_index f = waker_index (futs s ! i)" "cells s i = 1 \<longrightarrow> enqueue f = enqueue (futs s ! i)"
    and o: "\<not> is_closed s \<Longrightarrow> owed (cells s i) f + h = owed (cells s i) (futs s ! i) + held s"
    and a: "\<not> is_closed s \<Longrightarrow> 0 < pcount (permits s) \<Longrightarrow> active (futs s ! i) \<le> active f"
    and c: "\<And>c. \<not> is_closed s \<Longrightarrow> fpc f = FLoop c \<Longrightarrow> \<not> is_closed_word c"
  shows "sem_inv (s\<lparr>futs := (futs s)[i := f], held := h\<rparr>)"
proof (rule sem_invI)
  have st: "struct_ok s" and lv: "live_ok s" and tt: "total s \<le> 2 ^ 63 - 1" using s by (simp_all only: sem_inv_def)
  have "struct_ok (s\<lparr>futs := (futs s)[i := f]\<rparr>)" by (rule struct_set_fut [OF st i f w])
  then show "struct_ok (s\<lparr>futs := (futs s)[i := f], held := h\<rparr>)" by simp
  show "live_ok (s\<lparr>futs := (futs s)[i := f], held := h\<rparr>)" by (rule live_set_fut [OF lv i o a c])
  show "total (s\<lparr>futs := (futs s)[i := f], held := h\<rparr>) \<le> 2 ^ 63 - 1" using tt by simp
qed

lemma sem_inv_set_pc:
  assumes s: "sem_inv s" and i: "i < length (futs s)" and f: "fut_ok (cells s i) ((futs s ! i)\<lparr>fpc := pc\<rparr>)"
    and r: "fpc (futs s ! i) \<noteq> FRelease" "pc \<noteq> FRelease"
    and a: "\<not> is_closed s \<Longrightarrow> 0 < pcount (permits s) \<Longrightarrow>
      active (futs s ! i) \<le> active ((futs s ! i)\<lparr>fpc := pc\<rparr>)"
    and c: "\<And>c. \<not> is_closed s \<Longrightarrow> pc = FLoop c \<Longrightarrow> \<not> is_closed_word c"
  shows "sem_inv (set_pc i pc s)"
proof -
  have "sem_inv (s\<lparr>futs := (futs s)[i := (futs s ! i)\<lparr>fpc := pc\<rparr>], held := held s\<rparr>)"
    by (rule sem_inv_set_fut [OF s i f]) (use r a c in \<open>simp_all add: owed_def\<close>)
  then show ?thesis by (simp add: set_pc_def)
qed

lemma acquire_inv:
  assumes s: "sem_inv s" and n: "length (futs s) + 1 < NULL"
  shows "sem_inv (snd (acquire s))"
proof -
  let ?n = "length (futs s)" and ?t = "snd (acquire s)"
  have nth: "futs ?t ! i = (if i < ?n then futs s ! i else permit_new)" if "i < Suc ?n" for i
    using that by (auto simp: acquire_def Let_def nth_append)
  have card: "{i. i < Suc ?n \<and> waker_index (futs ?t ! i) \<noteq> None} = {i. i < ?n \<and> waker_index (futs s ! i) \<noteq> None}"
    by (auto simp: nth permit_new_def less_Suc_eq)
  have q: "(\<exists>i < Suc ?n. item = \<lparr>li_wake = i, li_cell = i\<rparr> \<and> enqueue (futs ?t ! i) \<and> cells ?t i = 1 \<and>
      waker_index (futs ?t ! i) = Some k) \<longleftrightarrow>
      (\<exists>i < ?n. item = \<lparr>li_wake = i, li_cell = i\<rparr> \<and> enqueue (futs s ! i) \<and> cells s i = 1 \<and>
      waker_index (futs s ! i) = Some k)" for item k
    by (auto simp: nth permit_new_def less_Suc_eq) (auto simp: acquire_def Let_def)
  have l: "length (futs ?t) = Suc ?n" "wake_list ?t = wake_list s" "woken ?t = woken s"
      "permits ?t = permits s" "held ?t = held s" "total ?t = total s" "sem_panicked ?t = sem_panicked s"
      "cells ?t = (cells s)(?n := 1)"
    by (simp_all add: acquire_def Let_def)
  have "queue_holds ?t" using s unfolding queue_holds_def l(1,2) card q by (simp add: sem_inv_def struct_ok_def queue_holds_def)
  moreover have "fut_ok (cells ?t i) (futs ?t ! i)" if "i < Suc ?n" for i
    using that sem_inv_fut [OF s, of i] by (auto simp: nth l(8) fut_ok_def permit_new_def)
  ultimately have st: "struct_ok ?t"
    using s n by (auto simp: struct_ok_def sem_inv_def l(1,3,8))
  have "(\<Sum>i<Suc ?n. owed (cells ?t i) (futs ?t ! i)) = (\<Sum>i<?n. owed (cells s i) (futs s ! i))"
    "(\<Sum>i<Suc ?n. active (futs ?t ! i)) = (\<Sum>i<?n. active (futs s ! i))"
    by (simp_all add: nth l(8) owed_def active_def permit_new_def)
  moreover have "fresh_loops (futs ?t) = fresh_loops (futs s)"
    by (simp add: acquire_def Let_def fresh_loops_def permit_new_def)
  ultimately have "live_ok ?t"
    using s by (simp add: sem_inv_def live_ok_def avail_def attended_def is_closed_def l del: sum.lessThan_Suc)
  with st s show ?thesis by (simp add: sem_inv_def l)
qed

lemma poll_acquire_inv:
  assumes s: "sem_inv s" and i: "i < length (futs s)" and p: "fpc (futs s ! i) = FIdle"
    and w: "enqueue (futs s ! i) \<longrightarrow> i \<in> set (woken s)"
  shows "sem_inv (poll_acquire i s)"
proof -
  let ?f = "futs s ! i"
  have f: "fut_ok (cells s i) ?f" by (rule sem_inv_fut [OF s i])
  consider (closed) "is_closed s" | (granted) "\<not> is_closed s" "enqueue ?f" | (fresh) "\<not> is_closed s" "\<not> enqueue ?f" by blast
  then show ?thesis
  proof cases
    case closed
    then show ?thesis using sem_inv_set_pc [OF s i, of "FDone (Inl Closed)"] f p
      by (simp add: poll_acquire_def is_closed_def Let_def fut_ok_def)
  next
    case granted
    then have c: "cells s i = 0" using w s by (simp add: sem_inv_def struct_ok_def)
    have "sem_inv (s\<lparr>futs := (futs s)[i := ?f\<lparr>enqueue := False, fpc := FDone (Inr ())\<rparr>], held := held s + 1\<rparr>)"
      using f p c granted by (intro sem_inv_set_fut [OF s i]) (simp_all add: fut_ok_def owed_def active_def)
    then show ?thesis using granted i
      by (simp add: poll_acquire_def is_closed_def set_pc_def set_enqueue_def Let_def)
  next
    case fresh
    then show ?thesis using sem_inv_set_pc [OF s i, of "FLoop (permits s)"] f p
      by (auto simp: poll_acquire_def is_closed_def Let_def fut_ok_def active_def)
  qed
qed
lemma take_permit_inv:
  assumes s: "sem_inv s" and i: "i < length (futs s)" and c: "\<not> is_closed s" "2 \<le> permits s"
    and f: "fut_ok (cells s i) f" "waker_index f = waker_index (futs s ! i)" "enqueue f = enqueue (futs s ! i)"
    and o: "owed (cells s i) f + h = Suc (owed (cells s i) (futs s ! i) + held s)"
    and a: "active (futs s ! i) \<le> active f" "\<And>c. fpc f \<noteq> FLoop c"
  shows "sem_inv (s\<lparr>permits := permits s - 2, futs := (futs s)[i := f], held := h\<rparr>)"
proof -
  let ?s = "s\<lparr>permits := permits s - 2, held := Suc (held s)\<rparr>"
  note p = pcount_sub [OF c(2)]
  have live: "\<not> sem_panicked s" "avail s + held s = total s" "attended s" "fresh_loops (futs s)"
    using s c(1) by (simp_all add: sem_inv_def live_ok_def)
  have "avail ?s + pcount (permits s) = avail s + pcount (permits s - 2)" by (simp add: avail_def)
  then have "avail ?s + Suc (held s) = total s" using p live(2) by linarith
  moreover have "attended ?s" using live(3) p by (simp add: attended_def)
  ultimately have "live_ok ?s" using live by (simp add: live_ok_def)
  then have "sem_inv ?s" using s by (simp add: sem_inv_def)
  moreover have "\<not> is_closed ?s" using c(1) p by (simp add: is_closed_def)
  ultimately have "sem_inv (?s\<lparr>futs := (futs ?s)[i := f], held := h\<rparr>)"
    by (rule_tac sem_inv_set_fut) (use i f o a in simp_all)
  then show ?thesis by simp
qed

lemma update_permit_inv:
  assumes s: "sem_inv s" and i: "i < length (futs s)" and p: "fpc (futs s ! i) = FLoop cur"
    and c: "\<not> is_closed_word cur" "2 \<le> cur"
  shows "sem_inv (update_permit i cur s)"
proof (cases "permits s = cur")
  case True
  let ?f = "futs s ! i"
  note f = sem_inv_fut [OF s i]
  have c': "\<not> is_closed s" "2 \<le> permits s" using c True by (simp_all add: is_closed_def)
  show ?thesis
  proof (cases "enqueue ?f")
    case enq: True
    have "sem_inv (s\<lparr>permits := permits s - 2, futs := (futs s)[i := ?f\<lparr>fpc := FRelease\<rparr>], held := held s\<rparr>)"
      by (rule take_permit_inv [OF s i c']) (use f p enq in \<open>auto simp: fut_ok_def owed_def active_def\<close>)
    then show ?thesis using enq True by (simp add: update_permit_def set_pc_def)
  next
    case False
    have "sem_inv (s\<lparr>permits := permits s - 2, futs := (futs s)[i := ?f\<lparr>fpc := FDone (Inr ())\<rparr>], held := Suc (held s)\<rparr>)"
      by (rule take_permit_inv [OF s i c']) (use f p False in \<open>auto simp: fut_ok_def owed_def active_def\<close>)
    then show ?thesis using False True by (simp add: update_permit_def set_pc_def)
  qed
next
  case False
  have "sem_inv (set_pc i (FLoop (permits s)) s)"
  proof (rule sem_inv_set_pc [OF s i])
    show "fut_ok (cells s i) ((futs s ! i)\<lparr>fpc := FLoop (permits s)\<rparr>)"
      using sem_inv_fut [OF s i] p by (simp add: fut_ok_def)
    show "active (futs s ! i) \<le> active ((futs s ! i)\<lparr>fpc := FLoop (permits s)\<rparr>)" if "0 < pcount (permits s)"
      using that pcount_zero [of "permits s"] by (auto simp: active_def p)
  qed (use p in \<open>simp_all add: is_closed_def\<close>)
  with False show ?thesis by (simp add: update_permit_def)
qed

lemma insert_inv:
  assumes s: "sem_inv s" and i: "i < length (futs s)" and p: "fpc (futs s ! i) = FLoop cur" "\<not> enqueue (futs s ! i)"
  defines "r \<equiv> wl_insert \<lparr>li_wake = i, li_cell = i\<rparr> s"
  shows "sem_inv ((snd r)\<lparr>futs := (futs (snd r))[i := \<lparr>waker_index = Some (fst r), enqueue = True, fpc = FReload\<rparr>]\<rparr>)"
    (is "sem_inv ?t")
proof -
  let ?item = "\<lparr>li_wake = i, li_cell = i\<rparr>" and ?n = "length (futs s)"
  let ?f = "\<lparr>waker_index = Some (fst r), enqueue = True, fpc = FReload\<rparr>"
  note f = sem_inv_fut [OF s i]
  have wi: "waker_index (futs s ! i) = None" and ci: "cells s i = 1"
    using f p by (auto simp: fut_ok_def)
  have st: "struct_ok s" and q: "queue_holds s" and n: "?n < NULL" using s by (simp_all add: sem_inv_def struct_ok_def)
  let ?W = "{j. j < ?n \<and> waker_index (futs s ! j) \<noteq> None}"
  have fin: "finite ?W" "i \<notin> ?W" using wi by simp_all
  have "?W \<subseteq> {..<?n}" by auto
  then have "card ?W \<le> ?n" using card_mono [of "{..<?n}" ?W] by simp
  then have room: "length (entries (wake_list s)) < NULL" using q n by (simp add: queue_holds_def)
  have so: "slots_ok (wake_list s)" using q by (simp add: queue_holds_def)
  note push = push_back_room [OF so room, of ?item]
  have l: "wake_list ?t = snd (push_back ?item (wake_list s))" "fst r = fst (push_back ?item (wake_list s))"
    "futs ?t = (futs s)[i := ?f]" "cells ?t = cells s" "woken ?t = woken s" "permits ?t = permits s"
    "held ?t = held s" "total ?t = total s" "sem_panicked ?t = sem_panicked s"
    by (simp_all add: r_def wl_insert_def split_beta)
  have W: "{j. j < ?n \<and> waker_index ((futs s)[i := ?f] ! j) \<noteq> None} = insert i ?W"
    using i by (auto simp: nth_list_update)
  have items: "set (waiting_items ?t) = insert (fst r, ?item) (set (waiting_items s))"
    unfolding l(1) unfolding l(2) using push by simp
  have qq: "(k, item) \<in> set (waiting_items s) \<longleftrightarrow> (\<exists>j < ?n. item = \<lparr>li_wake = j, li_cell = j\<rparr> \<and>
      enqueue (futs s ! j) \<and> cells s j = 1 \<and> waker_index (futs s ! j) = Some k)" for k item
    using q unfolding queue_holds_def by blast
  have Q: "(k, item) \<in> set (waiting_items ?t) \<longleftrightarrow> (\<exists>j < ?n. item = \<lparr>li_wake = j, li_cell = j\<rparr> \<and>
      enqueue ((futs s)[i := ?f] ! j) \<and> cells s j = 1 \<and> waker_index ((futs s)[i := ?f] ! j) = Some k)" for k item
  proof (cases "li_cell item = i")
    case True
    then have "(k, item) \<notin> set (waiting_items s)" using p(2) unfolding qq by auto
    then show ?thesis unfolding items using True i ci by (auto simp: nth_list_update)
  next
    case False
    then have "(k, item) \<in> set (waiting_items ?t) \<longleftrightarrow> (k, item) \<in> set (waiting_items s)" unfolding items by auto
    then show ?thesis unfolding qq using False by (auto simp: nth_list_update)
  qed
  have "length (entries (wake_list ?t)) \<le> card (insert i ?W)"
    unfolding l(1) using q push_back_entries [of ?item "wake_list s"] fin by (simp add: queue_holds_def)
  then have "queue_holds ?t" using push Q unfolding queue_holds_def l(1,3,4) length_list_update W by blast
  moreover have "fut_ok (cells s j) ((futs s)[i := ?f] ! j)" if "j < ?n" for j
  proof (cases "j = i")
    case True
    then show ?thesis using i by (simp add: fut_ok_def ci)
  qed (simp add: sem_inv_fut [OF s that])
  ultimately have "struct_ok ?t" using st n unfolding struct_ok_def l(3-5) by simp
  moreover have "live_ok ?t"
  proof -
    have "active ?f = 1" "active (futs s ! i) = 0" "owed (cells s i) ?f = owed (cells s i) (futs s ! i)"
      using p ci by (simp_all add: active_def owed_def)
    with sum_active_upd [OF i, of ?f] avail_set_fut [OF i, of ?f]
    have "(\<Sum>j<?n. active (futs ?t ! j)) = Suc (\<Sum>j<?n. active (futs s ! j))" "avail ?t = avail s"
      unfolding avail_def l(3-6) by simp_all
    moreover have "fresh_loops (futs s) \<Longrightarrow> fresh_loops (futs ?t)"
      using set_update_subset_insert [of "futs s" i ?f] unfolding l(3) by (auto simp: fresh_loops_def)
    moreover have "length (waiting_items ?t) = Suc (length (waiting_items s))" unfolding l(1) using push by simp
    ultimately show ?thesis
      using s unfolding live_ok_def attended_def is_closed_def l(6-9)
      by (simp add: sem_inv_def live_ok_def attended_def is_closed_def l(3))
  qed
  ultimately show ?thesis using s unfolding sem_inv_def l(8) by simp
qed

lemma poll_acquire_loop_inv:
  assumes s: "sem_inv s" and i: "i < length (futs s)" and p: "fpc (futs s ! i) = FLoop cur"
  shows "sem_inv (poll_acquire_loop i cur s)"
proof -
  note f = sem_inv_fut [OF s i]
  consider (closed) "is_closed_word cur" | (take) "\<not> is_closed_word cur" "2 \<le> cur"
    | (ins) "\<not> is_closed_word cur" "\<not> 2 \<le> cur" "\<not> enqueue (futs s ! i)"
    | (wait) "\<not> is_closed_word cur" "\<not> 2 \<le> cur" "enqueue (futs s ! i)" by blast
  then show ?thesis
  proof cases
    case closed
    have "is_closed s"
    proof (rule ccontr)
      assume "\<not> is_closed s"
      with s have "fresh_loops (futs s)" by (simp add: sem_inv_def live_ok_def)
      with closed p nth_mem [OF i] show False by (auto simp: fresh_loops_def)
    qed
    then have "sem_inv (set_pc i (FDone (Inl Closed)) s)"
      using f p by (intro sem_inv_set_pc [OF s i]) (auto simp: fut_ok_def)
    with closed show ?thesis by (simp add: poll_acquire_loop_def)
  next
    case take
    with update_permit_inv [OF s i p] show ?thesis by (simp add: poll_acquire_loop_def)
  next
    case ins
    with insert_inv [OF s i p] show ?thesis by (simp add: poll_acquire_loop_def split_beta)
  next
    case wait
    have "sem_inv (set_pc i FIdle s)"
      using f p wait by (intro sem_inv_set_pc [OF s i]) (auto simp: fut_ok_def active_def)
    with wait show ?thesis by (simp add: poll_acquire_loop_def)
  qed
qed

lemma reload_inv:
  assumes s: "sem_inv s" and i: "i < length (futs s)" and p: "fpc (futs s ! i) = FReload"
  shows "sem_inv (set_pc i (FLoop (permits s)) s)"
proof (rule sem_inv_set_pc [OF s i])
  show "fut_ok (cells s i) ((futs s ! i)\<lparr>fpc := FLoop (permits s)\<rparr>)"
    using sem_inv_fut [OF s i] p by (simp add: fut_ok_def)
  show "active (futs s ! i) \<le> active ((futs s ! i)\<lparr>fpc := FLoop (permits s)\<rparr>)" if "0 < pcount (permits s)"
    using that pcount_zero [of "permits s"] by (auto simp: active_def p)
qed (use p in \<open>simp_all add: is_closed_def\<close>)

text \<open>
  Giving back a permit: the permit is missing from the books of \<open>s\<close> by one, and the
  list may be one longer than the futures that look after it.
\<close>

lemma release_inv:
  assumes st: "struct_ok s" and t: "total s \<le> 2 ^ 63 - 1"
    and live: "\<not> is_closed s \<Longrightarrow> \<not> sem_panicked s \<and> Suc (avail s + held s) = total s \<and> fresh_loops (futs s) \<and>
      (0 < pcount (permits s) \<longrightarrow> length (waiting_items s) \<le> Suc (\<Sum>i<length (futs s). active (futs s ! i)))"
  shows "sem_inv (release s)"
proof -
  note r = release_facts [OF st]
  have "live_ok (release s)"
    unfolding live_ok_def
  proof (intro impI)
    assume "\<not> is_closed (release s)"
    with r have o: "\<not> is_closed s" by simp
    note l = live [OF o]
    have "pcount (permits s) \<le> avail s" by (simp add: avail_def)
    with l t have "pcount (permits s) < 2 ^ 63 - 1" by linarith
    with r have e: "sem_panicked (release s) = sem_panicked s" "avail (release s) = Suc (avail s)" by simp_all
    have "attended (release s)"
      using r l by (cases "waiting_items s = []") (auto simp: attended_def)
    with e r l show "\<not> sem_panicked (release s) \<and> avail (release s) + held (release s) = total (release s) \<and>
        attended (release s) \<and> fresh_loops (futs (release s))" by simp
  qed
  with r t show ?thesis by (simp add: sem_inv_def)
qed

lemma release_held_inv: "sem_inv s \<Longrightarrow> 0 < held s \<Longrightarrow> sem_inv (release (s\<lparr>held := held s - 1\<rparr>))"
  by (rule release_inv) (auto simp: sem_inv_def live_ok_def attended_def is_closed_def avail_def)

lemma release_extra_inv: "sem_inv s \<Longrightarrow> total s < 2 ^ 63 - 1 \<Longrightarrow> sem_inv (release (s\<lparr>total := total s + 1\<rparr>))"
  by (rule release_inv) (auto simp: sem_inv_def live_ok_def attended_def is_closed_def avail_def)

text \<open>The bookkeeping when a future that owes a permit stops owing it.\<close>

lemma release_fut_inv:
  assumes s: "sem_inv s" and i: "i < length (futs s)" and f: "fut_ok (cells s i) f"
    and w: "waker_index f = waker_index (futs s ! i)" "cells s i = 1 \<longrightarrow> enqueue f = enqueue (futs s ! i)"
    and o: "owed (cells s i) (futs s ! i) = Suc (owed (cells s i) f)" and c: "\<And>c. fpc f \<noteq> FLoop c"
    and a: "active (futs s ! i) \<le> Suc (active f)"
  shows "sem_inv (release (s\<lparr>futs := (futs s)[i := f]\<rparr>))"
proof (rule release_inv)
  let ?t = "s\<lparr>futs := (futs s)[i := f]\<rparr>"
  have st: "struct_ok s" and lv: "live_ok s" using s by (simp_all add: sem_inv_def)
  show "struct_ok ?t" by (rule struct_set_fut [OF st i f w])
  show "total ?t \<le> 2 ^ 63 - 1" using s by (simp add: sem_inv_def)
  assume "\<not> is_closed ?t"
  then have l: "\<not> sem_panicked s" "avail s + held s = total s" "attended s" "fresh_loops (futs s)"
    using lv by (simp_all add: live_ok_def is_closed_def)
  have "Suc (avail ?t) = avail s" using avail_set_fut [OF i, of f] o by simp
  moreover have "fresh_loops (futs ?t)"
    using l(4) c set_update_subset_insert [of "futs s" i f] by (auto simp: fresh_loops_def)
  moreover have "length (waiting_items ?t) \<le> Suc (\<Sum>j<length (futs ?t). active (futs ?t ! j))"
    if "0 < pcount (permits ?t)"
    using that l(3) sum_active_upd [OF i, of f] a by (simp add: attended_def)
  ultimately show "\<not> sem_panicked ?t \<and> Suc (avail ?t + held ?t) = total ?t \<and> fresh_loops (futs ?t) \<and>
      (0 < pcount (permits ?t) \<longrightarrow> length (waiting_items ?t) \<le> Suc (\<Sum>i<length (futs ?t). active (futs ?t ! i)))"
    using l(1,2) by simp
qed
lemma release_futs: "release (s\<lparr>futs := F\<rparr>) = (release s)\<lparr>futs := F\<rparr>"
  by (simp add: release_def inner_notify_one_def add_permits_def sem_panic_def unlock_def Let_def
      split: option.split prod.split)

lemma frelease_inv:
  assumes s: "sem_inv s" and i: "i < length (futs s)" and p: "fpc (futs s ! i) = FRelease"
  shows "sem_inv (set_pc i FIdle (release s))"
proof -
  have st: "struct_ok s" using s by (simp add: sem_inv_def)
  have "sem_inv (release (s\<lparr>futs := (futs s)[i := (futs s ! i)\<lparr>fpc := FIdle\<rparr>]\<rparr>))"
    using sem_inv_fut [OF s i] p
    by (intro release_fut_inv [OF s i]) (simp_all add: fut_ok_def owed_def active_def)
  then show ?thesis using release_facts [OF st] by (simp add: release_futs set_pc_def)
qed

text \<open>A waiting future that was not granted a permit leaves the list when it is dropped.\<close>

lemma drop_waiting_inv:
  assumes s: "sem_inv s" and i: "i < length (futs s)" and e: "enqueue (futs s ! i)" "cells s i = 1"
    and k: "waker_index (futs s ! i) = Some k" and p: "active (futs s ! i) = 0" "fpc (futs s ! i) \<noteq> FRelease"
  shows "sem_inv (s\<lparr>futs := (futs s)[i := (futs s ! i)\<lparr>fpc := FDropped, enqueue := False\<rparr>],
     wake_list := snd (remove_key k (wake_list s))\<rparr>)" (is "sem_inv ?t")
proof -
  let ?f = "(futs s ! i)\<lparr>fpc := FDropped, enqueue := False\<rparr>" and ?n = "length (futs s)"
  have q: "queue_holds s" and st: "struct_ok s" and lv: "live_ok s" using s by (simp_all add: sem_inv_def struct_ok_def)
  have so: "slots_ok (wake_list s)" using q by (simp add: queue_holds_def)
  note rm = remove_key_refines [OF so, of k]
  have l: "futs ?t = (futs s)[i := ?f]" "wake_list ?t = snd (remove_key k (wake_list s))" "cells ?t = cells s"
    "woken ?t = woken s" "permits ?t = permits s" "held ?t = held s" "total ?t = total s" "sem_panicked ?t = sem_panicked s"
    by simp_all
  have W: "waker_index ((futs s)[i := ?f] ! j) = waker_index (futs s ! j)" for j
    using i by (cases "j = i") simp_all
  have qq: "(k, item) \<in> set (waiting_items s) \<longleftrightarrow> (\<exists>j < ?n. item = \<lparr>li_wake = j, li_cell = j\<rparr> \<and>
      enqueue (futs s ! j) \<and> cells s j = 1 \<and> waker_index (futs s ! j) = Some k)" for k item
    using q unfolding queue_holds_def by blast
  have d: "distinct (map fst (waiting_items s))" by (rule slots_keys_distinct [OF so])
  have mem: "(k, \<lparr>li_wake = i, li_cell = i\<rparr>) \<in> set (waiting_items s)" unfolding qq using i e k by auto
  have Q: "(k', item) \<in> set (waiting_items ?t) \<longleftrightarrow> (\<exists>j < ?n. item = \<lparr>li_wake = j, li_cell = j\<rparr> \<and>
      enqueue ((futs s)[i := ?f] ! j) \<and> cells s j = 1 \<and> waker_index ((futs s)[i := ?f] ! j) = Some k')" for k' item
  proof -
    have "(k', item) \<in> set (waiting_items ?t) \<longleftrightarrow> (k', item) \<in> set (waiting_items s) \<and> k' \<noteq> k"
      unfolding l(2) rm(2) by auto
    also have "\<dots> \<longleftrightarrow> (k', item) \<in> set (waiting_items s) \<and> li_cell item \<noteq> i"
    proof (cases "(k', item) \<in> set (waiting_items s)")
      case True
      then have "k' = k \<longleftrightarrow> item = \<lparr>li_wake = i, li_cell = i\<rparr>"
        using k eq_key_imp_eq_value [OF d mem, of item] unfolding qq by auto
      moreover have "item = \<lparr>li_wake = i, li_cell = i\<rparr> \<longleftrightarrow> li_cell item = i" using True unfolding qq by auto
      ultimately show ?thesis by simp
    qed simp
    also have "\<dots> \<longleftrightarrow> (\<exists>j < ?n. item = \<lparr>li_wake = j, li_cell = j\<rparr> \<and>
      enqueue ((futs s)[i := ?f] ! j) \<and> cells s j = 1 \<and> waker_index ((futs s)[i := ?f] ! j) = Some k')"
      unfolding qq W using i by (auto simp: nth_list_update)
    finally show ?thesis .
  qed
  have "queue_holds ?t"
    using rm(1) Q q unfolding queue_holds_def l(1-3) length_list_update W remove_key_entries by blast
  moreover have "fut_ok (cells s j) ((futs s)[i := ?f] ! j)" if "j < ?n" for j
  proof (cases "j = i")
    case True
    then show ?thesis using i k e by (simp add: fut_ok_def)
  qed (simp add: sem_inv_fut [OF s that])
  ultimately have "struct_ok ?t" using st unfolding struct_ok_def l(1,3,4) length_list_update by blast
  moreover have "live_ok ?t"
  proof -
    have "(\<Sum>j<?n. active (futs ?t ! j)) = (\<Sum>j<?n. active (futs s ! j))" "avail ?t = avail s"
      using sum_active_upd [OF i, of ?f] avail_set_fut [OF i, of ?f] p e
      by (simp_all add: avail_def active_def owed_def)
    moreover have "fresh_loops (futs s) \<Longrightarrow> fresh_loops (futs ?t)"
      using set_update_subset_insert [of "futs s" i ?f] unfolding l(1) by (auto simp: fresh_loops_def)
    moreover have "length (waiting_items ?t) \<le> length (waiting_items s)" unfolding l(2) rm(2) by simp
    ultimately show ?thesis
      using lv unfolding live_ok_def attended_def is_closed_def l(5-8) by (auto simp: l(1))
  qed
  ultimately show ?thesis using s unfolding sem_inv_def l(7) by simp
qed
lemma permit_drop_inv:
  assumes s: "sem_inv s" and i: "i < length (futs s)"
    and p: "case fpc (futs s ! i) of FIdle \<Rightarrow> True | FDone _ \<Rightarrow> True | _ \<Rightarrow> False"
  shows "sem_inv (permit_drop i s)"
proof -
  let ?f = "futs s ! i"
  note f = sem_inv_fut [OF s i]
  have a: "active ?f = 0" "fpc ?f \<noteq> FRelease" using p by (auto simp: active_def split: fut_pc.splits)
  have so: "slots_ok (wake_list s)" using s by (simp add: sem_inv_def struct_ok_def queue_holds_def)
  consider (quiet) "\<not> enqueue ?f" | (waiting) k where "enqueue ?f" "cells s i = 1" "waker_index ?f = Some k"
    | (granted) k where "enqueue ?f" "cells s i = 0" "waker_index ?f = Some k"
    using f by (auto simp: fut_ok_def le_Suc_eq)
  then show ?thesis
  proof cases
    case quiet
    have "sem_inv (set_pc i FDropped s)"
      using f a quiet by (intro sem_inv_set_pc [OF s i]) (auto simp: fut_ok_def split: fut_pc.splits)
    with quiet show ?thesis by (simp add: permit_drop_def Let_def)
  next
    case waiting
    have "get_by_index k (wake_list s) = Some \<lparr>li_wake = i, li_cell = i\<rparr>"
      using s waiting i slots_keys_distinct [OF so]
      by (auto simp: get_by_index_map [OF so] sem_inv_def struct_ok_def queue_holds_def intro!: map_of_is_SomeI)
    then have "permit_drop i s = unlock (s\<lparr>futs := (futs s)[i := ?f\<lparr>fpc := FDropped, enqueue := False\<rparr>],
       wake_list := snd (remove_key k (wake_list s))\<rparr>)"
      using waiting i by (simp add: permit_drop_def remove_permit_def set_pc_def set_enqueue_def Let_def)
    with drop_waiting_inv [OF s i waiting a] show ?thesis by (simp add: sem_inv_def live_ok_def)
  next
    case granted
    have no: "cells s (li_cell item) \<noteq> 0" if "get_by_index k (wake_list s) = Some item" for item
    proof -
      have "(k, item) \<in> set (waiting_items s)" using that map_of_SomeD by (fastforce simp: get_by_index_map [OF so])
      with s show ?thesis by (auto simp: sem_inv_def struct_ok_def queue_holds_def)
    qed
    have "permit_drop i s = release (s\<lparr>futs := (futs s)[i := ?f\<lparr>fpc := FDropped, enqueue := False\<rparr>]\<rparr>)"
      using granted i no
      by (auto simp: permit_drop_def remove_permit_def set_pc_def set_enqueue_def release_def Let_def sem_panic_def
          split: option.splits bool.splits prod.splits)
    moreover have "sem_inv (release (s\<lparr>futs := (futs s)[i := ?f\<lparr>fpc := FDropped, enqueue := False\<rparr>]\<rparr>))"
      using f granted a by (intro release_fut_inv [OF s i]) (simp_all add: fut_ok_def owed_def)
    ultimately show ?thesis by simp
  qed
qed

lemma try_acquire_inv: "sem_inv s \<Longrightarrow> sem_inv (snd (try_acquire s))"
proof -
  assume s: "sem_inv s"
  show ?thesis
  proof (cases "is_closed s \<or> permits s = 0")
    case True
    then have "\<exists>e. atomically try_acquire_try (permits s) = (Inl e, permits s)"
      by (cases "is_closed s") (simp_all add: try_acquire_try_def atomically_def is_closed_def)
    then show ?thesis using s by (auto simp: try_acquire_def)
  next
    case False
    then have c: "\<not> is_closed s" "2 \<le> permits s" using pcount_empty [of "permits s"] by (auto simp: is_closed_def)
    note p = pcount_sub [OF c(2)]
    have eq: "snd (try_acquire s) = s\<lparr>permits := permits s - 2, held := held s + 1\<rparr>"
      using False by (simp add: try_acquire_def try_acquire_try_def atomically_def is_closed_def Let_def)
    have "avail (snd (try_acquire s)) + pcount (permits s) = avail s + pcount (permits s - 2)"
      by (simp add: eq avail_def)
    then have "avail (snd (try_acquire s)) + Suc (held s) = avail s + held s" using p by linarith
    then show ?thesis using s p c(1) by (auto simp: eq sem_inv_def live_ok_def attended_def is_closed_def)
  qed
qed

lemma sem_more: "waker_list.more (s :: sem) = waker_list.more t \<Longrightarrow>
    permits s = permits t \<and> futs s = futs t \<and> held s = held t \<and> total s = total t \<and> sem_panicked s = sem_panicked t"
  by (cases s; cases t) simp

lemma sem_close_inv: "sem_inv s \<Longrightarrow> sem_inv (sem_close s) \<and> is_closed (sem_close s) \<and> waiting_items (sem_close s) = [] \<and>
    futs (sem_close s) = futs s"
proof -
  assume s: "sem_inv s"
  let ?s = "s\<lparr>permits := permits s OR SEM_CLOSED\<rparr>"
  have st: "struct_ok ?s" and st0: "struct_ok s" using s by (simp_all add: sem_inv_def)
  have len: "length (waiting_items ?s) \<le> slots_len (wake_list ?s)"
    using st by (simp add: struct_ok_def queue_holds_def slots_len_list)
  obtain t where t: "inner_notify_all ?s = Some (waiting_items ?s \<noteq> [], t)" "wl_ok t" "waiting_items t = []"
      "woken t = woken ?s @ map (li_wake \<circ> snd) (waiting_items ?s)" "waker_list.more t = waker_list.more ?s"
      "length (entries (wake_list t)) = length (entries (wake_list ?s))"
      "cells t = (\<lambda>c. if c \<in> (li_cell \<circ> snd) ` set (waiting_items ?s) then 0 else cells ?s c)"
    using inner_notify_drains [OF struct_wl_ok [OF st] len, of False]
    by (auto simp: inner_notify_all_def simp del: inner_notify.simps)
  note m = sem_more [OF t(5)]
  have q: "queue_holds s" using st0 by (simp add: struct_ok_def)
  have cell: "li_cell (snd x) < length (futs s) \<and> waker_index (futs s ! li_cell (snd x)) \<noteq> None \<and> li_wake (snd x) = li_cell (snd x)"
    if x: "x \<in> set (waiting_items s)" for x
  proof -
    obtain k item where e: "x = (k, item)" by (cases x)
    with x q obtain i where "i < length (futs s)" "item = \<lparr>li_wake = i, li_cell = i\<rparr>" "waker_index (futs s ! i) = Some k"
      unfolding queue_holds_def by blast
    then show ?thesis by (simp add: e)
  qed
  have none: "\<not> (enqueue (futs s ! i) \<and> cells t i = 1)" if i: "i < length (futs s)" for i
  proof
    assume a: "enqueue (futs s ! i) \<and> cells t i = 1"
    then have "cells s i = 1" by (auto simp: t(7) split: if_splits)
    moreover obtain k where "waker_index (futs s ! i) = Some k" using sem_inv_fut [OF s i] a by (auto simp: fut_ok_def)
    ultimately have "(k, \<lparr>li_wake = i, li_cell = i\<rparr>) \<in> set (waiting_items s)" using q a i by (auto simp: queue_holds_def)
    then have "cells t i = 0" by (force simp: t(7))
    with a show False by simp
  qed
  have "queue_holds t" using q t(2,3,6) m none by (auto simp: queue_holds_def wl_ok_def)
  moreover have "fut_ok (cells t i) (futs s ! i)" if "i < length (futs s)" for i
    using sem_inv_fut [OF s that] cell by (auto simp: t(7) fut_ok_def)
  moreover have "i < length (futs s) \<and> cells t i = 0" if "i \<in> set (woken t)" for i
    using that st0 cell by (force simp: t(4,7) struct_ok_def)
  ultimately have "struct_ok t" using st0 m by (auto simp: struct_ok_def)
  moreover have "is_closed t" using m by (simp add: is_closed_def closed_or)
  moreover have "sem_close s = unlock t" using t(1) by (simp add: sem_close_def)
  ultimately show ?thesis using s m t(3) by (simp add: sem_inv_def live_ok_def)
qed

lemma sem_step_inv: "sem_step e s = Some t \<Longrightarrow> sem_inv s \<Longrightarrow> sem_inv t"
proof (cases e)
  case AddPermit
  moreover assume "sem_step e s = Some t" "sem_inv s"
  moreover have "uint MAX_PERMITS = int (2 ^ 63 - 1)" by (simp add: MAX_PERMITS_def mask_eq_exp_minus_1)
  ultimately show ?thesis using release_extra_inv [of s] by (auto split: if_splits)
qed (auto simp: acquire_inv poll_acquire_inv poll_acquire_loop_inv reload_inv frelease_inv permit_drop_inv
      try_acquire_inv release_held_inv [unfolded One_nat_def] sem_close_inv split: if_splits fut_pc.splits)

lemma sem_reachable_inv: "sem_reachable s \<Longrightarrow> sem_inv s"
  by (induction rule: sem_reachable.induct) (auto intro: semaphore_new_inv sem_step_inv)

section \<open>Properties\<close>

lemma sem_run_reachable: "sem_run es s = Some t \<Longrightarrow> sem_reachable s \<Longrightarrow> sem_reachable t"
  by (induction es arbitrary: s) (auto split: option.splits intro: sem_stepped)

text \<open>A concrete run from a new semaphore, for the examples below.\<close>

definition sem_start :: "usize \<Rightarrow> sem_event list \<Rightarrow> sem option" where
  "sem_start n es = (case semaphore_new n of Inl _ \<Rightarrow> None | Inr s \<Rightarrow> sem_run es s)"

lemma sem_start_reachable: "sem_start n es \<noteq> None \<Longrightarrow> sem_reachable (the (sem_start n es))"
  using sem_run_reachable [OF _ sem_created [of n]] by (auto simp: sem_start_def split: sum.splits)



text \<open>
  C14: No waiter is stranded. When no poll of an acquire future is in progress, an
  open semaphore does not have free permits and waiting futures at the same
  time, and a future whose last poll answered \<open>Pending\<close> is in the list of
  waiters or holds a permit granted to it.
\<close>

theorem sem_no_stranded_waiter:
  assumes "sem_reachable s" "\<not> is_closed s"
    "\<forall>f \<in> set (futs s). (case fpc f of FIdle \<Rightarrow> True | FDone _ \<Rightarrow> True | FDropped \<Rightarrow> True | _ \<Rightarrow> False)"
  shows "(current_permits s = 0 \<or> waiting_items s = []) \<and>
    (\<forall>i < length (futs s). enqueue (futs s ! i) \<longrightarrow>
       cells s i = 0 \<or> (\<exists>k. waker_index (futs s ! i) = Some k \<and> (k, \<lparr>li_wake = i, li_cell = i\<rparr>) \<in> set (waiting_items s)))"
proof -
  have i: "sem_inv s" by (rule sem_reachable_inv [OF assms(1)])
  have "active f = 0" if "f \<in> set (futs s)" for f
    using that assms(3) by (auto simp: active_def split: fut_pc.splits)
  then have "(\<Sum>i<length (futs s). active (futs s ! i)) = 0" by simp
  then have "waiting_items s = []" if "0 < pcount (permits s)"
    using that i assms(2) by (simp add: sem_inv_def live_ok_def attended_def)
  moreover have "current_permits s = 0 \<longleftrightarrow> pcount (permits s) = 0"
    by (simp add: current_permits_def pcount_drop flip: unat_eq_zero)
  moreover have "cells s i = 0 \<or> (\<exists>k. waker_index (futs s ! i) = Some k \<and> (k, \<lparr>li_wake = i, li_cell = i\<rparr>) \<in> set (waiting_items s))"
    if "i < length (futs s)" "enqueue (futs s ! i)" for i
    using i that sem_inv_fut [OF i that(1)] by (auto simp: sem_inv_def struct_ok_def queue_holds_def fut_ok_def le_Suc_eq)
  ultimately show ?thesis by blast
qed

theorem sem_no_stranded_waiter_witness:
  "let s = the (sem_start 0 [Acquire, Poll 0, PollStep 0, PollStep 0, PollStep 0, AddPermit])
   in current_permits s = 0 \<or> waiting_items s = []"
proof -
  let ?es = "[Acquire, Poll 0, PollStep 0, PollStep 0, PollStep 0, AddPermit]"
  let ?s = "the (sem_start 0 ?es)"
  have "map_option (\<lambda>s. (is_closed s,
      list_all (\<lambda>f. case fpc f of FIdle \<Rightarrow> True | FDone _ \<Rightarrow> True | FDropped \<Rightarrow> True | _ \<Rightarrow> False) (futs s)))
      (sem_start 0 ?es) = Some (False, True)" by code_simp
  then have "sem_start 0 ?es \<noteq> None" "\<not> is_closed ?s"
    "list_all (\<lambda>f. case fpc f of FIdle \<Rightarrow> True | FDone _ \<Rightarrow> True | FDropped \<Rightarrow> True | _ \<Rightarrow> False) (futs ?s)" by auto
  with sem_no_stranded_waiter [OF sem_start_reachable [of 0 ?es]] show ?thesis by (simp add: Let_def list_all_iff)
qed

text \<open>\<open>release\<close> serves the waiters in the order in which they queued: with waiters in
  the list it grants its permit to the oldest one, calls that waker and no
  other, and leaves the number of free permits alone; without waiters it makes
  one permit free.
\<close>

theorem sem_release_fifo:
  assumes "sem_reachable s"
  shows "(\<forall>k item rest. waiting_items s = (k, item) # rest \<longrightarrow>
      woken (release s) = woken s @ [li_wake item] \<and> cells (release s) (li_cell item) = 0 \<and>
      waiting_items (release s) = rest \<and> permits (release s) = permits s) \<and>
    (waiting_items s = [] \<and> current_permits s < MAX_PERMITS \<longrightarrow>
      woken (release s) = woken s \<and> unat (current_permits (release s)) = unat (current_permits s) + 1)"
proof -
  have st: "struct_ok s" using sem_reachable_inv [OF assms] by (simp add: sem_inv_def)
  have "woken (release s) = woken s @ [li_wake item] \<and> cells (release s) (li_cell item) = 0 \<and>
      waiting_items (release s) = rest \<and> permits (release s) = permits s"
    if "waiting_items s = (k, item) # rest" for k item rest
    using inner_notify_item [OF struct_wl_ok [OF st] that]
    by (simp add: release_def inner_notify_one_def del: inner_notify.simps)
  moreover have "woken (release s) = woken s \<and> unat (current_permits (release s)) = unat (current_permits s) + 1"
    if "waiting_items s = []" "current_permits s < MAX_PERMITS"
  proof -
    have p: "pcount (permits s) < 2 ^ 63 - 1"
      using that(2) by (simp add: current_permits_def word_less_nat_alt pcount_drop unat_MAX_PERMITS)
    show ?thesis using st that(1) inner_notify_empty [of s 0 One False] pcount_add(1) [OF p]
      by (simp add: release_def inner_notify_one_def add_permits_one [OF p] current_permits_def pcount_drop
          struct_ok_def queue_holds_def del: inner_notify.simps)
  qed
  ultimately show ?thesis by blast
qed

theorem sem_release_fifo_witness:
  "let s = the (sem_start 0 [Acquire, Poll 0, PollStep 0, Acquire, Poll 1, PollStep 1])
   in woken (release s) = woken s @ [0]"
proof -
  let ?es = "[Acquire, Poll 0, PollStep 0, Acquire, Poll 1, PollStep 1]"
  let ?s = "the (sem_start 0 ?es)"
  have "map_option waiting_items (sem_start 0 ?es) =
      Some [(0, \<lparr>li_wake = 0, li_cell = 0\<rparr>), (1, \<lparr>li_wake = 1, li_cell = 1\<rparr>)]" by code_simp
  then have "sem_start 0 ?es \<noteq> None" "waiting_items ?s = [(0, \<lparr>li_wake = 0, li_cell = 0\<rparr>), (1, \<lparr>li_wake = 1, li_cell = 1\<rparr>)]"
    by auto
  with sem_release_fifo [OF sem_start_reachable [of 0 ?es]] show ?thesis by (simp add: Let_def)
qed
text \<open>Closing is final and frees everybody: \<open>close\<close> empties the list and calls every
  waker in it, and from then on \<open>try_acquire\<close> and the polls of all futures
  answer \<open>Closed\<close>.
\<close>

theorem sem_close_wakes_all:
  assumes "sem_reachable s"
  shows "is_closed (sem_close s) \<and> waiting_items (sem_close s) = [] \<and>
    woken (sem_close s) = woken s @ map (li_wake \<circ> snd) (waiting_items s) \<and>
    fst (try_acquire (sem_close s)) = Inl Closed \<and>
    (\<forall>i < length (futs s). fpc (futs (poll_acquire i (sem_close s)) ! i) = FDone (Inl Closed))"
proof -
  have i: "sem_inv s" by (rule sem_reachable_inv [OF assms])
  let ?s = "s\<lparr>permits := permits s OR SEM_CLOSED\<rparr>"
  have st: "struct_ok ?s" using i by (simp add: sem_inv_def)
  have len: "length (waiting_items ?s) \<le> slots_len (wake_list ?s)"
    using st by (simp add: struct_ok_def queue_holds_def slots_len_list)
  have "woken (sem_close s) = woken s @ map (li_wake \<circ> snd) (waiting_items s)"
    using inner_notify_drains [OF struct_wl_ok [OF st] len, of False]
    by (auto simp: sem_close_def inner_notify_all_def simp del: inner_notify.simps)
  then show ?thesis using sem_close_inv [OF i]
    by (simp add: try_acquire_def try_acquire_try_def atomically_def poll_acquire_def is_closed_def set_pc_def Let_def)
qed

theorem sem_close_wakes_all_witness:
  "woken (sem_close (the (sem_start 0 [Acquire, Poll 0, PollStep 0, Acquire, Poll 1, PollStep 1]))) = [0, 1]"
proof -
  let ?es = "[Acquire, Poll 0, PollStep 0, Acquire, Poll 1, PollStep 1]"
  let ?s = "the (sem_start 0 ?es)"
  have "map_option (\<lambda>s. (waiting_items s, woken s)) (sem_start 0 ?es) =
      Some ([(0, \<lparr>li_wake = 0, li_cell = 0\<rparr>), (1, \<lparr>li_wake = 1, li_cell = 1\<rparr>)], [])" by code_simp
  then have "sem_start 0 ?es \<noteq> None" "woken ?s = []"
    "waiting_items ?s = [(0, \<lparr>li_wake = 0, li_cell = 0\<rparr>), (1, \<lparr>li_wake = 1, li_cell = 1\<rparr>)]" by auto
  with sem_close_wakes_all [OF sem_start_reachable [of 0 ?es]] show ?thesis by simp
qed

text \<open>
  C15: \<open>poll_acquire\<close> takes the mere fact that its future is in the list for the grant
  of a permit. A future that is polled again before its waker was called (as
  \<open>Timeout::poll\<close> does with the future it wraps) becomes ready although no permit
  was given back: a semaphore with one permit then has two holders.
\<close>

theorem sem_spurious_poll_overcommits:
  "\<exists>s. sem_reachable s \<and> \<not> is_closed s \<and> total s = 1 \<and> held s = 1 \<and>
     fpc (futs s ! 1) = FIdle \<and> 1 \<notin> set (woken s) \<and>
     fpc (futs (poll_acquire 1 s) ! 1) = FDone (Inr ()) \<and> held (poll_acquire 1 s) = 2"
proof -
  let ?es = "[Acquire, Poll 0, PollStep 0, Acquire, Poll 1, PollStep 1, PollStep 1, PollStep 1]"
  let ?s = "the (sem_start 1 ?es)"
  have "map_option (\<lambda>s. (is_closed s, total s, held s, fpc (futs s ! 1), woken s,
      fpc (futs (poll_acquire 1 s) ! 1), held (poll_acquire 1 s))) (sem_start 1 ?es) =
      Some (False, 1, 1, FIdle, [], FDone (Inr ()), 2)" by code_simp
  then have "sem_start 1 ?es \<noteq> None" "\<not> is_closed ?s" "total ?s = 1" "held ?s = 1" "fpc (futs ?s ! 1) = FIdle"
    "1 \<notin> set (woken ?s)" "fpc (futs (poll_acquire 1 ?s) ! 1) = FDone (Inr ())" "held (poll_acquire 1 ?s) = 2"
    by auto
  with sem_start_reachable [of 1 ?es] show ?thesis by blast
qed

end
