(* ===== verification/Locks.thy ===== *)
theory Locks
  imports Semaphore
begin

text \<open>
  The locks built on \<open>SemaphoreInner\<close>: \<open>Mutex\<close> (\<open>sync/mutex.rs\<close>), the public
  \<open>Semaphore\<close> and \<open>AutoRelSemaphore\<close> (\<open>sync/semaphore.rs\<close>), \<open>Waiter\<close>
  (\<open>sync/waiter.rs\<close>) and \<open>RwLock\<close> (\<open>sync/rwlock.rs\<close>). The mutex is a semaphore with one
  permit, run by the step function of the semaphore. The read-write lock uses
  three semaphores; each appears here as the number of permits that can be
  collected from it, which is what the conservation of permits of \<open>Semaphore\<close>
  justifies, and its readers are counted by the place they have reached.
\<close>

section \<open>Mutex\<close>

datatype lock_error = LockError

definition mutex_new :: sem where
  "mutex_new = (case semaphore_new 1 of Inr s \<Rightarrow> s)"

definition try_lock :: "sem \<Rightarrow> (lock_error + unit) \<times> sem" where
  "try_lock s = (case try_acquire s of (Inr _, s') \<Rightarrow> (Inr (), s') | (Inl _, s') \<Rightarrow> (Inl LockError, s'))"

text \<open>\<open>MutexGuard::unlock\<close>, the body of its \<open>drop\<close>.\<close>

definition mutex_unlock :: "sem \<Rightarrow> sem" where
  "mutex_unlock s = release (s\<lparr>held := held s - 1\<rparr>)"

text \<open>
  \<open>lock\<close> creates an acquire future, which is polled and may be dropped; guards are
  dropped by their holders. A mutex is never closed and gets no extra permits.
\<close>

datatype mutex_event = Lock | PollLock nat | LockStep nat | DropLock nat | TryLock | Unlock

fun mutex_step :: "mutex_event \<Rightarrow> sem \<Rightarrow> sem option" where
  "mutex_step Lock s = sem_step Acquire s"
| "mutex_step (PollLock i) s = sem_step (Poll i) s"
| "mutex_step (LockStep i) s = sem_step (PollStep i) s"
| "mutex_step (DropLock i) s = sem_step (DropFut i) s"
| "mutex_step TryLock s = Some (snd (try_lock s))"
| "mutex_step Unlock s = (if 0 < held s then Some (mutex_unlock s) else None)"

inductive mutex_reachable :: "sem \<Rightarrow> bool" where
  mutex_created: "mutex_reachable mutex_new"
| mutex_stepped: "mutex_reachable s \<Longrightarrow> mutex_step e s = Some t \<Longrightarrow> mutex_reachable t"

section \<open>Public semaphores and the waiter\<close>

text \<open>
  \<open>Semaphore\<close> and \<open>AutoRelSemaphore\<close> delegate; a permit of the second kind gives
  its permit back when it is dropped. \<open>Waiter\<close> is a semaphore without permits.
\<close>

definition sem_new :: "usize \<Rightarrow> semaphore_error + sem" where
  "sem_new n = (case semaphore_new n of Inr s \<Rightarrow> Inr s | Inl e \<Rightarrow> Inl e)"

definition sem_try_acquire :: "sem \<Rightarrow> (semaphore_error + unit) \<times> sem" where
  "sem_try_acquire s = (case try_acquire s of (Inr _, s') \<Rightarrow> (Inr (), s') | (Inl e, s') \<Rightarrow> (Inl e, s'))"

definition sem_release :: "sem \<Rightarrow> sem" where
  "sem_release s = release s"

definition auto_permit_drop :: "sem \<Rightarrow> sem" where
  "auto_permit_drop s = release (s\<lparr>held := held s - 1\<rparr>)"

definition waiter_new :: sem where
  "waiter_new = (case semaphore_new 0 of Inr s \<Rightarrow> s)"

definition wake_one :: "sem \<Rightarrow> sem" where
  "wake_one s = release_notify s"

definition wake_all :: "sem \<Rightarrow> sem" where
  "wake_all s = release_all s"

section \<open>Read-write lock\<close>

definition MAX_READS :: int where
  "MAX_READS = 2305843009213693951"

text \<open>
  The writer that holds \<open>write_mutex\<close>: nobody; it has the mutex in \<open>write\<close>, or in
  \<open>try_write\<close>; it has subtracted
  \<open>MAX_READS\<close> from a \<open>read_count\<close> of the given value; it waits for \<open>write_sem\<close>; it has the
  write guard; it drops the guard and is about to release the given number of
  readers; it is about to release \<open>write_mutex\<close>.
\<close>

datatype writer_pc = NoWriter | WMutex | WTry | WSub int | WWait | WIn | WDrop nat | WFree

text \<open>
  \<open>r_wait\<close> readers wait for \<open>read_sem\<close>, \<open>r_in\<close> hold a read guard, \<open>r_out\<close> are in
  \<open>unlock\<close> between its two atomic operations, \<open>r_rel\<close> are about to release
  \<open>write_sem\<close>. \<open>read_sem\<close> and \<open>write_sem\<close> are the permits that can be collected.
\<close>

record rwlock =
  read_count :: int
  read_wait :: int
  read_sem :: nat
  write_sem :: nat
  writer :: writer_pc
  r_wait :: nat
  r_in :: nat
  r_out :: nat
  r_rel :: nat

definition rwlock_new :: rwlock where
  "rwlock_new = \<lparr>read_count = 0, read_wait = 0, read_sem = 0, write_sem = 0, writer = NoWriter,
     r_wait = 0, r_in = 0, r_out = 0, r_rel = 0\<rparr>"

definition rw_read :: "rwlock \<Rightarrow> rwlock" where
  "rw_read s = (let old = read_count s; s' = s\<lparr>read_count := old + 1\<rparr> in
     if old < 0 then s'\<lparr>r_wait := r_wait s + 1\<rparr> else s'\<lparr>r_in := r_in s + 1\<rparr>)"

text \<open>The end of the wait in \<open>read\<close>: a permit of \<open>read_sem\<close> is collected.\<close>

definition rw_read_collect :: "rwlock \<Rightarrow> rwlock" where
  "rw_read_collect s = s\<lparr>read_sem := read_sem s - 1, r_wait := r_wait s - 1, r_in := r_in s + 1\<rparr>"

definition try_read_try :: "int \<Rightarrow> (int, lock_error + unit) attempt" where
  "try_read_try cnt = (if cnt < 0 then Abort (Inl LockError) else Swap (cnt + 1) (Inr ()))"

definition try_read :: "rwlock \<Rightarrow> (lock_error + unit) \<times> rwlock" where
  "try_read s = (let (r, c) = atomically try_read_try (read_count s); s' = s\<lparr>read_count := c\<rparr> in
     (r, if r = Inr () then s'\<lparr>r_in := r_in s + 1\<rparr> else s'))"

text \<open>\<open>RwLockReadGuard::unlock\<close>: its two atomic operations and the release.\<close>

definition read_unlock :: "rwlock \<Rightarrow> rwlock" where
  "read_unlock s = (let old = read_count s; s' = s\<lparr>read_count := old - 1, r_in := r_in s - 1\<rparr> in
     if old < 0 then s'\<lparr>r_out := r_out s + 1\<rparr> else s')"

definition read_unlock2 :: "rwlock \<Rightarrow> rwlock" where
  "read_unlock2 s = (let old = read_wait s; s' = s\<lparr>read_wait := old - 1, r_out := r_out s - 1\<rparr> in
     if old = 1 then s'\<lparr>r_rel := r_rel s + 1\<rparr> else s')"

definition read_unlock3 :: "rwlock \<Rightarrow> rwlock" where
  "read_unlock3 s = s\<lparr>r_rel := r_rel s - 1, write_sem := write_sem s + 1\<rparr>"

text \<open>\<open>write\<close> after \<open>write_mutex\<close> was acquired.\<close>

definition write_sub :: "rwlock \<Rightarrow> rwlock" where
  "write_sub s = (let cnt = read_count s; s' = s\<lparr>read_count := cnt - MAX_READS\<rparr> in
     if 0 \<le> cnt then s'\<lparr>writer := WSub cnt\<rparr> else s'\<lparr>writer := WIn\<rparr>)"

definition write_add :: "int \<Rightarrow> rwlock \<Rightarrow> rwlock" where
  "write_add cnt s = (let old = read_wait s; s' = s\<lparr>read_wait := old + cnt\<rparr> in
     if old \<noteq> - cnt then s'\<lparr>writer := WWait\<rparr> else s'\<lparr>writer := WIn\<rparr>)"

definition write_collect :: "rwlock \<Rightarrow> rwlock" where
  "write_collect s = s\<lparr>write_sem := write_sem s - 1, writer := WIn\<rparr>"

text \<open>
  \<open>try_write\<close>: \<open>try_acquire\<close> of \<open>write_mutex\<close>, then one compare-exchange; when that
  fails the mutex is released again.
\<close>

definition try_write :: "rwlock \<Rightarrow> (lock_error + unit) option \<times> rwlock" where
  "try_write s = (if writer s \<noteq> NoWriter then (Some (Inl LockError), s) else (None, s\<lparr>writer := WTry\<rparr>))"

definition try_write_cas :: "rwlock \<Rightarrow> (lock_error + unit) \<times> rwlock" where
  "try_write_cas s = (if read_count s = 0 then (Inr (), s\<lparr>read_count := - MAX_READS, writer := WIn\<rparr>)
     else (Inl LockError, s\<lparr>writer := WFree\<rparr>))"

text \<open>\<open>Drop for RwLockWriteGuard\<close>: three atomic operations.\<close>

definition write_drop :: "rwlock \<Rightarrow> rwlock" where
  "write_drop s = (let cnt = read_count s + MAX_READS in
     s\<lparr>read_count := cnt, writer := WDrop (nat cnt)\<rparr>)"

definition write_drop2 :: "nat \<Rightarrow> rwlock \<Rightarrow> rwlock" where
  "write_drop2 n s = s\<lparr>read_sem := read_sem s + n, writer := WFree\<rparr>"

definition write_drop3 :: "rwlock \<Rightarrow> rwlock" where
  "write_drop3 s = s\<lparr>writer := NoWriter\<rparr>"

text \<open>Who may act; the readers present are bounded by \<open>MAX_READS\<close>.\<close>

datatype rw_event = Read | ReadCollect | TryRead | ReadUnlock | ReadUnlock2 | ReadUnlock3
  | WriteLock | WriteStep | TryWrite | WriteUnlock

definition readers :: "rwlock \<Rightarrow> nat" where
  "readers s = r_wait s + r_in s"

fun rw_step :: "rw_event \<Rightarrow> rwlock \<Rightarrow> rwlock option" where
  "rw_step Read s = (if int (readers s) + 1 < MAX_READS then Some (rw_read s) else None)"
| "rw_step ReadCollect s = (if 0 < r_wait s \<and> 0 < read_sem s then Some (rw_read_collect s) else None)"
| "rw_step TryRead s = (if int (readers s) + 1 < MAX_READS then Some (snd (try_read s)) else None)"
| "rw_step ReadUnlock s = (if 0 < r_in s then Some (read_unlock s) else None)"
| "rw_step ReadUnlock2 s = (if 0 < r_out s then Some (read_unlock2 s) else None)"
| "rw_step ReadUnlock3 s = (if 0 < r_rel s then Some (read_unlock3 s) else None)"
| "rw_step WriteLock s = (if writer s = NoWriter then Some (s\<lparr>writer := WMutex\<rparr>) else None)"
| "rw_step WriteStep s =
     (case writer s of
        WMutex \<Rightarrow> Some (write_sub s)
      | WTry \<Rightarrow> Some (snd (try_write_cas s))
      | WSub cnt \<Rightarrow> Some (write_add cnt s)
      | WWait \<Rightarrow> if 0 < write_sem s then Some (write_collect s) else None
      | WDrop n \<Rightarrow> Some (write_drop2 n s)
      | WFree \<Rightarrow> Some (write_drop3 s)
      | _ \<Rightarrow> None)"
| "rw_step TryWrite s = Some (snd (try_write s))"
| "rw_step WriteUnlock s = (if writer s = WIn then Some (write_drop s) else None)"

inductive rw_reachable :: "rwlock \<Rightarrow> bool" where
  rw_created: "rw_reachable rwlock_new"
| rw_stepped: "rw_reachable s \<Longrightarrow> rw_step e s = Some t \<Longrightarrow> rw_reachable t"

fun rw_run :: "rw_event list \<Rightarrow> rwlock \<Rightarrow> rwlock option" where
  "rw_run [] s = Some s"
| "rw_run (e # es) s = (case rw_step e s of None \<Rightarrow> None | Some t \<Rightarrow> rw_run es t)"

section \<open>Invariant of the read-write lock\<close>

text \<open>Readers that are inside, may come in without asking, or are leaving.\<close>

definition present :: "rwlock \<Rightarrow> nat" where
  "present s = r_in s + read_sem s + r_out s"

definition rw_inv :: "rwlock \<Rightarrow> bool" where
  "rw_inv s \<longleftrightarrow> int (readers s) < MAX_READS \<and>
     (case writer s of
        WSub c \<Rightarrow> read_count s = int (readers s) - MAX_READS \<and> read_sem s \<le> r_wait s \<and>
          read_wait s = int (present s) - c \<and> int (present s) \<le> c \<and> r_rel s = 0 \<and> write_sem s = 0
      | WWait \<Rightarrow> read_count s = int (readers s) - MAX_READS \<and> read_sem s \<le> r_wait s \<and>
          read_wait s = int (present s) \<and> r_rel s + write_sem s = of_bool (present s = 0)
      | WIn \<Rightarrow> read_count s = int (readers s) - MAX_READS \<and> present s = 0 \<and>
          read_wait s = 0 \<and> r_rel s = 0 \<and> write_sem s = 0
      | WDrop n \<Rightarrow> read_count s = int (readers s) \<and> r_wait s = read_sem s + n \<and> r_out s = 0 \<and>
          read_wait s = 0 \<and> r_rel s = 0 \<and> write_sem s = 0
      | _ \<Rightarrow> read_count s = int (readers s) \<and> r_wait s = read_sem s \<and> r_out s = 0 \<and>
          read_wait s = 0 \<and> r_rel s = 0 \<and> write_sem s = 0)"

lemmas rw_defs = rw_inv_def present_def readers_def

lemma rwlock_new_inv: "rw_inv rwlock_new"
  by (simp add: rw_defs rwlock_new_def MAX_READS_def)

lemma rw_read_inv: "rw_inv s \<Longrightarrow> int (readers s) + 1 < MAX_READS \<Longrightarrow> rw_inv (rw_read s)"
  by (cases "writer s") (auto simp: rw_defs rw_read_def Let_def)

lemma rw_read_collect_inv: "rw_inv s \<Longrightarrow> 0 < r_wait s \<Longrightarrow> 0 < read_sem s \<Longrightarrow> rw_inv (rw_read_collect s)"
  by (cases "writer s") (auto simp: rw_defs rw_read_collect_def)

lemma try_read_inv: "rw_inv s \<Longrightarrow> int (readers s) + 1 < MAX_READS \<Longrightarrow> rw_inv (snd (try_read s))"
  by (cases "writer s") (auto simp: rw_defs try_read_def try_read_try_def atomically_def Let_def)

lemma read_unlock_inv: "rw_inv s \<Longrightarrow> 0 < r_in s \<Longrightarrow> rw_inv (read_unlock s)"
  by (cases "writer s") (auto simp: rw_defs read_unlock_def Let_def)

lemma read_unlock2_inv: "rw_inv s \<Longrightarrow> 0 < r_out s \<Longrightarrow> rw_inv (read_unlock2 s)"
  by (cases "writer s") (auto simp: rw_defs read_unlock2_def Let_def)

lemma read_unlock3_inv: "rw_inv s \<Longrightarrow> 0 < r_rel s \<Longrightarrow> rw_inv (read_unlock3 s)"
  by (cases "writer s") (auto simp: rw_defs read_unlock3_def of_bool_def split: if_splits)

lemma write_steps_inv:
  "rw_inv s \<Longrightarrow> writer s = NoWriter \<Longrightarrow> rw_inv (s\<lparr>writer := WMutex\<rparr>)"
  "rw_inv s \<Longrightarrow> writer s = WMutex \<Longrightarrow> rw_inv (write_sub s)"
  "rw_inv s \<Longrightarrow> writer s = WTry \<Longrightarrow> rw_inv (snd (try_write_cas s))"
  "rw_inv s \<Longrightarrow> writer s = WSub c \<Longrightarrow> rw_inv (write_add c s)"
  "rw_inv s \<Longrightarrow> writer s = WWait \<Longrightarrow> 0 < write_sem s \<Longrightarrow> rw_inv (write_collect s)"
  "rw_inv s \<Longrightarrow> writer s = WIn \<Longrightarrow> rw_inv (write_drop s)"
  "rw_inv s \<Longrightarrow> writer s = WDrop n \<Longrightarrow> rw_inv (write_drop2 n s)"
  "rw_inv s \<Longrightarrow> writer s = WFree \<Longrightarrow> rw_inv (write_drop3 s)"
  by (auto simp: rw_defs write_sub_def try_write_cas_def write_add_def write_collect_def write_drop_def
      write_drop2_def write_drop3_def Let_def of_bool_def split: if_splits)

lemma try_write_inv: "rw_inv s \<Longrightarrow> rw_inv (snd (try_write s))"
  by (cases "writer s = NoWriter") (simp_all add: try_write_def rw_defs)

lemma rw_step_inv: "rw_step e s = Some t \<Longrightarrow> rw_inv s \<Longrightarrow> rw_inv t"
  by (cases e) (auto simp: rw_read_inv rw_read_collect_inv try_read_inv read_unlock_inv read_unlock2_inv
      read_unlock3_inv write_steps_inv try_write_inv split: if_splits writer_pc.splits)

lemma rw_reachable_inv: "rw_reachable s \<Longrightarrow> rw_inv s"
  by (induction rule: rw_reachable.induct) (auto intro: rwlock_new_inv rw_step_inv)

lemma rw_run_reachable: "rw_run es s = Some t \<Longrightarrow> rw_reachable s \<Longrightarrow> rw_reachable t"
  by (induction es arbitrary: s) (auto split: option.splits intro: rw_stepped)

section \<open>Properties\<close>

lemma inner_notify_more: "inner_notify n ty b s = Some (r, t) \<Longrightarrow> waker_list.more t = waker_list.more s"
  by (induction n ty b s arbitrary: r t rule: inner_notify.induct)
    (auto simp: Let_def split: option.splits prod.splits if_splits)

lemma notify_one_keeps:
  assumes "inner_notify_one (s :: sem) = Some (b, t)"
  shows "total t = total s \<and> permits t = permits s"
  using sem_more [OF inner_notify_more [OF assms [unfolded inner_notify_one_def]]] by simp_all

definition fixed :: "sem \<Rightarrow> sem \<Rightarrow> bool" where
  "fixed s t \<longleftrightarrow> total t = total s \<and> is_closed t = is_closed s"

lemma fixed_release: "fixed s (release s)"
  by (auto simp: fixed_def release_def sem_panic_def is_closed_def dest: notify_one_keeps
      split: option.split prod.split bool.split) (auto simp: closed_add_permits [unfolded is_closed_def] dest: notify_one_keeps)

lemma remove_permit_keeps:
  "remove_permit k w (s :: sem) = Some (b, t) \<Longrightarrow> total t = total s \<and> permits t = permits s"
  by (auto simp: remove_permit_def Let_def dest!: notify_one_keeps split: if_splits option.splits)

lemma fixed_drop: "fixed s (permit_drop i s)"
proof -
  let ?s = "set_enqueue i False (set_pc i FDropped s)"
  have e: "total ?s = total s" "permits ?s = permits s" by (simp_all add: set_pc_def set_enqueue_def)
  show ?thesis
  proof (cases "enqueue (futs s ! i) \<and> waker_index (futs s ! i) \<noteq> None")
    case False
    then show ?thesis by (auto simp: permit_drop_def fixed_def sem_panic_def is_closed_def e Let_def) (simp_all add: set_pc_def)
  next
    case True
    then obtain k where k: "waker_index (futs s ! i) = Some k" by blast
    show ?thesis
    proof (cases "remove_permit k (cells s i) ?s")
      case None
      with True k show ?thesis by (simp add: permit_drop_def fixed_def sem_panic_def is_closed_def e Let_def)
    next
      case (Some r)
      obtain b t where r: "r = (b, t)" by (cases r)
      with Some remove_permit_keeps [of k "cells s i" ?s b t] e have "total t = total s" "permits t = permits s" by simp_all
      with True k Some r show ?thesis
        by (cases b) (simp_all add: permit_drop_def fixed_def Let_def is_closed_def closed_add_permits [unfolded is_closed_def])
    qed
  qed
qed

lemma fixed_poll: "fixed s (poll_acquire i s)" "fixed s (set_pc i pc s)" "fixed s (snd (acquire s))"
  by (simp_all add: fixed_def poll_acquire_def set_pc_def set_enqueue_def acquire_def is_closed_def Let_def)

lemma fixed_loop: "fixed s (poll_acquire_loop i cur s)"
  by (auto simp: fixed_def poll_acquire_loop_def update_permit_def set_pc_def wl_insert_def is_closed_def Let_def
      pcount_sub split: prod.split)

lemma fixed_try: "fixed s (snd (try_acquire s))"
proof (cases "is_closed_word (permits s) \<or> permits s = 0")
  case False
  then show ?thesis using pcount_empty [of "permits s"] pcount_sub [of "permits s"]
    by (auto simp: fixed_def try_acquire_def try_acquire_try_def atomically_def is_closed_def Let_def)
qed (auto simp: fixed_def try_acquire_def try_acquire_try_def atomically_def is_closed_def Let_def)

lemma mutex_new_sem: "semaphore_new 1 = Inr mutex_new" "total mutex_new = 1" "\<not> is_closed mutex_new"
proof -
  have "\<not> MAX_PERMITS \<le> 1" by (simp add: word_le_nat_alt unat_MAX_PERMITS)
  then show "semaphore_new 1 = Inr mutex_new" "total mutex_new = 1" "\<not> is_closed mutex_new"
    by (simp_all add: mutex_new_def semaphore_new_def is_closed_def closed_odd)
qed

lemma try_lock_snd: "snd (try_lock s) = snd (try_acquire s)"
  by (simp add: try_lock_def split: prod.split sum.split)

definition sem_event_of :: "mutex_event \<Rightarrow> sem_event" where
  "sem_event_of e = (case e of Lock \<Rightarrow> Acquire | PollLock i \<Rightarrow> Poll i | LockStep i \<Rightarrow> PollStep i
     | DropLock i \<Rightarrow> DropFut i | TryLock \<Rightarrow> TryAcquire | Unlock \<Rightarrow> Release)"

lemma mutex_step_sem:
  assumes "mutex_step e s = Some t"
  shows "sem_step (sem_event_of e) s = Some t" "fixed s t"
proof -
  show "sem_step (sem_event_of e) s = Some t"
    using assms by (cases e) (auto simp: sem_event_of_def try_lock_snd mutex_unlock_def split: if_splits)
  have r: "fixed s (release (s\<lparr>held := h\<rparr>))" "fixed s (set_pc i pc (release s))" for h i pc
    using fixed_release [of "s\<lparr>held := h\<rparr>"] fixed_release [of s] by (simp_all add: fixed_def is_closed_def set_pc_def)
  show "fixed s t"
    using assms by (cases e) (auto simp: fixed_poll fixed_loop fixed_drop fixed_try r try_lock_snd mutex_unlock_def
      split: if_splits fut_pc.splits)
qed

lemma mutex_is_sem: "mutex_reachable s \<Longrightarrow> sem_reachable s \<and> total s = 1 \<and> \<not> is_closed s"
proof (induction rule: mutex_reachable.induct)
  case mutex_created
  then show ?case using mutex_new_sem by (auto intro: sem_created)
next
  case (mutex_stepped s e t)
  with mutex_step_sem [of e s t] show ?case by (auto simp: fixed_def intro: sem_stepped)
qed

fun mutex_run :: "mutex_event list \<Rightarrow> sem \<Rightarrow> sem option" where
  "mutex_run [] s = Some s"
| "mutex_run (e # es) s = (case mutex_step e s of None \<Rightarrow> None | Some t \<Rightarrow> mutex_run es t)"

lemma mutex_run_reachable: "mutex_run es s = Some t \<Longrightarrow> mutex_reachable s \<Longrightarrow> mutex_reachable t"
  by (induction es arbitrary: s) (auto split: option.splits intro: mutex_stepped)




definition rw_example :: "rw_event list" where
  "rw_example = [Read, WriteLock, WriteStep, WriteStep, Read, ReadUnlock, ReadUnlock2, ReadUnlock3, WriteStep]"




end
