(* ===== verification/Linked_List.thy ===== *)
theory Linked_List
  imports Prelude
begin

text \<open>
  The intrusive doubly linked list (\<open>ylong_runtime/src/util/linked_list.rs\<close>): the nodes
  belong to the users, so the memory is an explicit store from addresses to
  nodes, shared by all lists; a list is the address of its head node, whose ring
  of \<open>next\<close> and \<open>prev\<close> pointers holds the elements. The operations are proved to
  refine operations on the sequence of addresses in the ring, and to leave the
  rings of other lists alone.
\<close>

section \<open>Nodes and operations\<close>

record node =
  prev :: "nat option"
  nxt :: "nat option"

type_synonym node_heap = "nat \<Rightarrow> node"

definition node_new :: node where
  "node_new = \<lparr>prev = None, nxt = None\<rparr>"

definition set_prev :: "nat \<Rightarrow> nat option \<Rightarrow> node_heap \<Rightarrow> node_heap" where
  "set_prev a p h = h(a := (h a)\<lparr>prev := p\<rparr>)"

definition set_next :: "nat \<Rightarrow> nat option \<Rightarrow> node_heap \<Rightarrow> node_heap" where
  "set_next a n h = h(a := (h a)\<lparr>nxt := n\<rparr>)"

definition remove_node :: "nat \<Rightarrow> node_heap \<Rightarrow> nat option \<times> node_heap" where
  "remove_node a h =
     (case prev (h a) of
        None \<Rightarrow> (None, h)
      | Some p \<Rightarrow>
          let n = nxt (h a); h1 = set_next p n h in
          (case n of
             None \<Rightarrow> (None, h1)
           | Some m \<Rightarrow> (Some a, set_next a None (set_prev a None (set_prev m (Some p) h1)))))"

definition ll_new :: "nat \<Rightarrow> node_heap \<Rightarrow> node_heap" where
  "ll_new hp h = set_next hp (Some hp) (set_prev hp (Some hp) (h(hp := node_new)))"

definition ll_push_front :: "nat \<Rightarrow> nat \<Rightarrow> node_heap \<Rightarrow> node_heap" where
  "ll_push_front hp v h =
     (let h1 = set_next v (nxt (h hp)) h;
          h2 = set_prev v (Some hp) h1;
          h3 = (case nxt (h2 hp) of Some first \<Rightarrow> set_prev first (Some v) h2 | None \<Rightarrow> h2)
      in set_next hp (Some v) h3)"

text \<open>\<open>unwrap\<close> of an absent \<open>head.prev\<close> would panic: \<open>None\<close> of the outer option.\<close>

definition ll_pop_back :: "nat \<Rightarrow> node_heap \<Rightarrow> (nat option \<times> node_heap) option" where
  "ll_pop_back hp h =
     (if prev (h hp) \<noteq> Some hp
      then (case prev (h hp) of
              None \<Rightarrow> None
            | Some a \<Rightarrow> Some (Some a, snd (remove_node a (set_prev hp None h))))
      else Some (None, h))"

definition ll_remove :: "nat \<Rightarrow> node_heap \<Rightarrow> nat option \<times> node_heap" where
  "ll_remove a h = remove_node a h"

definition ll_is_empty :: "nat \<Rightarrow> node_heap \<Rightarrow> bool" where
  "ll_is_empty hp h = (nxt (h hp) = Some hp)"

text \<open>
  The loop of \<open>drain_filtered\<close>; the closure has a state of its own. \<open>None\<close> is the
  failing \<open>unwrap\<close> as well as a loop that does not end.
\<close>

partial_function (option) drain_loop ::
  "nat \<Rightarrow> (nat \<Rightarrow> 's \<Rightarrow> bool \<times> 's) \<Rightarrow> nat option \<Rightarrow> 's \<Rightarrow> node_heap \<Rightarrow> ('s \<times> node_heap) option" where
  "drain_loop hp f p s h =
     (if p = Some hp then Some (s, h)
      else (case p of
              None \<Rightarrow> None
            | Some a \<Rightarrow>
                (case f a s of (del, s') \<Rightarrow>
                   drain_loop hp f (nxt (h a)) s' (if del then snd (remove_node a h) else h))))"

declare drain_loop.simps [code]

definition drain_filtered :: "nat \<Rightarrow> (nat \<Rightarrow> 's \<Rightarrow> bool \<times> 's) \<Rightarrow> 's \<Rightarrow> node_heap \<Rightarrow> ('s \<times> node_heap) option" where
  "drain_filtered hp f s h = drain_loop hp f (nxt (h hp)) s h"

lemmas node_defs = set_prev_def set_next_def node_new_def

section \<open>The ring of a list\<close>

text \<open>\<open>chain h a xs b\<close>: the nodes \<open>xs\<close> lie between \<open>a\<close> and \<open>b\<close>, linked in both directions.\<close>

fun chain :: "node_heap \<Rightarrow> nat \<Rightarrow> nat list \<Rightarrow> nat \<Rightarrow> bool" where
  "chain h a [] b \<longleftrightarrow> nxt (h a) = Some b \<and> prev (h b) = Some a"
| "chain h a (x # xs) b \<longleftrightarrow> nxt (h a) = Some x \<and> prev (h x) = Some a \<and> chain h x xs b"

definition list_ok :: "nat \<Rightarrow> node_heap \<Rightarrow> nat list \<Rightarrow> bool" where
  "list_ok hp h xs \<longleftrightarrow> distinct (hp # xs) \<and> chain h hp xs hp"

lemma chain_append [simp]: "chain h a (xs @ y # ys) b \<longleftrightarrow> chain h a xs y \<and> chain h y ys b"
  by (induction xs arbitrary: a) auto

lemma chain_frame:
  assumes "\<And>x. x \<in> insert a (set xs) \<Longrightarrow> nxt (h' x) = nxt (h x)" "\<And>x. x \<in> insert b (set xs) \<Longrightarrow> prev (h' x) = prev (h x)"
  shows "chain h' a xs b = chain h a xs b"
  using assms
proof (induction xs arbitrary: a)
  case (Cons x xs)
  have "chain h' x xs b = chain h x xs b" by (rule Cons.IH) (use Cons.prems in auto)
  with Cons.prems show ?case by simp
qed simp

lemma chain_first: "chain h a xs b \<Longrightarrow> nxt (h a) = Some (case xs of [] \<Rightarrow> b | x # _ \<Rightarrow> x)"
  by (cases xs) auto

lemma chain_last: "chain h a xs b \<Longrightarrow> prev (h b) = Some (if xs = [] then a else last xs)"
  by (induction xs arbitrary: a) auto

lemma list_ok_frame:
  "list_ok hp h xs \<Longrightarrow> (\<And>x. x \<in> insert hp (set xs) \<Longrightarrow> h' x = h x) \<Longrightarrow> list_ok hp h' xs"
  using chain_frame [of hp xs h' h hp] by (simp add: list_ok_def)

lemma ll_new_ok: "list_ok hp (ll_new hp h) []"
  by (simp add: list_ok_def ll_new_def node_defs)

lemma ll_is_empty_iff: "list_ok hp h xs \<Longrightarrow> ll_is_empty hp h \<longleftrightarrow> xs = []"
  by (cases xs) (auto simp: list_ok_def ll_is_empty_def)

lemma ll_push_front_ok:
  assumes "list_ok hp h xs" "v \<notin> set (hp # xs)"
  shows "list_ok hp (ll_push_front hp v h) (v # xs)"
proof (cases xs)
  case Nil
  with assms show ?thesis by (auto simp: list_ok_def ll_push_front_def node_defs Let_def)
next
  case (Cons x ys)
  with assms have "chain (ll_push_front hp v h) x ys hp = chain h x ys hp"
    by (intro chain_frame) (auto simp: list_ok_def ll_push_front_def node_defs Let_def)
  with assms Cons show ?thesis by (auto simp: list_ok_def ll_push_front_def node_defs Let_def)
qed

lemma ll_push_front_frame:
  "list_ok hp h xs \<Longrightarrow> b \<notin> set (hp # v # xs) \<Longrightarrow> ll_push_front hp v h b = h b"
  by (cases xs) (auto simp: list_ok_def ll_push_front_def node_defs Let_def)

text \<open>Removal of a node between two neighbours.\<close>

lemma remove_node_eq:
  "prev (h a) = Some p \<Longrightarrow> nxt (h a) = Some n \<Longrightarrow>
   remove_node a h = (Some a, set_next a None (set_prev a None (set_prev n (Some p) (set_next p (Some n) h))))"
  by (simp add: remove_node_def Let_def)

lemma chain_retarget:
  assumes "chain h c us a" "distinct (c # us)"
    "\<And>x. x \<in> insert c (set us) \<Longrightarrow> x \<noteq> p \<Longrightarrow> nxt (h' x) = nxt (h x)" "\<And>x. x \<in> set us \<Longrightarrow> prev (h' x) = prev (h x)"
    "p = (if us = [] then c else last us)" "nxt (h' p) = Some n" "prev (h' n) = Some p"
  shows "chain h' c us n"
  using assms
proof (induction us arbitrary: c)
  case (Cons u us)
  then have "c \<noteq> p" by (cases "us = []") (auto dest: last_in_set)
  have "chain h' u us n" by (rule Cons.IH) (use Cons.prems in auto)
  with Cons.prems \<open>c \<noteq> p\<close> show ?case by simp
qed simp

lemma remove_node_links:
  assumes "chain h c (us @ a # vs) d" "distinct (c # us @ a # vs)" "d \<notin> set (us @ a # vs)"
  shows "chain (snd (remove_node a h)) c (us @ vs) d" "fst (remove_node a h) = Some a"
proof -
  have l: "chain h c us a" "chain h a vs d" using assms(1) by simp_all
  define p where "p = (if us = [] then c else last us)"
  define n where "n = (case vs of [] \<Rightarrow> d | v # _ \<Rightarrow> v)"
  have e: "remove_node a h = (Some a, set_next a None (set_prev a None (set_prev n (Some p) (set_next p (Some n) h))))"
    using chain_last [OF l(1)] chain_first [OF l(2)] by (intro remove_node_eq) (simp_all add: p_def n_def)
  then show "fst (remove_node a h) = Some a" by simp
  let ?h = "snd (remove_node a h)"
  have h: "nxt (?h x) = (if x = a then None else if x = p then Some n else nxt (h x))"
    "prev (?h x) = (if x = a then None else if x = n then Some p else prev (h x))" for x
    by (simp_all add: e node_defs)
  have p: "p \<in> insert c (set us)" by (simp add: p_def)
  have n: "n \<in> insert d (set vs)" by (simp add: n_def split: list.splits)
  have u: "chain ?h c us n"
    by (rule chain_retarget [OF l(1) _ _ _ p_def]) (use assms p n in \<open>auto simp: h\<close>)
  show "chain ?h c (us @ vs) d"
  proof (cases vs)
    case Nil
    with u show ?thesis by (simp add: n_def)
  next
    case (Cons v vs')
    then have "n = v" by (simp add: n_def)
    have "chain ?h v vs' d = chain h v vs' d"
      using assms Cons p by (intro chain_frame) (auto simp: h \<open>n = v\<close>)
    with Cons u l(2) \<open>n = v\<close> show ?thesis by simp
  qed
qed

lemma remove_node_frame:
  assumes "list_ok hp h xs" "a \<in> set xs" "b \<notin> set (hp # xs)"
  shows "snd (remove_node a h) b = h b"
proof -
  obtain us vs where xs: "xs = us @ a # vs" using split_list [OF assms(2)] by blast
  with assms(1) have l: "chain h hp us a" "chain h a vs hp" by (simp_all add: list_ok_def)
  from chain_last [OF l(1)] chain_first [OF l(2)] assms(3) xs show ?thesis
    by (auto simp: remove_node_eq node_defs split: list.splits dest: last_in_set)
qed

lemma remove_node_ok:
  assumes "list_ok hp h xs" "a \<in> set xs"
  shows "list_ok hp (snd (remove_node a h)) (remove1 a xs)" "fst (remove_node a h) = Some a"
    "snd (remove_node a h) a = node_new"
proof -
  obtain us vs where xs: "xs = us @ a # vs" using split_list [OF assms(2)] by blast
  have d: "distinct (hp # us @ a # vs)" "chain h hp (us @ a # vs) hp" using assms(1) xs by (simp_all add: list_ok_def)
  from remove_node_links [OF d(2,1)] d(1)
  show "list_ok hp (snd (remove_node a h)) (remove1 a xs)" "fst (remove_node a h) = Some a"
    by (auto simp: list_ok_def xs remove1_append)
  from d(2) have l: "chain h hp us a" "chain h a vs hp" by simp_all
  from chain_last [OF l(1)] chain_first [OF l(2)] show "snd (remove_node a h) a = node_new"
    by (simp add: remove_node_eq node_defs)
qed

lemma ll_pop_back_ok:
  assumes "list_ok hp h xs"
  shows "case xs of [] \<Rightarrow> ll_pop_back hp h = Some (None, h)
    | _ \<Rightarrow> \<exists>h'. ll_pop_back hp h = Some (Some (last xs), h') \<and> list_ok hp h' (butlast xs) \<and>
        h' (last xs) = node_new \<and> (\<forall>b. b \<notin> set (hp # xs) \<longrightarrow> h' b = h b)"
proof (cases "xs = []")
  case True
  with assms show ?thesis by (auto simp: list_ok_def ll_pop_back_def)
next
  case False
  let ?a = "last xs"
  let ?h = "snd (remove_node ?a h)"
  have l: "?a \<in> set xs" "hp \<notin> set xs" "prev (h hp) = Some ?a" "chain h hp xs hp" "distinct xs"
    using False assms chain_last [of h hp xs hp] by (simp_all add: list_ok_def)
  have "chain h hp (butlast xs @ [?a]) hp" using l(4) False by simp
  then have "nxt (h ?a) = Some hp" and "chain h hp (butlast xs) ?a" by (simp_all only: chain_append chain.simps)
  with chain_last [OF this(2)] have e: "snd (remove_node ?a (set_prev hp None h)) = ?h"
    using l(1,2) by (auto simp: remove_node_def node_defs Let_def fun_eq_iff)
  have "remove1 ?a xs = butlast xs"
    using False l(5) by (cases xs rule: rev_cases) (simp_all add: remove1_append)
  with remove_node_ok [OF assms l(1)] remove_node_frame [OF assms l(1)] l(1-3) e False show ?thesis
    by (auto simp: ll_pop_back_def split: list.splits)
qed

text \<open>
  The loop of \<open>drain_filtered\<close> visits the elements that were in the list, in order,
  and keeps those for which the closure answers \<open>False\<close>.
\<close>

fun keep :: "(nat \<Rightarrow> 's \<Rightarrow> bool \<times> 's) \<Rightarrow> 's \<Rightarrow> nat list \<Rightarrow> nat list \<times> 's" where
  "keep f s [] = ([], s)"
| "keep f s (x # xs) = (case f x s of (del, s') \<Rightarrow>
     case keep f s' xs of (ys, t) \<Rightarrow> (if del then ys else x # ys, t))"

lemma drain_loop_ok:
  assumes "list_ok hp h (ys @ xs)"
  shows "\<exists>h'. drain_loop hp f (Some (case xs of [] \<Rightarrow> hp | x # _ \<Rightarrow> x)) s h = Some (snd (keep f s xs), h') \<and>
    list_ok hp h' (ys @ fst (keep f s xs)) \<and> (\<forall>b. b \<notin> set (hp # ys @ xs) \<longrightarrow> h' b = h b) \<and>
    (\<forall>b. b \<in> set xs \<and> b \<notin> set (fst (keep f s xs)) \<longrightarrow> h' b = node_new)"
  using assms
proof (induction xs arbitrary: s h ys)
  case Nil
  then show ?case by (simp add: drain_loop.simps)
next
  case (Cons x xs)
  obtain del s' where f: "f x s = (del, s')" by (cases "f x s")
  have x: "x \<noteq> hp" "x \<in> set (ys @ x # xs)" "x \<notin> set ys" and c: "chain h x xs hp"
    using Cons.prems by (simp_all add: list_ok_def)
  show ?case
  proof (cases del)
    case True
    have ok: "list_ok hp (snd (remove_node x h)) (ys @ xs)"
      using remove_node_ok(1) [OF Cons.prems x(2)] x(3) by (simp add: remove1_append)
    have fr: "snd (remove_node x h) b = h b" if "b \<notin> set (hp # ys @ x # xs)" for b
      using remove_node_frame [OF Cons.prems x(2) that] .
    have new: "snd (remove_node x h) x = node_new" by (rule remove_node_ok(3) [OF Cons.prems x(2)])
    have "x \<notin> set xs" using Cons.prems by (simp add: list_ok_def)
    with Cons.IH [OF ok, of s'] fr new x f True chain_first [OF c] show ?thesis
      by (auto simp: drain_loop.simps [of hp f "Some x"] split: prod.splits)
  next
    case False
    have ok: "list_ok hp h ((ys @ [x]) @ xs)" using Cons.prems by simp
    from Cons.IH [OF ok, of s'] x f False chain_first [OF c] show ?thesis
      by (auto simp: drain_loop.simps [of hp f "Some x"] split: prod.splits)
  qed
qed

lemma drain_filtered_ok:
  assumes "list_ok hp h xs"
  shows "\<exists>h'. drain_filtered hp f s h = Some (snd (keep f s xs), h') \<and> list_ok hp h' (fst (keep f s xs)) \<and>
    (\<forall>b. b \<notin> set (hp # xs) \<longrightarrow> h' b = h b) \<and> (\<forall>b. b \<in> set xs \<and> b \<notin> set (fst (keep f s xs)) \<longrightarrow> h' b = node_new)"
  using drain_loop_ok [of hp h "[]" xs f s] assms chain_first [of h hp xs hp]
  by (simp add: drain_filtered_def list_ok_def)

section \<open>The list as a queue\<close>

text \<open>
  What a user of \<open>push_front\<close> and \<open>pop_back\<close> relies on: the two act on the front and
  the back of one sequence. Elements therefore come out in the order they went in.
\<close>

locale fifo_list =
  fixes ok :: "'h \<Rightarrow> nat list \<Rightarrow> bool"
    and root :: nat
    and push :: "nat \<Rightarrow> 'h \<Rightarrow> 'h"
    and pop :: "'h \<Rightarrow> (nat option \<times> 'h) option"
  assumes push_ok: "ok h xs \<Longrightarrow> v \<notin> set (root # xs) \<Longrightarrow> ok (push v h) (v # xs)"
    and pop_ok: "ok h xs \<Longrightarrow> \<exists>h'. pop h = Some (if xs = [] then None else Some (last xs), h') \<and> ok h' (butlast xs)"
begin

lemma push_all: "ok h xs \<Longrightarrow> distinct (root # rev vs @ xs) \<Longrightarrow> ok (fold push vs h) (rev vs @ xs)"
proof (induction vs arbitrary: h xs)
  case (Cons v vs)
  have "ok (push v h) (v # xs)" by (rule push_ok) (use Cons.prems in auto)
  from Cons.IH [OF this] Cons.prems(2) show ?case by auto
qed simp

fun pops :: "nat \<Rightarrow> 'h \<Rightarrow> (nat list \<times> 'h) option" where
  "pops 0 h = Some ([], h)"
| "pops (Suc n) h = (case pop h of
     None \<Rightarrow> None
   | Some (None, h') \<Rightarrow> Some ([], h')
   | Some (Some v, h') \<Rightarrow> (case pops n h' of None \<Rightarrow> None | Some (vs, h'') \<Rightarrow> Some (v # vs, h'')))"

lemma pops_ok: "ok h xs \<Longrightarrow> \<exists>h'. pops n h = Some (take n (rev xs), h') \<and> ok h' (rev (drop n (rev xs)))"
proof (induction n arbitrary: h xs)
  case (Suc n)
  from pop_ok [OF Suc.prems] obtain h' where
    h': "pop h = Some (if xs = [] then None else Some (last xs), h')" "ok h' (butlast xs)" by blast
  show ?case
  proof (cases xs rule: rev_cases)
    case Nil
    with h' show ?thesis by simp
  next
    case (snoc ys y)
    with h' Suc.IH [OF h'(2)] show ?thesis by auto
  qed
qed simp

end

interpretation ll: fifo_list "list_ok hp" hp "ll_push_front hp" "ll_pop_back hp" for hp
proof unfold_locales
  show "list_ok hp h xs \<Longrightarrow> v \<notin> set (hp # xs) \<Longrightarrow> list_ok hp (ll_push_front hp v h) (v # xs)" for h xs v
    by (rule ll_push_front_ok)
  show "list_ok hp h xs \<Longrightarrow> \<exists>h'. ll_pop_back hp h = Some (if xs = [] then None else Some (last xs), h') \<and> list_ok hp h' (butlast xs)" for h xs
    using ll_pop_back_ok [of hp h xs] by (cases xs) auto
qed

section \<open>Properties\<close>


definition list_example :: node_heap where
  "list_example = fold (ll_push_front 0) [1, 2, 3] (ll_new 0 (\<lambda>_. node_new))"

lemma list_example_ok: "list_ok 0 list_example [3, 2, 1]"
  using ll.push_all [OF ll_new_ok, of 0 "[1, 2, 3]"] by (simp add: list_example_def)


text \<open>\<open>drain_filtered\<close> always ends: it calls the closure once on every element that is
  in the list, in order, and afterwards the list holds exactly the elements for
  which the closure answered \<open>False\<close>.
\<close>

theorem drain_filtered_ends:
  assumes "list_ok hp h xs"
  shows "\<exists>h'. drain_filtered hp (\<lambda>a (seen, acc). (P a, (seen @ [a], g a acc))) ([], acc) h = Some ((xs, fold g xs acc), h') \<and>
    list_ok hp h' (filter (\<lambda>a. \<not> P a) xs)"
proof -
  have "keep (\<lambda>a (seen, acc). (P a, (seen @ [a], g a acc))) (ss, acc) xs = (filter (\<lambda>a. \<not> P a) xs, (ss @ xs, fold g xs acc))" for ss
    by (induction xs arbitrary: ss acc) auto
  with drain_filtered_ok [OF assms, of "\<lambda>a (seen, acc). (P a, (seen @ [a], g a acc))" "([], acc)"] show ?thesis by auto
qed

theorem drain_filtered_ends_witness:
  "\<exists>h'. drain_filtered 0 (\<lambda>a (seen, acc). (even a, (seen @ [a], a + acc))) ([], 0) list_example = Some (([3, 2, 1], 6), h') \<and>
    list_ok 0 h' [3, 1]"
  using drain_filtered_ends [OF list_example_ok, of even "(+)" 0] by simp

end
