(* ===== verification/Run_Queue.thy ===== *)
theory Run_Queue
  imports Linked_List "HOL-Library.Multiset"
begin

unbundle bit_operations_syntax

text \<open>
  The run queues (\<open>ylong_runtime/src/executor/queue.rs\<close>): a ring buffer per worker
  whose owner pushes and pops and from which other workers steal, and the global
  queue behind a mutex. A position is a wrapping 16-bit counter; the positions of
  the head and of a steal in progress share one 32-bit word. The shared memory
  accesses of the owner and of the thieves are single steps of a system of
  workers, interleaved in any order. A task is the address of its header.
\<close>

section \<open>The ring buffer\<close>

definition LOCAL_QUEUE_CAP :: nat where "LOCAL_QUEUE_CAP = 256"
definition MASK :: u16 where "MASK = 255"

definition unwrap_pos :: "u32 \<Rightarrow> u16 \<times> u16" where
  "unwrap_pos num = (ucast (drop_bit 16 num), ucast (num AND 0xFFFF))"

definition wrap_pos :: "u16 \<Rightarrow> u16 \<Rightarrow> u32" where
  "wrap_pos steal_pos head_pos = ucast head_pos OR push_bit 16 (ucast steal_pos)"

text \<open>
  A slot of the buffer is \<open>None\<close> as long as it is uninitialised. The last three
  fields are no memory of the program: the positions as unbounded numbers.
\<close>

record inner_buffer =
  front :: u32
  rear :: u16
  cap :: u16
  buffer :: "nat option list"
  m_count :: u64
  m_from_global :: u64
  m_to_global :: u64

record lqueue = inner_buffer +
  g_steal :: nat
  g_head :: nat
  g_rear :: nat

definition lq_new :: lqueue where
  "lq_new = \<lparr>front = 0, rear = 0, cap = of_nat LOCAL_QUEUE_CAP, buffer = replicate LOCAL_QUEUE_CAP None,
     m_count = 0, m_from_global = 0, m_to_global = 0, g_steal = 0, g_head = 0, g_rear = 0\<rparr>"

definition buf_read :: "lqueue \<Rightarrow> u16 \<Rightarrow> nat option" where
  "buf_read q pos = buffer q ! unat (pos AND MASK)"

definition buf_write :: "u16 \<Rightarrow> nat \<Rightarrow> lqueue \<Rightarrow> lqueue" where
  "buf_write pos t q = q\<lparr>buffer := (buffer q)[unat (pos AND MASK) := Some t]\<rparr>"

definition lq_is_empty :: "lqueue \<Rightarrow> bool" where
  "lq_is_empty q = (snd (unwrap_pos (front q)) = rear q)"

definition lq_len :: "lqueue \<Rightarrow> u16" where
  "lq_len q = rear q - snd (unwrap_pos (front q))"

definition remaining :: "lqueue \<Rightarrow> u16" where
  "remaining q = cap q - (rear q - fst (unwrap_pos (front q)))"

definition is_half_full :: "u16 \<Rightarrow> lqueue \<Rightarrow> bool" where
  "is_half_full r q = (r - fst (unwrap_pos (front q)) > of_nat (LOCAL_QUEUE_CAP div 2))"

text \<open>
  \<open>pop_front\<close>: the loop works on \<open>front\<close> alone, the rear belongs to the caller. A
  popped task that was never written is the inner \<open>None\<close>.
\<close>

definition pop_front_try :: "u16 \<Rightarrow> u32 \<Rightarrow> (u32, u16 option) attempt" where
  "pop_front_try tail_pos head =
     (let (steal_pos, real_pos) = unwrap_pos head in
      if real_pos = tail_pos then Abort None
      else let next_real = real_pos + 1 in
        Swap (if steal_pos = real_pos then wrap_pos next_real next_real else wrap_pos steal_pos next_real) (Some real_pos))"

definition lq_pop_front :: "lqueue \<Rightarrow> nat option option \<times> lqueue" where
  "lq_pop_front q =
     (case atomically (pop_front_try (rear q)) (front q) of
        (None, _) \<Rightarrow> (None, q)
      | (Some pos, f) \<Rightarrow>
          (Some (buf_read q pos),
           q\<lparr>front := f, g_head := g_head q + 1, g_steal := (if g_steal q = g_head q then g_head q + 1 else g_steal q)\<rparr>))"

text \<open>The part of \<open>push_back\<close> that writes the task and publishes it.\<close>

definition lq_push :: "nat \<Rightarrow> lqueue \<Rightarrow> lqueue" where
  "lq_push t q =
     (let q' = buf_write (rear q) t q in
      q'\<lparr>rear := rear q + 1, m_count := m_count q + 1, g_rear := g_rear q + 1\<rparr>)"

text \<open>Consecutive slots, as the copy loops read them.\<close>

fun take_slots :: "nat \<Rightarrow> u16 \<Rightarrow> lqueue \<Rightarrow> nat option list" where
  "take_slots 0 pos q = []"
| "take_slots (Suc k) pos q = buf_read q pos # take_slots k (pos + 1) q"

section \<open>Workers and the global queue\<close>

text \<open>
  Where a worker stands inside an operation. Pushing \<open>t\<close>: about to load \<open>front\<close>;
  about to write; about to claim half of a full buffer from the given position;
  about to copy the claimed half; in \<open>sync_steal_pos\<close> with the copied tasks and
  the value it expects; about to append to the global queue. Stealing from a
  queue, with the own rear position: about to load \<open>front\<close>; about to load \<open>rear\<close>;
  about to claim; about to copy; in \<open>sync_steal_pos\<close> with the task to return. Taking a
  batch from the global queue: about to lock; about to publish.
\<close>

datatype worker_pc =
    WIdle
  | PushLoad nat
  | PushStore nat
  | PushCas nat u16
  | PushCopy nat u16
  | PushSync nat "nat list" u32
  | PushGlobal nat "nat list"
  | StealLoad nat u16
  | StealRear nat u16 u32 nat
  | StealCas nat u16 u32 nat u16
  | StealCopy nat u16 u32 u16
  | StealSync nat u32 nat
  | BatchLock nat
  | BatchStore nat nat u16

record runq =
  queues :: "lqueue list"
  glen :: usize
  gcount :: u64
  gheap :: node_heap
  pcs :: "worker_pc list"
  bad :: bool
  entered :: "nat list"
  taken :: "nat list"

definition GLOBALS :: nat where "GLOBALS = 0"

definition runq_new :: "nat \<Rightarrow> runq" where
  "runq_new n = \<lparr>queues = replicate n lq_new, glen = 0, gcount = 0, gheap = ll_new GLOBALS (\<lambda>_. node_new),
     pcs = replicate n WIdle, bad = False, entered = [], taken = []\<rparr>"

definition upd_q :: "nat \<Rightarrow> lqueue \<Rightarrow> runq \<Rightarrow> runq" where
  "upd_q w q s = s\<lparr>queues := (queues s)[w := q]\<rparr>"

definition set_wpc :: "nat \<Rightarrow> worker_pc \<Rightarrow> runq \<Rightarrow> runq" where
  "set_wpc w pc s = s\<lparr>pcs := (pcs s)[w := pc]\<rparr>"

definition set_bad :: "runq \<Rightarrow> runq" where
  "set_bad s = s\<lparr>bad := True\<rparr>"

definition return_task :: "nat \<Rightarrow> nat \<Rightarrow> runq \<Rightarrow> runq" where
  "return_task w t s = set_wpc w WIdle (s\<lparr>taken := taken s @ [t]\<rparr>)"

text \<open>\<open>GlobalQueue::push_back\<close>, \<open>push_batch\<close> and \<open>pop_front\<close>.\<close>

definition global_is_empty :: "runq \<Rightarrow> bool" where
  "global_is_empty s = (glen s = 0)"

definition global_push_back :: "nat \<Rightarrow> runq \<Rightarrow> runq" where
  "global_push_back t s = s\<lparr>gheap := ll_push_front GLOBALS t (gheap s), glen := glen s + 1, gcount := gcount s + 1\<rparr>"

definition push_batch :: "nat list \<Rightarrow> nat \<Rightarrow> runq \<Rightarrow> runq" where
  "push_batch tasks t s =
     (let n = length tasks + 1; h = fold (ll_push_front GLOBALS) tasks (gheap s) in
      s\<lparr>gheap := ll_push_front GLOBALS t h, glen := glen s + of_nat n, gcount := gcount s + of_nat n\<rparr>)"

definition global_pop_front :: "runq \<Rightarrow> (nat option \<times> runq) option" where
  "global_pop_front s =
     (if global_is_empty s then Some (None, s)
      else (case ll_pop_back GLOBALS (gheap s) of
              None \<Rightarrow> None
            | Some (None, h) \<Rightarrow> Some (None, s\<lparr>gheap := h\<rparr>)
            | Some (Some t, h) \<Rightarrow> Some (Some t, s\<lparr>gheap := h, glen := glen s - 1\<rparr>)))"

section \<open>Steps of the operations\<close>

definition push_load :: "nat \<Rightarrow> nat \<Rightarrow> runq \<Rightarrow> runq" where
  "push_load w t s =
     (let q = queues s ! w; (steal_pos, _) = unwrap_pos (front q) in
      if rear q - steal_pos < cap q then set_wpc w (PushStore t) s else set_wpc w (PushCas t steal_pos) s)"

definition push_store :: "nat \<Rightarrow> nat \<Rightarrow> runq \<Rightarrow> runq" where
  "push_store w t s = set_wpc w WIdle (upd_q w (lq_push t (queues s ! w)) s)"

definition push_overflowed :: "nat \<Rightarrow> nat \<Rightarrow> u16 \<Rightarrow> runq \<Rightarrow> runq" where
  "push_overflowed w t fr s =
     (let q = queues s ! w; prv = wrap_pos fr fr; nx = wrap_pos fr (fr + of_nat (LOCAL_QUEUE_CAP div 2)) in
      if front q = prv
      then set_wpc w (PushCopy t fr) (upd_q w (q\<lparr>front := nx, g_head := g_head q + LOCAL_QUEUE_CAP div 2\<rparr>) s)
      else set_wpc w (PushLoad t) s)"

definition push_copy :: "nat \<Rightarrow> nat \<Rightarrow> u16 \<Rightarrow> runq \<Rightarrow> runq" where
  "push_copy w t fr s =
     (let xs = take_slots (LOCAL_QUEUE_CAP div 2) fr (queues s ! w) in
      if None \<in> set xs then set_bad s
      else set_wpc w (PushSync t (map the xs) (wrap_pos fr (fr + of_nat (LOCAL_QUEUE_CAP div 2)))) s)"

text \<open>
  One round of \<open>sync_steal_pos\<close> on queue \<open>src\<close>: either it succeeds, or it sees another
  value, on which the assertion is checked.
\<close>

definition sync_try :: "u32 \<Rightarrow> lqueue \<Rightarrow> (u32 + lqueue) option" where
  "sync_try prv q =
     (let (_, front_real) = unwrap_pos prv in
      if front q = prv then Some (Inr (q\<lparr>front := wrap_pos front_real front_real, g_steal := g_head q\<rparr>))
      else let (actual_steal, actual_real) = unwrap_pos (front q) in
        if actual_steal = actual_real then None else Some (Inl (front q)))"

definition push_sync :: "nat \<Rightarrow> nat \<Rightarrow> nat list \<Rightarrow> u32 \<Rightarrow> runq \<Rightarrow> runq" where
  "push_sync w t xs prv s =
     (case sync_try prv (queues s ! w) of
        None \<Rightarrow> set_bad s
      | Some (Inl actual) \<Rightarrow> set_wpc w (PushSync t xs actual) s
      | Some (Inr q) \<Rightarrow> set_wpc w (PushGlobal t xs) (upd_q w (q\<lparr>m_to_global := m_to_global q + of_nat (length xs) + 1\<rparr>) s))"

definition push_global :: "nat \<Rightarrow> nat \<Rightarrow> nat list \<Rightarrow> runq \<Rightarrow> runq" where
  "push_global w t xs s = set_wpc w WIdle (push_batch xs t s)"

definition steal_start :: "nat \<Rightarrow> nat \<Rightarrow> runq \<Rightarrow> runq" where
  "steal_start w src s =
     (let q = queues s ! w in
      if is_half_full (rear q) q then s else set_wpc w (StealLoad src (rear q)) s)"

text \<open>The head of the claiming loop, on a value of \<open>front\<close> just seen.\<close>

definition steal_seen :: "nat \<Rightarrow> nat \<Rightarrow> u16 \<Rightarrow> runq \<Rightarrow> runq" where
  "steal_seen w src dst_rear s =
     (let fw = front (queues s ! src); (src_steal, src_real) = unwrap_pos fw in
      if src_steal \<noteq> src_real then set_wpc w WIdle s
      else set_wpc w (StealRear src dst_rear fw (g_head (queues s ! src))) s)"

definition steal_rear :: "nat \<Rightarrow> nat \<Rightarrow> u16 \<Rightarrow> u32 \<Rightarrow> nat \<Rightarrow> runq \<Rightarrow> runq" where
  "steal_rear w src dst_rear fw g s =
     (let src_rear = rear (queues s ! src); (_, src_real) = unwrap_pos fw; m = src_rear - src_real; n = m - m div 2 in
      if n = 0 then set_wpc w WIdle s else set_wpc w (StealCas src dst_rear fw g n) s)"

definition steal_claim :: "nat \<Rightarrow> nat \<Rightarrow> u16 \<Rightarrow> u32 \<Rightarrow> u16 \<Rightarrow> runq \<Rightarrow> runq" where
  "steal_claim w src dst_rear fw n s =
     (let q = queues s ! src; (src_steal, src_real) = unwrap_pos fw; nx = wrap_pos src_steal (src_real + n) in
      if front q = fw
      then set_wpc w (StealCopy src dst_rear nx n) (upd_q src (q\<lparr>front := nx, g_head := g_head q + unat n\<rparr>) s)
      else steal_seen w src dst_rear s)"

fun copy_tasks :: "nat \<Rightarrow> nat \<Rightarrow> nat \<Rightarrow> u16 \<Rightarrow> u16 \<Rightarrow> lqueue list \<Rightarrow> (lqueue list \<times> u16 \<times> u16) option" where
  "copy_tasks 0 src dst sp dp qs = Some (qs, sp, dp)"
| "copy_tasks (Suc k) src dst sp dp qs =
     (case buf_read (qs ! src) sp of
        None \<Rightarrow> None
      | Some t \<Rightarrow> copy_tasks k src dst (sp + 1) (dp + 1) (qs[dst := buf_write dp t (qs ! dst)]))"

definition steal_copy :: "nat \<Rightarrow> nat \<Rightarrow> u16 \<Rightarrow> u32 \<Rightarrow> u16 \<Rightarrow> runq \<Rightarrow> runq" where
  "steal_copy w src dst_rear nx cnt s =
     (let (src_steal, _) = unwrap_pos nx; k = unat (cnt - 1) in
      case copy_tasks k src w src_steal dst_rear (queues s) of
        None \<Rightarrow> set_bad s
      | Some (qs, sp, dp) \<Rightarrow>
          (case buf_read (qs ! src) sp of
             None \<Rightarrow> set_bad s
           | Some t \<Rightarrow>
               let s' = s\<lparr>queues := qs\<rparr>; d = qs ! w in
               set_wpc w (StealSync src nx t)
                 (if k \<noteq> 0 then upd_q w (d\<lparr>rear := dp, g_rear := g_rear d + k\<rparr>) s' else s')))"

definition steal_sync :: "nat \<Rightarrow> nat \<Rightarrow> u32 \<Rightarrow> nat \<Rightarrow> runq \<Rightarrow> runq" where
  "steal_sync w src prv t s =
     (case sync_try prv (queues s ! src) of
        None \<Rightarrow> set_bad s
      | Some (Inl actual) \<Rightarrow> set_wpc w (StealSync src actual t) s
      | Some (Inr q) \<Rightarrow> return_task w t (upd_q src q s))"

text \<open>\<open>pop_batch\<close>: the number of tasks is computed before the lock is taken.\<close>

definition batch_start :: "nat \<Rightarrow> nat \<Rightarrow> runq \<Rightarrow> runq" where
  "batch_start w limit s = set_wpc w (BatchLock (min (unat (glen s) div length (queues s)) limit)) s"

fun batch_loop :: "nat \<Rightarrow> node_heap \<Rightarrow> lqueue \<Rightarrow> u16 \<Rightarrow> nat \<Rightarrow> (node_heap \<times> lqueue \<times> u16 \<times> nat) option" where
  "batch_loop 0 h q cur cnt = Some (h, q, cur, cnt)"
| "batch_loop (Suc k) h q cur cnt =
     (case ll_pop_back GLOBALS h of
        None \<Rightarrow> None
      | Some (None, h') \<Rightarrow> Some (h', q, cur, cnt)
      | Some (Some t, h') \<Rightarrow> batch_loop k h' (buf_write cur t q) (cur + 1) (cnt + 1))"

definition batch_take :: "nat \<Rightarrow> nat \<Rightarrow> runq \<Rightarrow> runq" where
  "batch_take w num s =
     (case ll_pop_back GLOBALS (gheap s) of
        None \<Rightarrow> set_bad s
      | Some (None, h) \<Rightarrow> set_wpc w WIdle (s\<lparr>gheap := h\<rparr>)
      | Some (Some t, h) \<Rightarrow>
          (case batch_loop (num - 1) h (queues s ! w) (rear (queues s ! w)) 1 of
             None \<Rightarrow> set_bad s
           | Some (h', q, cur, cnt) \<Rightarrow> set_wpc w (BatchStore t cnt cur) (upd_q w q (s\<lparr>gheap := h'\<rparr>))))"

definition batch_store :: "nat \<Rightarrow> nat \<Rightarrow> nat \<Rightarrow> u16 \<Rightarrow> runq \<Rightarrow> runq" where
  "batch_store w t cnt cur s =
     (let q = queues s ! w in
      return_task w t (upd_q w (q\<lparr>rear := cur, m_from_global := m_from_global q + 1, g_rear := g_rear q + (cnt - 1)\<rparr>)
        (s\<lparr>glen := glen s - of_nat cnt\<rparr>)))"

definition pop_local :: "nat \<Rightarrow> runq \<Rightarrow> runq" where
  "pop_local w s =
     (case lq_pop_front (queues s ! w) of
        (None, _) \<Rightarrow> s
      | (Some None, _) \<Rightarrow> set_bad s
      | (Some (Some t), q) \<Rightarrow> return_task w t (upd_q w q s))"
section \<open>The system\<close>

text \<open>
  A task may enter when it is not inside already. Between loading \<open>front\<close> and the
  compare-exchange of a steal the head of the victim moves less than once around its 16 bits;
  the length of the global queue fits its word.
\<close>

definition idle :: "nat \<Rightarrow> runq \<Rightarrow> bool" where
  "idle w s = (w < length (pcs s) \<and> pcs s ! w = WIdle)"

definition fresh :: "nat \<Rightarrow> runq \<Rightarrow> bool" where
  "fresh t s = (t \<noteq> GLOBALS \<and> count_list (entered s) t = count_list (taken s) t \<and>
     length (entered s) + 1 < length (taken s) + 2 ^ 64)"

definition enter :: "nat \<Rightarrow> runq \<Rightarrow> runq" where
  "enter t s = s\<lparr>entered := entered s @ [t]\<rparr>"

datatype rq_event = Push nat nat | PopFront nat | Steal nat nat | PopBatch nat nat | WStep nat
  | GlobalPush nat | GlobalPop

definition w_step :: "nat \<Rightarrow> runq \<Rightarrow> runq option" where
  "w_step w s =
     (case pcs s ! w of
        WIdle \<Rightarrow> None
      | PushLoad t \<Rightarrow> Some (push_load w t s)
      | PushStore t \<Rightarrow> Some (push_store w t s)
      | PushCas t fr \<Rightarrow> Some (push_overflowed w t fr s)
      | PushCopy t fr \<Rightarrow> Some (push_copy w t fr s)
      | PushSync t xs prv \<Rightarrow> Some (push_sync w t xs prv s)
      | PushGlobal t xs \<Rightarrow> Some (push_global w t xs s)
      | StealLoad src dr \<Rightarrow> Some (steal_seen w src dr s)
      | StealRear src dr fw g \<Rightarrow> Some (steal_rear w src dr fw g s)
      | StealCas src dr fw g n \<Rightarrow>
          if g_head (queues s ! src) < g + 2 ^ 16 then Some (steal_claim w src dr fw n s) else None
      | StealCopy src dr nx n \<Rightarrow> Some (steal_copy w src dr nx n s)
      | StealSync src prv t \<Rightarrow> Some (steal_sync w src prv t s)
      | BatchLock num \<Rightarrow> Some (batch_take w num s)
      | BatchStore t cnt cur \<Rightarrow> Some (batch_store w t cnt cur s))"

fun rq_step :: "rq_event \<Rightarrow> runq \<Rightarrow> runq option" where
  "rq_step (Push w t) s = (if idle w s \<and> fresh t s then Some (set_wpc w (PushLoad t) (enter t s)) else None)"
| "rq_step (PopFront w) s = (if idle w s then Some (pop_local w s) else None)"
| "rq_step (Steal w src) s = (if idle w s \<and> src < length (queues s) then Some (steal_start w src s) else None)"
| "rq_step (PopBatch w limit) s =
     (if idle w s \<and> limit \<le> unat (remaining (queues s ! w)) then Some (batch_start w limit s) else None)"
| "rq_step (WStep w) s = (if w < length (pcs s) then w_step w s else None)"
| "rq_step (GlobalPush t) s = (if fresh t s then Some (global_push_back t (enter t s)) else None)"
| "rq_step GlobalPop s =
     (case global_pop_front s of
        None \<Rightarrow> Some (set_bad s)
      | Some (None, s') \<Rightarrow> Some s'
      | Some (Some t, s') \<Rightarrow> Some (s'\<lparr>taken := taken s @ [t]\<rparr>))"

inductive rq_reachable :: "runq \<Rightarrow> bool" where
  rq_created: "0 < n \<Longrightarrow> rq_reachable (runq_new n)"
| rq_stepped: "rq_reachable s \<Longrightarrow> rq_step e s = Some t \<Longrightarrow> rq_reachable t"

fun rq_run :: "rq_event list \<Rightarrow> runq \<Rightarrow> runq option" where
  "rq_run [] s = Some s"
| "rq_run (e # es) s = (case rq_step e s of None \<Rightarrow> None | Some t \<Rightarrow> rq_run es t)"

text \<open>Dropping a queue: what is left is shut down, in order.\<close>

partial_function (option) lq_drop :: "lqueue \<Rightarrow> nat option list \<Rightarrow> (nat option list \<times> lqueue) option" where
  "lq_drop q acc =
     (case lq_pop_front q of
        (None, q') \<Rightarrow> Some (acc, q')
      | (Some t, q') \<Rightarrow> lq_drop q' (acc @ [t]))"

partial_function (option) global_drop :: "runq \<Rightarrow> nat list \<Rightarrow> (nat list \<times> runq) option" where
  "global_drop s acc =
     (if global_is_empty s then Some (acc, s)
      else (case global_pop_front s of
              Some (Some t, s') \<Rightarrow> global_drop s' (acc @ [t])
            | _ \<Rightarrow> None))"

declare lq_drop.simps [code]
declare global_drop.simps [code]

section \<open>Positions\<close>

lemma unwrap_pos_mask: "unwrap_pos num = (ucast (drop_bit 16 num), ucast (take_bit 16 num))"
proof -
  have "(0xFFFF :: u32) = mask 16" by (simp add: mask_eq_exp_minus_1)
  then show ?thesis by (simp only: unwrap_pos_def take_bit_eq_mask)
qed

lemma unwrap_wrap [simp]: "unwrap_pos (wrap_pos a b) = (a, b)"
proof -
  have "\<not> bit b (16 + n)" for n using bit_imp_le_length [of b "16 + n"] by auto
  then show ?thesis
    unfolding unwrap_pos_mask wrap_pos_def by (auto intro!: bit_word_eqI simp: bit_simps)
qed

lemma wrap_unwrap: "wrap_pos (fst (unwrap_pos w)) (snd (unwrap_pos w)) = w"
proof (rule bit_word_eqI)
  fix n assume "n < LENGTH(32)"
  then show "bit (wrap_pos (fst (unwrap_pos w)) (snd (unwrap_pos w))) n = bit w n"
    unfolding unwrap_pos_mask wrap_pos_def by (cases "n < 16") (auto simp: bit_simps)
qed

lemma slot_index: "unat ((of_nat i :: u16) AND MASK) = i mod 256"
proof -
  have "MASK = mask 8" by (simp add: MASK_def mask_eq_exp_minus_1)
  then have "unat ((of_nat i :: u16) AND MASK) = unat (take_bit 8 (of_nat i :: u16))" by (simp only: take_bit_eq_mask)
  also have "\<dots> = i mod 65536 mod 256" by (simp add: take_bit_eq_mod unat_mod unat_of_nat)
  also have "\<dots> = i mod 256" by (simp add: mod_mod_cancel)
  finally show ?thesis .
qed

lemma pos_eq: "of_nat i = (of_nat j :: u16) \<Longrightarrow> j \<le> i \<Longrightarrow> i < j + 2 ^ 16 \<Longrightarrow> i = j"
proof -
  assume a: "of_nat i = (of_nat j :: u16)" "j \<le> i" "i < j + 2 ^ 16"
  then have "of_nat (i - j) = (0 :: u16)" by simp
  then have "unat (of_nat (i - j) :: u16) = 0" by simp
  then have "(i - j) mod 2 ^ 16 = 0" by (simp only: unat_of_nat) simp
  with a show "i = j" by simp
qed

lemma pos_eq_iff: "j \<le> i \<Longrightarrow> i < j + 2 ^ 16 \<Longrightarrow> of_nat j = (of_nat i :: u16) \<longleftrightarrow> j = i"
  using pos_eq [of i j] by metis

lemma pos_sub: "j \<le> i \<Longrightarrow> i < j + 2 ^ 16 \<Longrightarrow> unat (of_nat i - of_nat j :: u16) = i - j"
  by (simp add: of_nat_diff [symmetric] unat_of_nat del: of_nat_diff)

lemma window_index: "a \<le> i \<Longrightarrow> i < j \<Longrightarrow> j < a + 256 \<Longrightarrow> i mod 256 \<noteq> j mod (256 :: nat)"
proof
  assume a: "a \<le> i" "i < j" "j < a + 256" "i mod 256 = j mod 256"
  then have "256 dvd j - i" by (metis mod_eq_dvd_iff_nat less_imp_le)
  with a show False by (auto dest: dvd_imp_le)
qed

section \<open>Invariant of one queue\<close>

definition slot :: "lqueue \<Rightarrow> nat \<Rightarrow> nat option" where
  "slot q i = buffer q ! (i mod 256)"

definition window :: "lqueue \<Rightarrow> nat \<Rightarrow> nat \<Rightarrow> nat list" where
  "window q a b = map (\<lambda>i. the (slot q i)) [a..<b]"

definition live :: "lqueue \<Rightarrow> nat list" where
  "live q = window q (g_head q) (g_rear q)"

definition q_ok :: "lqueue \<Rightarrow> bool" where
  "q_ok q \<longleftrightarrow> length (buffer q) = 256 \<and> cap q = 256 \<and>
     front q = wrap_pos (of_nat (g_steal q)) (of_nat (g_head q)) \<and> rear q = of_nat (g_rear q) \<and>
     g_steal q \<le> g_head q \<and> g_head q \<le> g_rear q \<and> g_rear q \<le> g_steal q + 256 \<and>
     (\<forall>i. g_steal q \<le> i \<and> i < g_rear q \<longrightarrow> slot q i \<noteq> None)"

lemma q_ok_new: "q_ok lq_new"
  by (simp add: q_ok_def lq_new_def LOCAL_QUEUE_CAP_def wrap_pos_def)

lemma q_ok_words:
  assumes "q_ok q"
  shows "unwrap_pos (front q) = (of_nat (g_steal q), of_nat (g_head q))"
    "rear q = of_nat (g_rear q)" "unat (rear q - of_nat (g_steal q)) = g_rear q - g_steal q"
    "unat (rear q - of_nat (g_head q)) = g_rear q - g_head q" "cap q = 256"
    "of_nat (g_steal q) = (of_nat (g_head q) :: u16) \<longleftrightarrow> g_steal q = g_head q"
    "of_nat (g_head q) = rear q \<longleftrightarrow> g_head q = g_rear q"
  using assms by (simp_all add: q_ok_def pos_sub pos_eq_iff)

lemma buf_read_slot: "buf_read q (of_nat i) = slot q i"
  by (simp add: buf_read_def slot_index slot_def)

lemma buf_write_slot:
  assumes "length (buffer q) = 256"
  shows "slot (buf_write (of_nat i) t q) j = (if j mod 256 = i mod 256 then Some t else slot q j)"
  using assms by (simp add: slot_def buf_write_def slot_index)

lemma buf_write_sel [simp]:
  "front (buf_write p t q) = front q" "rear (buf_write p t q) = rear q" "cap (buf_write p t q) = cap q"
  "g_steal (buf_write p t q) = g_steal q" "g_head (buf_write p t q) = g_head q" "g_rear (buf_write p t q) = g_rear q"
  "length (buffer (buf_write p t q)) = length (buffer q)"
  by (simp_all add: buf_write_def)

text \<open>Fields that do not hold tasks do not change the slots.\<close>

lemma slot_upd [simp]:
  "slot (q\<lparr>front := a\<rparr>) = slot q" "slot (q\<lparr>rear := b\<rparr>) = slot q" "slot (q\<lparr>m_count := c\<rparr>) = slot q"
  "slot (q\<lparr>m_from_global := c\<rparr>) = slot q" "slot (q\<lparr>m_to_global := c\<rparr>) = slot q"
  "slot (q\<lparr>g_steal := d\<rparr>) = slot q" "slot (q\<lparr>g_head := d\<rparr>) = slot q" "slot (q\<lparr>g_rear := d\<rparr>) = slot q"
  by (simp_all add: slot_def fun_eq_iff)

lemma window_cong: "(\<And>i. a \<le> i \<Longrightarrow> i < b \<Longrightarrow> slot q' i = slot q i) \<Longrightarrow> window q' a b = window q a b"
  by (simp add: window_def)

lemma window_snoc: "a \<le> b \<Longrightarrow> window q a (Suc b) = window q a b @ [the (slot q b)]"
  by (simp add: window_def)

lemma window_first: "a < b \<Longrightarrow> window q a b = the (slot q a) # window q (Suc a) b"
  by (simp add: window_def upt_conv_Cons)

lemma window_append: "a \<le> b \<Longrightarrow> b \<le> c \<Longrightarrow> window q a c = window q a b @ window q b c"
  using upt_add_eq_append [of a b "c - b"] by (simp add: window_def)

lemma window_empty [simp]: "b \<le> a \<Longrightarrow> window q a b = []"
  by (simp add: window_def)

lemma length_window [simp]: "length (window q a b) = b - a"
  by (simp add: window_def)

lemma slot_push:
  assumes "q_ok q" "a \<le> i" "i < g_rear q" "g_rear q < a + 256"
  shows "slot (buf_write (rear q) t q) i = slot q i"
  using assms window_index [of a i "g_rear q"] by (simp add: q_ok_words(2) buf_write_slot q_ok_def)

lemma lq_push_ok:
  assumes "q_ok q" "g_rear q < g_steal q + 256"
  shows "q_ok (lq_push t q)" "live (lq_push t q) = live q @ [t]"
    "\<And>i. g_steal q \<le> i \<Longrightarrow> i < g_rear q \<Longrightarrow> slot (lq_push t q) i = slot q i"
    "g_steal (lq_push t q) = g_steal q" "g_head (lq_push t q) = g_head q" "g_rear (lq_push t q) = g_rear q + 1"
proof -
  show k: "slot (lq_push t q) i = slot q i" if "g_steal q \<le> i" "i < g_rear q" for i
    using slot_push [OF assms(1) that assms(2)] by (simp add: lq_push_def Let_def)
  have r: "slot (lq_push t q) (g_rear q) = Some t"
    using assms(1) by (simp add: lq_push_def Let_def buf_write_slot q_ok_words(2) q_ok_def)
  show l: "g_steal (lq_push t q) = g_steal q" "g_head (lq_push t q) = g_head q" "g_rear (lq_push t q) = g_rear q + 1"
    by (simp_all add: lq_push_def Let_def)
  have "slot (lq_push t q) i \<noteq> None" if "g_steal q \<le> i" "i < g_rear q + 1" for i
    using that k [of i] r assms(1) by (cases "i = g_rear q") (auto simp: q_ok_def)
  then show "q_ok (lq_push t q)"
    using assms l by (simp add: q_ok_def) (simp add: lq_push_def Let_def add.commute)
  have "window (lq_push t q) (g_head q) (g_rear q) = window q (g_head q) (g_rear q)"
    using assms(1) by (intro window_cong k) (auto simp: q_ok_def)
  with r assms(1) show "live (lq_push t q) = live q @ [t]"
    by (simp add: live_def l window_snoc q_ok_def)
qed

lemma lq_pop_front_ok:
  assumes "q_ok q"
  shows "case live q of
      [] \<Rightarrow> lq_pop_front q = (None, q)
    | t # ts \<Rightarrow> \<exists>q'. lq_pop_front q = (Some (Some t), q') \<and> q_ok q' \<and> live q' = ts \<and> slot q' = slot q \<and>
        g_head q' = g_head q + 1 \<and> g_rear q' = g_rear q \<and>
        g_steal q' = (if g_steal q = g_head q then g_head q + 1 else g_steal q)"
proof (cases "g_head q = g_rear q")
  case True
  then show ?thesis
    using q_ok_words [OF assms] by (simp add: live_def lq_pop_front_def pop_front_try_def atomically_def)
next
  case False
  with assms have lt: "g_head q < g_rear q" "slot q (g_head q) \<noteq> None" by (auto simp: q_ok_def)
  then have l: "live q = the (slot q (g_head q)) # window q (g_head q + 1) (g_rear q)"
    by (simp add: live_def window_first)
  let ?q = "snd (lq_pop_front q)"
  have e: "lq_pop_front q = (Some (slot q (g_head q)), ?q)"
    "?q = q\<lparr>front := wrap_pos (of_nat (if g_steal q = g_head q then g_head q + 1 else g_steal q)) (of_nat (g_head q + 1)),
        g_head := g_head q + 1, g_steal := (if g_steal q = g_head q then g_head q + 1 else g_steal q)\<rparr>"
    using q_ok_words [OF assms] False
    by (simp_all add: lq_pop_front_def pop_front_try_def atomically_def Let_def buf_read_slot add.commute)
  have "q_ok ?q" using assms lt unfolding e(2) by (auto simp: q_ok_def)
  moreover have "live ?q = window q (g_head q + 1) (g_rear q)"
    unfolding e(2) live_def by (simp add: window_def)
  ultimately show ?thesis using l lt e by auto
qed

section \<open>Invariant of the system\<close>

text \<open>The queue a worker has claimed tasks of, which it alone may give up again.\<close>

fun claim :: "nat \<Rightarrow> worker_pc \<Rightarrow> nat option" where
  "claim w (PushCopy t fr) = Some w"
| "claim w (PushSync t xs prv) = Some w"
| "claim w (StealCopy src dr nx n) = Some src"
| "claim w (StealSync src prv t) = Some src"
| "claim w _ = None"

definition half_ok :: "lqueue \<Rightarrow> u16 \<Rightarrow> bool" where
  "half_ok q dr \<longleftrightarrow> dr = of_nat (g_rear q) \<and> g_rear q \<le> g_steal q + 128"

fun pc_ok :: "lqueue list \<Rightarrow> nat \<Rightarrow> worker_pc \<Rightarrow> bool" where
  "pc_ok qs w (PushStore t) \<longleftrightarrow> g_rear (qs ! w) < g_steal (qs ! w) + 256"
| "pc_ok qs w (PushCas t fr) \<longleftrightarrow> (\<exists>f. f \<le> g_steal (qs ! w) \<and> fr = of_nat f \<and> g_rear (qs ! w) = f + 256)"
| "pc_ok qs w (PushCopy t fr) \<longleftrightarrow> fr = of_nat (g_steal (qs ! w)) \<and> g_steal (qs ! w) + 128 \<le> g_head (qs ! w)"
| "pc_ok qs w (PushSync t xs prv) \<longleftrightarrow> g_steal (qs ! w) < g_head (qs ! w)"
| "pc_ok qs w (StealLoad src dr) \<longleftrightarrow> src < length qs \<and> half_ok (qs ! w) dr"
| "pc_ok qs w (StealRear src dr fw g) \<longleftrightarrow>
     src < length qs \<and> half_ok (qs ! w) dr \<and> g \<le> g_head (qs ! src) \<and> fw = wrap_pos (of_nat g) (of_nat g)"
| "pc_ok qs w (StealCas src dr fw g n) \<longleftrightarrow>
     src < length qs \<and> half_ok (qs ! w) dr \<and> g \<le> g_head (qs ! src) \<and> fw = wrap_pos (of_nat g) (of_nat g) \<and> n \<noteq> 0 \<and>
     (g_head (qs ! src) = g \<longrightarrow> unat n \<le> 128 \<and> g + unat n \<le> g_rear (qs ! src))"
| "pc_ok qs w (StealCopy src dr nx n) \<longleftrightarrow>
     src < length qs \<and> half_ok (qs ! w) dr \<and> fst (unwrap_pos nx) = of_nat (g_steal (qs ! src)) \<and>
     0 < unat n \<and> unat n \<le> 128 \<and> g_steal (qs ! src) + unat n \<le> g_head (qs ! src)"
| "pc_ok qs w (StealSync src prv t) \<longleftrightarrow> src < length qs \<and> g_steal (qs ! src) < g_head (qs ! src)"
| "pc_ok qs w (BatchLock num) \<longleftrightarrow> g_rear (qs ! w) + num \<le> g_steal (qs ! w) + 256"
| "pc_ok qs w (BatchStore t cnt cur) \<longleftrightarrow>
     1 \<le> cnt \<and> cur = of_nat (g_rear (qs ! w) + (cnt - 1)) \<and> g_rear (qs ! w) + (cnt - 1) \<le> g_steal (qs ! w) + 256 \<and>
     (\<forall>i. g_rear (qs ! w) \<le> i \<and> i < g_rear (qs ! w) + (cnt - 1) \<longrightarrow> slot (qs ! w) i \<noteq> None)"
| "pc_ok qs w _ \<longleftrightarrow> True"

text \<open>The tasks a worker holds in the middle of an operation.\<close>

fun inflight :: "lqueue list \<Rightarrow> nat \<Rightarrow> worker_pc \<Rightarrow> nat multiset" where
  "inflight qs w (PushLoad t) = {#t#}"
| "inflight qs w (PushStore t) = {#t#}"
| "inflight qs w (PushCas t fr) = {#t#}"
| "inflight qs w (PushCopy t fr) = add_mset t (mset (window (qs ! w) (g_steal (qs ! w)) (g_steal (qs ! w) + 128)))"
| "inflight qs w (PushSync t xs prv) = add_mset t (mset xs)"
| "inflight qs w (PushGlobal t xs) = add_mset t (mset xs)"
| "inflight qs w (StealCopy src dr nx n) = mset (window (qs ! src) (g_steal (qs ! src)) (g_steal (qs ! src) + unat n))"
| "inflight qs w (StealSync src prv t) = {#t#}"
| "inflight qs w (BatchStore t cnt cur) = add_mset t (mset (window (qs ! w) (g_rear (qs ! w)) (g_rear (qs ! w) + (cnt - 1))))"
| "inflight qs w _ = {#}"

text \<open>Tasks taken from the global queue that its length still counts.\<close>

fun pend :: "worker_pc \<Rightarrow> nat" where
  "pend (BatchStore t cnt cur) = cnt"
| "pend _ = 0"

definition lives :: "lqueue list \<Rightarrow> nat multiset" where
  "lives qs = (\<Sum>q<length qs. mset (live (qs ! q)))"

definition inflights :: "lqueue list \<Rightarrow> worker_pc list \<Rightarrow> nat multiset" where
  "inflights qs ps = (\<Sum>w<length ps. inflight qs w (ps ! w))"

definition pends :: "worker_pc list \<Rightarrow> nat" where
  "pends ps = (\<Sum>w<length ps. pend (ps ! w))"

definition stealing :: "lqueue \<Rightarrow> bool" where
  "stealing q \<longleftrightarrow> g_steal q < g_head q"

definition claims_ok :: "lqueue list \<Rightarrow> worker_pc list \<Rightarrow> bool" where
  "claims_ok qs ps \<longleftrightarrow>
     (\<forall>q<length qs. stealing (qs ! q) \<longleftrightarrow> (\<exists>w<length ps. claim w (ps ! w) = Some q)) \<and>
     (\<forall>v<length ps. \<forall>w<length ps. claim v (ps ! v) \<noteq> None \<and> claim v (ps ! v) = claim w (ps ! w) \<longrightarrow> v = w)"

definition rq_inv :: "runq \<Rightarrow> nat list \<Rightarrow> bool" where
  "rq_inv s gl \<longleftrightarrow>
     0 < length (queues s) \<and> length (pcs s) = length (queues s) \<and> \<not> bad s \<and>
     (\<forall>q<length (queues s). q_ok (queues s ! q)) \<and>
     (\<forall>w<length (queues s). pc_ok (queues s) w (pcs s ! w)) \<and> claims_ok (queues s) (pcs s) \<and>
     list_ok GLOBALS (gheap s) gl \<and> glen s = of_nat (length gl + pends (pcs s)) \<and>
     mset (entered s) = mset (taken s) + (lives (queues s) + inflights (queues s) (pcs s) + mset gl) \<and>
     (\<forall>t. count_list (entered s) t \<le> count_list (taken s) t + 1) \<and> GLOBALS \<notin> set (entered s) \<and>
     length (entered s) < length (taken s) + 2 ^ 64"

lemma claim_bound: "pc_ok qs w pc \<Longrightarrow> w < length qs \<Longrightarrow> claim w pc = Some q \<Longrightarrow> q < length qs"
  by (cases pc) auto

text \<open>
  What one worker \<open>w\<close> may do to queue \<open>k\<close>: positions only move forward, tasks that
  are in the buffer stay where they are, and only the owner moves the rear.
\<close>

definition q_le :: "bool \<Rightarrow> lqueue \<Rightarrow> lqueue \<Rightarrow> bool" where
  "q_le owner q q' \<longleftrightarrow> g_steal q \<le> g_steal q' \<and> g_head q \<le> g_head q' \<and> g_rear q \<le> g_rear q' \<and>
     (\<forall>i. g_steal q \<le> i \<and> i < g_rear q \<longrightarrow> slot q' i = slot q i) \<and>
     (\<not> owner \<longrightarrow> g_rear q' = g_rear q \<and> slot q' = slot q)"

lemma q_le_refl [simp]: "q_le b q q"
  by (simp add: q_le_def)

lemma pc_ok_stable:
  assumes "pc_ok qs v pc" "v < length qs" "k < length qs" "q_ok (qs ! k)"
    "q_le (k \<noteq> v) (qs ! k) x" "claim v pc = Some k \<Longrightarrow> g_steal x = g_steal (qs ! k)"
  shows "pc_ok (qs[k := x]) v pc" "inflight (qs[k := x]) v pc = inflight qs v pc"
proof -
  have w: "window x (g_steal (qs ! k)) (g_steal (qs ! k) + m) = window (qs ! k) (g_steal (qs ! k)) (g_steal (qs ! k) + m)"
    if "g_steal (qs ! k) + m \<le> g_head (qs ! k)" for m
    using assms(4,5) that by (intro window_cong) (auto simp: q_le_def q_ok_def)
  have s: "window x a b = window (qs ! k) a b" if "v = k" for a b
    using assms(5) that by (simp add: window_def q_le_def)
  show "pc_ok (qs[k := x]) v pc"
    using assms(1-3,5,6) by (cases pc) (auto simp: nth_list_update q_le_def half_ok_def split: if_splits)
  show "inflight (qs[k := x]) v pc = inflight qs v pc"
    using assms(1-3,5,6) by (cases pc) (auto simp: nth_list_update q_le_def w s split: if_splits)
qed

lemma q_le_weaken: "q_le b q q' \<Longrightarrow> (b \<Longrightarrow> c) \<Longrightarrow> q_le c q q'"
  by (auto simp: q_le_def)

text \<open>How the claims may change when worker \<open>w\<close> goes from \<open>pc\<close> to \<open>pc'\<close> and queue \<open>k\<close> from \<open>q\<close> to \<open>x\<close>.\<close>

definition claim_step :: "nat \<Rightarrow> nat \<Rightarrow> lqueue \<Rightarrow> lqueue \<Rightarrow> worker_pc \<Rightarrow> worker_pc \<Rightarrow> bool" where
  "claim_step w k q x pc pc' \<longleftrightarrow>
     (claim w pc' = claim w pc \<and> stealing x = stealing q) \<or>
     (claim w pc = None \<and> claim w pc' = Some k \<and> \<not> stealing q \<and> stealing x) \<or>
     (claim w pc = Some k \<and> claim w pc' = None \<and> \<not> stealing x)"

lemma claims_ok_step:
  assumes "claims_ok qs ps" "w < length ps" "k < length qs" "claim_step w k (qs ! k) x (ps ! w) pc'"
  shows "claims_ok (qs[k := x]) (ps[w := pc'])"
proof -
  have c: "\<And>q. q < length qs \<Longrightarrow> stealing (qs ! q) \<longleftrightarrow> (\<exists>w<length ps. claim w (ps ! w) = Some q)"
    and u: "\<And>v w. v < length ps \<Longrightarrow> w < length ps \<Longrightarrow> claim v (ps ! v) \<noteq> None \<Longrightarrow> claim v (ps ! v) = claim w (ps ! w) \<Longrightarrow> v = w"
    using assms(1) unfolding claims_ok_def by blast+
  define f where "f v = claim v (ps ! v)" for v
  define g where "g v = claim v (ps[w := pc'] ! v)" for v
  have n: "g v = (if v = w then g w else f v)" if "v < length ps" for v
    using that assms(2) by (simp add: nth_list_update f_def g_def)
  have gw: "g w = claim w pc'" using assms(2) by (simp add: g_def)
  have st: "stealing (qs[k := x] ! q) = (if q = k then stealing x else stealing (qs ! q))" for q
    using assms(3) by (simp add: nth_list_update)
  note a = assms(4) [unfolded claim_step_def gw [symmetric] f_def [symmetric]]
  note c = c [folded f_def] and u = u [folded f_def]
  have A: "stealing (qs[k := x] ! q) = (\<exists>v<length ps. g v = Some q)" if "q < length qs" for q
  proof -
    have 1: "(\<exists>v<length ps. g v = Some q) \<longleftrightarrow> g w = Some q \<or> (\<exists>v<length ps. v \<noteq> w \<and> f v = Some q)"
      using n assms(2) by metis
    have 2: "stealing (qs ! q) \<longleftrightarrow> f w = Some q \<or> (\<exists>v<length ps. v \<noteq> w \<and> f v = Some q)"
      using c [OF that] assms(2) by metis
    have 3: "f w = Some k \<Longrightarrow> \<not> (\<exists>v<length ps. v \<noteq> w \<and> f v = Some k)"
      using u assms(2) by (metis option.distinct(1))
    show ?thesis
    proof (cases "q = k")
      case True
      then show ?thesis unfolding st 1 using a 2 3 by auto
    next
      case False
      then show ?thesis unfolding st 1 using a 2 by auto
    qed
  qed
  have B: "v = v'" if v: "v < length ps" "v' < length ps" "g v \<noteq> None" "g v = g v'" for v v'
  proof -
    have o: "f y \<noteq> g w" if "y < length ps" "y \<noteq> w" "g w \<noteq> None" for y
      using a u [of w y] c [OF assms(3)] that assms(2) by auto
    show ?thesis
      using v u o n by (metis (full_types))
  qed
  show ?thesis unfolding claims_ok_def length_list_update using A B unfolding g_def by blast
qed

lemma lives_upd: "k < length qs \<Longrightarrow> lives (qs[k := x]) + mset (live (qs ! k)) = lives qs + mset (live x)"
  unfolding lives_def length_list_update
  using sum_change [of k "length qs" "\<lambda>q. mset (live (qs[k := x] ! q))" "\<lambda>q. mset (live (qs ! q))"] by simp

lemma pends_upd: "w < length ps \<Longrightarrow> pends (ps[w := pc]) + pend (ps ! w) = pends ps + pend pc"
  unfolding pends_def
  using sum_change [of w "length ps" "\<lambda>v. pend (ps[w := pc] ! v)" "\<lambda>v. pend (ps ! v)"] by simp

lemma inflights_upd:
  assumes "w < length ps" "\<And>v. v < length ps \<Longrightarrow> v \<noteq> w \<Longrightarrow> inflight qs' v (ps ! v) = inflight qs v (ps ! v)"
  shows "inflights qs' (ps[w := pc]) + inflight qs w (ps ! w) = inflights qs ps + inflight qs' w pc"
  unfolding inflights_def
  using sum_change [of w "length ps" "\<lambda>v. inflight qs' v (ps[w := pc] ! v)" "\<lambda>v. inflight qs v (ps ! v)"] assms by simp
text \<open>One step of worker \<open>w\<close> that changes queue \<open>k\<close> keeps the invariant.\<close>

lemma rq_inv_step:
  assumes inv: "rq_inv s gl" and w: "w < length (queues s)" and k: "k < length (queues s)"
    and s': "queues s' = (queues s)[k := x]" "pcs s' = (pcs s)[w := pc']" "bad s' = bad s"
    and x: "q_ok x" "q_le (k = w) (queues s ! k) x" "pc_ok (queues s') w pc'"
    and st: "g_steal x = g_steal (queues s ! k) \<or> \<not> stealing (queues s ! k) \<or> claim w (pcs s ! w) = Some k"
    and cl: "claim_step w k (queues s ! k) x (pcs s ! w) pc'"
    and gl: "list_ok GLOBALS (gheap s') gl'" "glen s' = of_nat (length gl' + pends (pcs s'))"
    and cons: "mset (entered s') + (mset (taken s) + mset (live (queues s ! k)) + inflight (queues s) w (pcs s ! w) + mset gl) =
      mset (entered s) + (mset (taken s') + mset (live x) + inflight (queues s') w pc' + mset gl')"
    and ent: "\<forall>t. count_list (entered s') t \<le> count_list (taken s') t + 1" "GLOBALS \<notin> set (entered s')"
      "length (entered s') < length (taken s') + 2 ^ 64"
  shows "rq_inv s' gl'"
proof -
  have i: "length (pcs s) = length (queues s)" "\<And>q. q < length (queues s) \<Longrightarrow> q_ok (queues s ! q)"
    "\<And>v. v < length (queues s) \<Longrightarrow> pc_ok (queues s) v (pcs s ! v)" "claims_ok (queues s) (pcs s)"
    "mset (entered s) = mset (taken s) + (lives (queues s) + inflights (queues s) (pcs s) + mset gl)"
    using inv by (simp_all add: rq_inv_def)
  have other: "pc_ok (queues s') v (pcs s ! v) \<and> inflight (queues s') v (pcs s ! v) = inflight (queues s) v (pcs s ! v)"
    if v: "v < length (queues s)" "v \<noteq> w" for v
  proof -
    have "g_steal x = g_steal (queues s ! k)" if "claim v (pcs s ! v) = Some k"
    proof -
      have "stealing (queues s ! k)" using i(1,4) v(1) k that by (auto simp: claims_ok_def)
      moreover have "claim w (pcs s ! w) \<noteq> Some k"
        using i(1,4) v w that unfolding claims_ok_def by (metis option.distinct(1))
      ultimately show ?thesis using st by blast
    qed
    moreover have "q_le (k \<noteq> v) (queues s ! k) x" by (rule q_le_weaken [OF x(2)]) (use v(2) in auto)
    ultimately show ?thesis
      unfolding s'(1) using pc_ok_stable [OF i(3) [OF v(1)] v(1) k i(2) [OF k]] by blast
  qed
  have inf: "inflights (queues s') (pcs s') + inflight (queues s) w (pcs s ! w) = inflights (queues s) (pcs s) + inflight (queues s') w pc'"
    unfolding s'(2) by (rule inflights_upd) (use w i(1) other in auto)
  have lv: "lives (queues s') + mset (live (queues s ! k)) = lives (queues s) + mset (live x)"
    unfolding s'(1) by (rule lives_upd [OF k])
  let ?A = "mset (live (queues s ! k)) + inflight (queues s) w (pcs s ! w)"
  have "mset (entered s') + (mset (taken s) + mset gl) + ?A + (lives (queues s) + inflights (queues s) (pcs s)) =
      mset (entered s) + (mset (taken s') + mset gl') + (lives (queues s') + inflights (queues s') (pcs s')) + ?A"
    using arg_cong2 [OF cons refl, of "\<lambda>u v. u + v" "lives (queues s) + inflights (queues s) (pcs s)"] inf lv
    by (simp add: ac_simps)
  then have m: "mset (entered s') = mset (taken s') + (lives (queues s') + inflights (queues s') (pcs s') + mset gl')"
    unfolding i(5) by (simp add: ac_simps)
  have "pc_ok (queues s') v (pcs s' ! v)" if "v < length (queues s)" for v
    using other [OF that] x(3) that i(1) unfolding s'(2) by (cases "v = w") auto
  moreover have "q_ok (queues s' ! q)" if "q < length (queues s)" for q
    using i(2) [OF that] x(1) k unfolding s'(1) by (simp add: nth_list_update)
  moreover have "claims_ok (queues s') (pcs s')"
    unfolding s'(1,2) by (rule claims_ok_step [OF i(4) _ k cl]) (simp add: i(1) w)
  ultimately show ?thesis
    using inv m gl ent unfolding rq_inv_def by (simp add: s')
qed
lemma runq_sel [simp]:
  "queues (upd_q w q s) = (queues s)[w := q]" "pcs (upd_q w q s) = pcs s" "bad (upd_q w q s) = bad s"
  "gheap (upd_q w q s) = gheap s" "glen (upd_q w q s) = glen s" "entered (upd_q w q s) = entered s" "taken (upd_q w q s) = taken s"
  "queues (set_wpc w pc s) = queues s" "pcs (set_wpc w pc s) = (pcs s)[w := pc]" "bad (set_wpc w pc s) = bad s"
  "gheap (set_wpc w pc s) = gheap s" "glen (set_wpc w pc s) = glen s" "entered (set_wpc w pc s) = entered s" "taken (set_wpc w pc s) = taken s"
  "queues (return_task w t s) = queues s" "pcs (return_task w t s) = (pcs s)[w := WIdle]" "bad (return_task w t s) = bad s"
  "gheap (return_task w t s) = gheap s" "glen (return_task w t s) = glen s" "entered (return_task w t s) = entered s"
  "taken (return_task w t s) = taken s @ [t]"
  "queues (enter t s) = queues s" "pcs (enter t s) = pcs s" "bad (enter t s) = bad s"
  "gheap (enter t s) = gheap s" "glen (enter t s) = glen s" "entered (enter t s) = entered s @ [t]" "taken (enter t s) = taken s"
  by (simp_all add: upd_q_def set_wpc_def return_task_def enter_def)

lemma rq_inv_parts:
  assumes "rq_inv s gl"
  shows "length (pcs s) = length (queues s)" "\<not> bad s" "\<And>q. q < length (queues s) \<Longrightarrow> q_ok (queues s ! q)"
    "\<And>w. w < length (queues s) \<Longrightarrow> pc_ok (queues s) w (pcs s ! w)" "list_ok GLOBALS (gheap s) gl"
    "glen s = of_nat (length gl + pends (pcs s))" "\<And>t. count_list (entered s) t \<le> count_list (taken s) t + 1"
    "GLOBALS \<notin> set (entered s)" "length (entered s) < length (taken s) + 2 ^ 64" "claims_ok (queues s) (pcs s)"
  using assms by (simp_all add: rq_inv_def)

lemma pends_same: "w < length ps \<Longrightarrow> pend pc = pend (ps ! w) \<Longrightarrow> pends (ps[w := pc]) = pends ps"
  using pends_upd [of w ps pc] by simp

lemma rq_inv_pc:
  assumes inv: "rq_inv s gl" and w: "w < length (queues s)"
    and pc: "pc_ok (queues s) w pc'" "claim w pc' = claim w (pcs s ! w)" "inflight (queues s) w pc' = inflight (queues s) w (pcs s ! w)"
      "pend pc' = pend (pcs s ! w)"
  shows "rq_inv (set_wpc w pc' s) gl"
  by (rule rq_inv_step [OF inv w w, where x = "queues s ! w" and pc' = pc'])
    (use rq_inv_parts [OF inv] w pc in \<open>simp_all add: claim_step_def pends_same\<close>)

lemma wpc_ok:
  assumes "rq_inv s gl" "w < length (queues s)" "pcs s ! w = pc"
  shows "pc_ok (queues s) w pc"
  using rq_inv_parts(4) [OF assms(1,2)] assms(3) by simp

lemma push_load_inv:
  assumes inv: "rq_inv s gl" and w: "w < length (queues s)" "pcs s ! w = PushLoad t"
  shows "rq_inv (push_load w t s) gl"
proof -
  let ?q = "queues s ! w"
  have q: "q_ok ?q" by (rule rq_inv_parts(3) [OF inv w(1)])
  have "rear ?q - of_nat (g_steal ?q) < cap ?q \<longleftrightarrow> g_rear ?q < g_steal ?q + 256"
    using q q_ok_words(3,5) [OF q] by (auto simp: word_less_nat_alt q_ok_def)
  moreover have "\<not> g_rear ?q < g_steal ?q + 256 \<Longrightarrow> g_rear ?q = g_steal ?q + 256" using q by (auto simp: q_ok_def)
  ultimately show ?thesis
    using rq_inv_pc [OF inv w(1)] w(2) q_ok_words(1) [OF q] by (auto simp: push_load_def)
qed

lemma push_store_inv:
  assumes inv: "rq_inv s gl" and w: "w < length (queues s)" "pcs s ! w = PushStore t"
  shows "rq_inv (push_store w t s) gl"
proof -
  let ?q = "queues s ! w"
  have q: "q_ok ?q" by (rule rq_inv_parts(3) [OF inv w(1)])
  have r: "g_rear ?q < g_steal ?q + 256" using wpc_ok [OF inv w] by simp
  note p = lq_push_ok [OF q r, where t = t]
  show ?thesis
    by (rule rq_inv_step [OF inv w(1) w(1), where x = "lq_push t ?q" and pc' = WIdle])
      (use rq_inv_parts [OF inv] w p r in \<open>simp_all add: push_store_def claim_step_def stealing_def pends_same q_le_def\<close>)
qed

lemma push_overflowed_inv:
  assumes inv: "rq_inv s gl" and w: "w < length (queues s)" "pcs s ! w = PushCas t fr"
  shows "rq_inv (push_overflowed w t fr s) gl"
proof -
  let ?q = "queues s ! w"
  have q: "q_ok ?q" by (rule rq_inv_parts(3) [OF inv w(1)])
  obtain f where f: "f \<le> g_steal ?q" "fr = of_nat f" "g_rear ?q = f + 256" using wpc_ok [OF inv w] by auto
  show ?thesis
  proof (cases "front ?q = wrap_pos fr fr")
    case False
    then show ?thesis using rq_inv_pc [OF inv w(1), of "PushLoad t"] w(2) by (simp add: push_overflowed_def)
  next
    case True
    have "(fr, fr) = (of_nat (g_steal ?q), of_nat (g_head ?q))"
      using q_ok_words(1) [OF q] unfolding True by (simp only: unwrap_wrap)
    then have a: "of_nat (g_steal ?q) = (of_nat f :: u16)" "of_nat (g_head ?q) = (of_nat f :: u16)"
      unfolding f(2) by (metis prod.inject)+
    have e: "g_steal ?q = f" "g_head ?q = f"
      using pos_eq [OF a(1)] pos_eq [OF a(2)] f q by (simp_all add: q_ok_def)
    let ?x = "?q\<lparr>front := wrap_pos fr (fr + 128), g_head := g_head ?q + 128\<rparr>"
    have x: "q_ok ?x" using q f e by (auto simp: q_ok_def)
    have wx: "window ?x = window ?q" by (simp add: window_def fun_eq_iff)
    have "window ?q f (f + 256) = window ?q f (f + 128) @ window ?q (f + 128) (f + 256)" by (rule window_append) simp_all
    moreover have "live ?q = window ?q f (f + 256)" "live ?x = window ?q (f + 128) (f + 256)"
      using e f(3) unfolding live_def wx by simp_all
    ultimately have l: "live ?q = window ?q f (f + 128) @ live ?x" by simp
    show ?thesis
      by (intro rq_inv_step [OF inv w(1) w(1), where x = ?x and pc' = "PushCopy t fr"])
        (use rq_inv_parts [OF inv] w True x e f l wx in
          \<open>simp_all add: push_overflowed_def LOCAL_QUEUE_CAP_def claim_step_def stealing_def pends_same q_le_def ac_simps\<close>)
  qed
qed
lemma take_slots_window: "take_slots k (of_nat a) q = map (slot q) [a..<a + k]"
proof (induction k arbitrary: a)
  case (Suc k)
  have "take_slots k (of_nat a + 1) q = map (slot q) [Suc a..<a + Suc k]"
    using Suc [of "Suc a"] by (simp add: add.commute)
  moreover have "[a..<a + Suc k] = a # [Suc a..<a + Suc k]" by (simp add: upt_conv_Cons)
  ultimately show ?case by (simp add: buf_read_slot)
qed simp

lemma push_copy_inv:
  assumes inv: "rq_inv s gl" and w: "w < length (queues s)" "pcs s ! w = PushCopy t fr"
  shows "rq_inv (push_copy w t fr s) gl"
proof -
  let ?q = "queues s ! w"
  have q: "q_ok ?q" by (rule rq_inv_parts(3) [OF inv w(1)])
  have p: "fr = of_nat (g_steal ?q)" "g_steal ?q + 128 \<le> g_head ?q" using wpc_ok [OF inv w] by simp_all
  let ?xs = "take_slots 128 fr ?q"
  have "None \<notin> set ?xs" using q p by (auto simp: take_slots_window q_ok_def)
  moreover have "map the ?xs = window ?q (g_steal ?q) (g_steal ?q + 128)"
    by (simp add: p(1) take_slots_window window_def)
  ultimately show ?thesis
    using rq_inv_pc [OF inv w(1), of "PushSync t (map the ?xs) (wrap_pos fr (fr + 128))"] p w(2)
    by (simp add: push_copy_def LOCAL_QUEUE_CAP_def Let_def)
qed

text \<open>\<open>sync_steal_pos\<close> on a queue with a claim never meets the assertion.\<close>

lemma sync_try_ok:
  assumes "q_ok q" "stealing q"
  shows "sync_try prv q = Some (Inl (front q)) \<or>
    (\<exists>x. sync_try prv q = Some (Inr x) \<and> q_ok x \<and> q_le b q x \<and> live x = live q \<and> \<not> stealing x \<and> slot x = slot q \<and>
      g_head x = g_head q \<and> g_rear x = g_rear q \<and> g_steal x = g_head q)"
proof (cases "front q = prv")
  case True
  let ?x = "q\<lparr>front := wrap_pos (of_nat (g_head q)) (of_nat (g_head q)), g_steal := g_head q\<rparr>"
  have "sync_try prv q = Some (Inr ?x)"
    using q_ok_words(1) [OF assms(1)] unfolding True by (simp add: sync_try_def Let_def True)
  moreover have "q_ok ?x" "q_le b q ?x" "\<not> stealing ?x" using assms by (auto simp: q_ok_def q_le_def stealing_def)
  moreover have "live ?x = live q" by (simp add: live_def window_def)
  ultimately show ?thesis by auto
next
  case False
  then show ?thesis
    using q_ok_words(1,6) [OF assms(1)] assms(2) by (auto simp: sync_try_def Let_def stealing_def split: prod.splits)
qed

lemma push_sync_inv:
  assumes inv: "rq_inv s gl" and w: "w < length (queues s)" "pcs s ! w = PushSync t xs prv"
  shows "rq_inv (push_sync w t xs prv s) gl"
proof -
  let ?q = "queues s ! w"
  have q: "q_ok ?q" by (rule rq_inv_parts(3) [OF inv w(1)])
  have p: "stealing ?q" using wpc_ok [OF inv w] by (simp add: stealing_def)
  from sync_try_ok [OF q p, of prv True] show ?thesis
  proof (elim disjE exE conjE)
    assume "sync_try prv ?q = Some (Inl (front ?q))"
    then show ?thesis
      using rq_inv_pc [OF inv w(1), of "PushSync t xs (front ?q)"] p w(2) by (simp add: push_sync_def stealing_def)
  next
    fix x assume x: "sync_try prv ?q = Some (Inr x)" "q_ok x" "q_le True ?q x" "live x = live ?q" "\<not> stealing x"
      "slot x = slot ?q" "g_head x = g_head ?q" "g_rear x = g_rear ?q" "g_steal x = g_head ?q"
    let ?x = "x\<lparr>m_to_global := m_to_global x + of_nat (length xs) + 1\<rparr>"
    have y: "q_ok ?x" "q_le True ?q ?x" "live ?x = live ?q" "\<not> stealing ?x"
      using x(2-5) by (simp_all add: q_ok_def q_le_def live_def window_def stealing_def)
    show ?thesis
      by (rule rq_inv_step [OF inv w(1) w(1), where x = ?x and pc' = "PushGlobal t xs"])
        (use rq_inv_parts [OF inv] w x(1) y in \<open>simp_all add: push_sync_def claim_step_def pends_same\<close>)
  qed
qed

lemma inside_distinct:
  assumes inv: "rq_inv s gl" and w: "w < length (queues s)" "mset xs = inflight (queues s) w (pcs s ! w)"
  shows "distinct (GLOBALS # rev xs @ gl)"
proof -
  have "inflight (queues s) w (pcs s ! w) \<subseteq># inflights (queues s) (pcs s)"
    unfolding inflights_def using w(1) rq_inv_parts(1) [OF inv]
    by (simp add: sum.remove [of _ w])
  then have "mset xs + mset gl \<subseteq># lives (queues s) + inflights (queues s) (pcs s) + mset gl"
    by (simp add: w(2) subset_mset.add_increasing)
  then have le: "mset (taken s) + mset (xs @ gl) \<subseteq># mset (entered s)"
    using inv by (simp add: rq_inv_def)
  have "count_list (xs @ gl) v \<le> 1" for v
    using mset_subset_eq_count [OF le, of v] rq_inv_parts(7) [OF inv, of v] by (simp add: count_mset)
  then have "distinct (xs @ gl)" using distinct_count_atmost_1 [of "xs @ gl"] by (auto simp: count_list_0_iff count_mset le_Suc_eq)
  moreover have "GLOBALS \<notin> set (xs @ gl)"
    using set_mset_mono [OF le] rq_inv_parts(8) [OF inv] by auto
  ultimately show ?thesis by auto
qed

lemma push_global_inv:
  assumes inv: "rq_inv s gl" and w: "w < length (queues s)" "pcs s ! w = PushGlobal t xs"
  shows "rq_inv (push_global w t xs s) (t # rev xs @ gl)"
proof -
  have d: "distinct (GLOBALS # rev (xs @ [t]) @ gl)" by (rule inside_distinct [OF inv w(1)]) (simp add: w(2))
  have "list_ok GLOBALS (fold (ll_push_front GLOBALS) (xs @ [t]) (gheap s)) (rev (xs @ [t]) @ gl)"
    by (rule ll.push_all [OF rq_inv_parts(5) [OF inv] d])
  then show ?thesis
    by (intro rq_inv_step [OF inv w(1) w(1), where x = "queues s ! w" and pc' = WIdle])
      (use rq_inv_parts [OF inv] w in \<open>simp_all add: push_global_def push_batch_def Let_def claim_step_def pends_same ac_simps\<close>)
qed

lemma steal_start_inv:
  assumes inv: "rq_inv s gl" and w: "w < length (queues s)" "pcs s ! w = WIdle" and src: "src < length (queues s)"
  shows "rq_inv (steal_start w src s) gl"
proof -
  let ?q = "queues s ! w"
  have q: "q_ok ?q" by (rule rq_inv_parts(3) [OF inv w(1)])
  have "\<not> is_half_full (rear ?q) ?q \<Longrightarrow> half_ok ?q (rear ?q)"
    using q q_ok_words [OF q] by (auto simp: is_half_full_def half_ok_def LOCAL_QUEUE_CAP_def word_less_nat_alt not_less)
  then show ?thesis
    using inv rq_inv_pc [OF inv w(1), of "StealLoad src (rear ?q)"] w(2) src by (auto simp: steal_start_def Let_def)
qed

lemma steal_seen_inv:
  assumes inv: "rq_inv s gl" and w: "w < length (queues s)" and src: "src < length (queues s)" "half_ok (queues s ! w) dr"
    and pc: "claim w (pcs s ! w) = None" "inflight (queues s) w (pcs s ! w) = {#}" "pend (pcs s ! w) = 0"
  shows "rq_inv (steal_seen w src dr s) gl"
proof -
  let ?q = "queues s ! src"
  have q: "q_ok ?q" by (rule rq_inv_parts(3) [OF inv src(1)])
  note i = rq_inv_pc [OF inv w]
  have "g_steal ?q = g_head ?q \<Longrightarrow> front ?q = wrap_pos (of_nat (g_head ?q)) (of_nat (g_head ?q))"
    using q by (simp add: q_ok_def)
  then show ?thesis
    using i [of WIdle] i [of "StealRear src dr (front ?q) (g_head ?q)"] src pc q_ok_words(1,6) [OF q]
    by (auto simp: steal_seen_def Let_def)
qed

lemma half_of: "unat (m - m div 2 :: u16) = unat m - unat m div 2"
proof -
  have "m div 2 \<le> m" by (simp add: word_le_nat_alt unat_div)
  then show ?thesis by (simp add: unat_sub unat_div)
qed

lemma steal_rear_inv:
  assumes inv: "rq_inv s gl" and w: "w < length (queues s)" "pcs s ! w = StealRear src dr fw g"
  shows "rq_inv (steal_rear w src dr fw g s) gl"
proof -
  let ?q = "queues s ! src"
  have p: "src < length (queues s)" "half_ok (queues s ! w) dr" "g \<le> g_head ?q" "fw = wrap_pos (of_nat g) (of_nat g)"
    using wpc_ok [OF inv w] by simp_all
  have q: "q_ok ?q" by (rule rq_inv_parts(3) [OF inv p(1)])
  let ?m = "rear ?q - of_nat g"
  let ?n = "?m - ?m div 2"
  have n: "unat ?n \<le> 128 \<and> g + unat ?n \<le> g_rear ?q" if "g_head ?q = g"
  proof -
    have "unat ?m = g_rear ?q - g" "g_rear ?q - g \<le> 256" "g \<le> g_rear ?q"
      using q_ok_words(4) [OF q] q that by (auto simp: q_ok_def)
    then show ?thesis unfolding half_of by linarith
  qed
  note i = rq_inv_pc [OF inv w(1)]
  have "rq_inv (set_wpc w (StealCas src dr fw g ?n) s) gl" if "?n \<noteq> 0"
    using i [of "StealCas src dr fw g ?n"] p n that w(2) by simp
  then show ?thesis
    using i [of WIdle] w(2) p(4) by (simp add: steal_rear_def Let_def)
qed

lemma steal_claim_inv:
  assumes inv: "rq_inv s gl" and w: "w < length (queues s)" "pcs s ! w = StealCas src dr fw g n"
    and aba: "g_head (queues s ! src) < g + 2 ^ 16"
  shows "rq_inv (steal_claim w src dr fw n s) gl"
proof -
  let ?q = "queues s ! src"
  have p: "src < length (queues s)" "half_ok (queues s ! w) dr" "g \<le> g_head ?q" "fw = wrap_pos (of_nat g) (of_nat g)" "n \<noteq> 0"
    "g_head ?q = g \<Longrightarrow> unat n \<le> 128 \<and> g + unat n \<le> g_rear ?q"
    using wpc_ok [OF inv w] by simp_all
  have q: "q_ok ?q" by (rule rq_inv_parts(3) [OF inv p(1)])
  show ?thesis
  proof (cases "front ?q = fw")
    case False
    then show ?thesis
      using steal_seen_inv [OF inv w(1) p(1,2)] w(2) p(4) by (simp add: steal_claim_def Let_def)
  next
    case True
    have "(of_nat g, of_nat g) = (of_nat (g_steal ?q) :: u16, of_nat (g_head ?q) :: u16)"
      using q_ok_words(1) [OF q] unfolding True p(4) by (simp only: unwrap_wrap)
    then have a: "of_nat (g_steal ?q) = (of_nat (g_head ?q) :: u16)" "of_nat (g_head ?q) = (of_nat g :: u16)"
      by (metis prod.inject)+
    have e: "g_head ?q = g" by (rule pos_eq [OF a(2) p(3) aba])
    then have e': "g_steal ?q = g" using q_ok_words(6) [OF q] a(1) by simp
    note n = p(6) [OF e]
    let ?x = "?q\<lparr>front := wrap_pos (of_nat g) (of_nat g + n), g_head := g_head ?q + unat n\<rparr>"
    have on: "of_nat (g + unat n) = of_nat g + n" by simp
    have x: "q_ok ?x" using q e e' n on by (auto simp: q_ok_def)
    have wx: "window ?x = window ?q" by (simp add: window_def fun_eq_iff)
    have "window ?q g (g_rear ?q) = window ?q g (g + unat n) @ window ?q (g + unat n) (g_rear ?q)"
      by (rule window_append) (use n in simp_all)
    moreover have "live ?q = window ?q g (g_rear ?q)" "live ?x = window ?q (g + unat n) (g_rear ?q)"
      using e unfolding live_def wx by simp_all
    ultimately have l: "live ?q = window ?q g (g + unat n) @ live ?x" by simp
    have n0: "0 < unat n" using p(5) by (simp add: unat_gt_0)
    have h: "half_ok ((queues s)[src := ?x] ! w) dr" using p(1,2) by (cases "src = w") (simp_all add: half_ok_def)
    have s': "steal_claim w src dr fw n s = set_wpc w (StealCopy src dr (wrap_pos (of_nat g) (of_nat g + n)) n) (upd_q src ?x s)"
      using True by (simp add: steal_claim_def Let_def p(4))
    show ?thesis
      unfolding s' by (intro rq_inv_step [OF inv w(1) p(1), where x = ?x and pc' = "StealCopy src dr (wrap_pos (of_nat g) (of_nat g + n)) n"])
        (use rq_inv_parts [OF inv] w x e e' n n0 l wx p(1) h in \<open>simp_all add: claim_step_def stealing_def pends_same q_le_def\<close>)
  qed
qed

lemma steal_sync_inv:
  assumes inv: "rq_inv s gl" and w: "w < length (queues s)" "pcs s ! w = StealSync src prv t"
  shows "rq_inv (steal_sync w src prv t s) gl"
proof -
  let ?q = "queues s ! src"
  have p: "src < length (queues s)" "stealing ?q" using wpc_ok [OF inv w] by (simp_all add: stealing_def)
  have q: "q_ok ?q" by (rule rq_inv_parts(3) [OF inv p(1)])
  from sync_try_ok [OF q p(2), of prv "src = w"] show ?thesis
  proof (elim disjE exE conjE)
    assume "sync_try prv ?q = Some (Inl (front ?q))"
    then show ?thesis
      using rq_inv_pc [OF inv w(1), of "StealSync src (front ?q) t"] p w(2) by (simp add: steal_sync_def stealing_def)
  next
    fix x assume x: "sync_try prv ?q = Some (Inr x)" "q_ok x" "q_le (src = w) ?q x" "live x = live ?q" "\<not> stealing x"
    have c: "count_list (entered s) v \<le> Suc (count_list (taken s @ [t]) v)" for v
      using rq_inv_parts(7) [OF inv, of v] by simp
    show ?thesis
      by (rule rq_inv_step [OF inv w(1) p(1), where x = x and pc' = WIdle])
        (use rq_inv_parts [OF inv] w p x c in \<open>simp_all add: steal_sync_def claim_step_def pends_same\<close>)
  qed
qed
text \<open>The copy loop writes the claimed tasks behind the rear of the thief's queue.\<close>

lemma copy_tasks_ok:
  assumes "src < length qs" "dst < length qs" "length (buffer (qs ! dst)) = 256"
    "\<And>i. a \<le> i \<Longrightarrow> i < a + k \<Longrightarrow> slot (qs ! src) i \<noteq> None" "c \<le> b" "b + k \<le> c + 256" "src = dst \<Longrightarrow> c \<le> a \<and> a + k \<le> b"
  shows "\<exists>bf. copy_tasks k src dst (of_nat a) (of_nat b) qs = Some (qs[dst := (qs ! dst)\<lparr>buffer := bf\<rparr>], of_nat (a + k), of_nat (b + k)) \<and>
    length bf = 256 \<and> (\<forall>i. c \<le> i \<and> i < b \<longrightarrow> bf ! (i mod 256) = slot (qs ! dst) i) \<and>
    (\<forall>j<k. bf ! ((b + j) mod 256) = slot (qs ! src) (a + j))"
  using assms
proof (induction k arbitrary: a b qs)
  case 0
  have "(qs ! dst)\<lparr>buffer := buffer (qs ! dst)\<rparr> = qs ! dst" by simp
  then show ?case using 0 by (intro exI [of _ "buffer (qs ! dst)"]) (simp add: slot_def)
next
  case (Suc k)
  obtain t where t: "slot (qs ! src) a = Some t" using Suc.prems(4) [of a] by auto
  define d where "d = buf_write (of_nat b) t (qs ! dst)"
  let ?qs = "qs[dst := d]"
  have d: "slot d i = (if i mod 256 = b mod 256 then Some t else slot (qs ! dst) i)" "length (buffer d) = 256"
    "d\<lparr>buffer := bf\<rparr> = (qs ! dst)\<lparr>buffer := bf\<rparr>" for i bf
    using Suc.prems(3) by (simp_all add: d_def buf_write_slot) (simp add: buf_write_def)
  have keep: "slot d i = slot (qs ! dst) i" if "c \<le> i" "i < b" for i
    using d(1) window_index [of c i b] that Suc.prems(6) by simp
  have src: "slot (?qs ! src) i = slot (qs ! src) i" if "a \<le> i" "i < a + Suc k" for i
    using keep [of i] that Suc.prems(1,2,7) by (cases "src = dst") auto
  have "\<exists>bf. copy_tasks k src dst (of_nat (a + 1)) (of_nat (b + 1)) ?qs =
        Some (?qs[dst := (?qs ! dst)\<lparr>buffer := bf\<rparr>], of_nat (a + 1 + k), of_nat (b + 1 + k)) \<and>
      length bf = 256 \<and> (\<forall>i. c \<le> i \<and> i < b + 1 \<longrightarrow> bf ! (i mod 256) = slot (?qs ! dst) i) \<and>
      (\<forall>j<k. bf ! ((b + 1 + j) mod 256) = slot (?qs ! src) (a + 1 + j))"
  proof (rule Suc.IH)
    show "slot (?qs ! src) i \<noteq> None" if "a + 1 \<le> i" "i < a + 1 + k" for i
      using src [of i] Suc.prems(4) [of i] that by simp
  qed (use Suc.prems d(2) in auto)
  then obtain bf where bf: "copy_tasks k src dst (of_nat (a + 1)) (of_nat (b + 1)) ?qs =
        Some (?qs[dst := (?qs ! dst)\<lparr>buffer := bf\<rparr>], of_nat (a + 1 + k), of_nat (b + 1 + k))"
    "length bf = 256" "\<And>i. c \<le> i \<Longrightarrow> i < b + 1 \<Longrightarrow> bf ! (i mod 256) = slot d i"
    "\<And>j. j < k \<Longrightarrow> bf ! ((b + 1 + j) mod 256) = slot (?qs ! src) (a + 1 + j)"
    using Suc.prems(2) by auto
  have "copy_tasks (Suc k) src dst (of_nat a) (of_nat b) qs = Some (qs[dst := (qs ! dst)\<lparr>buffer := bf\<rparr>], of_nat (a + Suc k), of_nat (b + Suc k))"
    using bf(1) t Suc.prems(2) d(3) by (simp add: buf_read_slot d_def [symmetric] ac_simps)
  moreover have "bf ! ((b + j) mod 256) = slot (qs ! src) (a + j)" if "j < Suc k" for j
  proof (cases j)
    case 0
    then show ?thesis using bf(3) [of b] d(1) t Suc.prems(5) by simp
  next
    case (Suc i)
    then show ?thesis using bf(4) [of i] src [of "a + 1 + i"] that by simp
  qed
  ultimately show ?case using bf(2,3) keep by (intro exI [of _ bf]) auto
qed

lemma steal_copy_inv:
  assumes inv: "rq_inv s gl" and w: "w < length (queues s)" "pcs s ! w = StealCopy src dr nx n"
  shows "rq_inv (steal_copy w src dr nx n s) gl"
proof -
  let ?q = "queues s ! src" and ?d = "queues s ! w"
  have p: "src < length (queues s)" "half_ok ?d dr" "fst (unwrap_pos nx) = of_nat (g_steal ?q)"
    "0 < unat n" "unat n \<le> 128" "g_steal ?q + unat n \<le> g_head ?q"
    using wpc_ok [OF inv w] by simp_all
  have q: "q_ok ?q" "q_ok ?d" by (rule rq_inv_parts(3) [OF inv p(1)], rule rq_inv_parts(3) [OF inv w(1)])
  define a where "a = g_steal ?q"
  define b where "b = g_rear ?d"
  define k where "k = unat n - 1"
  have kn: "unat (n - 1) = k" "unat n = Suc k" using p(4) by (simp_all add: k_def unat_minus_one unat_gt_0)
  have ne: "slot ?q i \<noteq> None" if "a \<le> i" "i < a + Suc k" for i
    using q(1) p(6) kn(2) that by (simp add: q_ok_def a_def)
  have "\<exists>bf. copy_tasks k src w (of_nat a) (of_nat b) (queues s) = Some ((queues s)[w := ?d\<lparr>buffer := bf\<rparr>], of_nat (a + k), of_nat (b + k)) \<and>
    length bf = 256 \<and> (\<forall>i. g_steal ?d \<le> i \<and> i < b \<longrightarrow> bf ! (i mod 256) = slot ?d i) \<and>
    (\<forall>j<k. bf ! ((b + j) mod 256) = slot ?q (a + j))"
    by (rule copy_tasks_ok) (use p q w(1) kn ne in \<open>auto simp: q_ok_def half_ok_def a_def b_def\<close>)
  then obtain bf where bf: "copy_tasks k src w (of_nat a) (of_nat b) (queues s) = Some ((queues s)[w := ?d\<lparr>buffer := bf\<rparr>], of_nat (a + k), of_nat (b + k))"
    "length bf = 256" "\<And>i. g_steal ?d \<le> i \<Longrightarrow> i < b \<Longrightarrow> bf ! (i mod 256) = slot ?d i"
    "\<And>j. j < k \<Longrightarrow> bf ! ((b + j) mod 256) = slot ?q (a + j)" by auto
  obtain t where t: "slot ?q (a + k) = Some t" using ne [of "a + k"] by auto
  define x where "x = ?d\<lparr>buffer := bf, rear := of_nat (b + k), g_rear := b + k\<rparr>"
  have xs: "slot x i = bf ! (i mod 256)" for i by (simp add: x_def slot_def)
  have last: "buf_read ((queues s)[w := ?d\<lparr>buffer := bf\<rparr>] ! src) (of_nat (a + k)) = Some t"
  proof (cases "src = w")
    case True
    then have "bf ! ((a + k) mod 256) = slot ?d (a + k)"
      using bf(3) [of "a + k"] p(6) q(2) kn(2) by (simp add: a_def b_def q_ok_def)
    with True w(1) t show ?thesis by (simp only: buf_read_slot) (simp add: slot_def)
  next
    case False
    then show ?thesis using t by (simp only: buf_read_slot) simp
  qed
  have x: "q_ok x" "q_le True ?d x" "stealing x = stealing ?d" "g_steal x = g_steal ?d" "g_head x = g_head ?d"
  proof -
    have "slot x i \<noteq> None" if "g_steal ?d \<le> i" "i < b + k" for i
    proof (cases "i < b")
      case True
      then show ?thesis using bf(3) [of i] that q(2) by (simp add: xs q_ok_def b_def)
    next
      case False
      then show ?thesis using bf(4) [of "i - b"] ne [of "a + (i - b)"] that by (simp add: xs)
    qed
    then show "q_ok x"
      using q(2) p(2,5) kn(2) bf(2) by (simp add: q_ok_def half_ok_def b_def) (simp add: x_def b_def)
    show "q_le True ?d x" using bf(3) by (simp add: q_le_def xs) (simp add: x_def b_def)
  qed (simp_all add: x_def stealing_def)
  have "window x b (b + k) = window ?q a (a + k)"
    by (rule nth_equalityI) (simp_all add: window_def xs bf(4))
  moreover have "window x (g_head ?d) b = live ?d"
    unfolding live_def b_def using bf(3) q(2) by (intro window_cong) (auto simp: xs b_def q_ok_def)
  moreover have "live x = window x (g_head ?d) b @ window x b (b + k)"
    using window_append [of "g_head ?d" b "b + k" x] q(2) by (simp add: live_def q_ok_def x_def b_def)
  ultimately have l: "live x = live ?d @ window ?q a (a + k)" by simp
  have i: "window ?q a (a + unat n) = window ?q a (a + k) @ [t]" using t by (simp add: kn(2) window_snoc)
  have dr: "dr = of_nat b" using p(2) by (simp add: half_ok_def b_def)
  have d: "?d\<lparr>buffer := bf\<rparr> = x" if "k = 0" using that q(2) by (simp add: x_def b_def q_ok_def)
  have s': "steal_copy w src dr nx n s = set_wpc w (StealSync src nx t) (upd_q w x s)"
    using bf(1) last p(3) w(1) d unfolding dr
    by (cases "unwrap_pos nx") (auto simp: steal_copy_def Let_def kn(1) a_def [symmetric] upd_q_def x_def b_def)
  have "stealing ((queues s)[w := x] ! src)"
    using x(3) p(1,6) kn(2) w(1) by (cases "src = w") (simp_all add: stealing_def a_def)
  then show ?thesis
    unfolding s' by (intro rq_inv_step [OF inv w(1) w(1), where x = x and pc' = "StealSync src nx t"])
      (use rq_inv_parts [OF inv] w x p(1) l i in \<open>simp_all add: claim_step_def pends_same a_def stealing_def\<close>)
qed

lemma batch_start_inv:
  assumes inv: "rq_inv s gl" and w: "w < length (queues s)" "pcs s ! w = WIdle" and l: "limit \<le> unat (remaining (queues s ! w))"
  shows "rq_inv (batch_start w limit s) gl"
proof -
  let ?q = "queues s ! w"
  have q: "q_ok ?q" by (rule rq_inv_parts(3) [OF inv w(1)])
  have "rear ?q - of_nat (g_steal ?q) \<le> 256" using q q_ok_words(3) [OF q] by (auto simp: word_le_nat_alt q_ok_def)
  then have "unat (remaining ?q) = 256 - (g_rear ?q - g_steal ?q)"
    using q_ok_words [OF q] by (simp add: remaining_def unat_sub)
  with l q have "g_rear ?q + limit \<le> g_steal ?q + 256" by (auto simp: q_ok_def)
  then show ?thesis unfolding batch_start_def by (intro rq_inv_pc [OF inv w(1)]) (simp_all add: w(2))
qed

text \<open>The loop of \<open>pop_batch\<close> moves the last tasks of the list behind the rear.\<close>

lemma batch_loop_ok:
  assumes "list_ok GLOBALS h gl" "length (buffer q) = 256" "c \<le> b" "b + k \<le> c + 256"
  shows "\<exists>h' bf. let m = min k (length gl) in
    batch_loop k h q (of_nat b) cnt = Some (h', q\<lparr>buffer := bf\<rparr>, of_nat (b + m), cnt + m) \<and>
    list_ok GLOBALS h' (take (length gl - m) gl) \<and> length bf = 256 \<and>
    (\<forall>i. c \<le> i \<and> i < b \<longrightarrow> bf ! (i mod 256) = slot q i) \<and>
    (\<forall>j<m. bf ! ((b + j) mod 256) = Some (rev gl ! j))"
  using assms
proof (induction k arbitrary: h gl q b cnt)
  case 0
  then show ?case by (intro exI [of _ h] exI [of _ "buffer q"]) (simp add: slot_def)
next
  case (Suc k)
  show ?case
  proof (cases gl rule: rev_cases)
    case Nil
    with ll.pop_ok [OF Suc.prems(1)] obtain h' where "ll_pop_back GLOBALS h = Some (None, h')" "list_ok GLOBALS h' []" by auto
    then show ?thesis using Nil Suc.prems(2) by (intro exI [of _ h'] exI [of _ "buffer q"]) (simp add: slot_def)
  next
    case (snoc ys y)
    with ll.pop_ok [OF Suc.prems(1)] obtain h' where h': "ll_pop_back GLOBALS h = Some (Some y, h')" "list_ok GLOBALS h' ys" by auto
    define d where "d = buf_write (of_nat b) y q"
    have d: "slot d i = (if i mod 256 = b mod 256 then Some y else slot q i)" "length (buffer d) = 256"
      "d\<lparr>buffer := bf\<rparr> = q\<lparr>buffer := bf\<rparr>" for i bf
      using Suc.prems(2) by (simp_all add: d_def buf_write_slot) (simp add: buf_write_def)
    let ?m = "min k (length ys)"
    obtain h'' bf where bf: "batch_loop k h' d (of_nat (b + 1)) (cnt + 1) = Some (h'', q\<lparr>buffer := bf\<rparr>, of_nat (b + 1 + ?m), cnt + 1 + ?m)"
      "list_ok GLOBALS h'' (take (length ys - ?m) ys)" "length bf = 256"
      "\<And>i. c \<le> i \<Longrightarrow> i < b + 1 \<Longrightarrow> bf ! (i mod 256) = slot d i" "\<And>j. j < ?m \<Longrightarrow> bf ! ((b + 1 + j) mod 256) = Some (rev ys ! j)"
      using Suc.IH [OF h'(2) d(2), of "b + 1" "cnt + 1"] Suc.prems(3,4) d(3) unfolding Let_def by auto
    have "bf ! (i mod 256) = slot q i" if "c \<le> i" "i < b" for i
      using bf(4) [of i] d(1) window_index [of c i b] that Suc.prems(4) by simp
    moreover have "bf ! ((b + j) mod 256) = Some (rev gl ! j)" if "j < Suc ?m" for j
      using bf(4) [of b] bf(5) [of "j - 1"] d(1) that Suc.prems(3) snoc by (cases j) auto
    moreover have "batch_loop (Suc k) h q (of_nat b) cnt = Some (h'', q\<lparr>buffer := bf\<rparr>, of_nat (b + Suc ?m), cnt + Suc ?m)"
      using h'(1) bf(1) by (simp add: d_def [symmetric] ac_simps)
    moreover have "take (length gl - Suc ?m) gl = take (length ys - ?m) ys" using snoc by simp
    ultimately show ?thesis using bf(2,3) snoc by (intro exI [of _ h''] exI [of _ bf]) (simp add: Let_def)
  qed
qed

lemma batch_take_inv:
  assumes inv: "rq_inv s gl" and w: "w < length (queues s)" "pcs s ! w = BatchLock num"
  shows "\<exists>gl'. rq_inv (batch_take w num s) gl'"
proof (cases gl rule: rev_cases)
  case Nil
  with ll.pop_ok [OF rq_inv_parts(5) [OF inv]] obtain h where h: "ll_pop_back GLOBALS (gheap s) = Some (None, h)" "list_ok GLOBALS h []" by auto
  have "rq_inv (set_wpc w WIdle (s\<lparr>gheap := h\<rparr>)) []"
    by (rule rq_inv_step [OF inv w(1) w(1), where x = "queues s ! w" and pc' = WIdle])
      (use rq_inv_parts [OF inv] w h Nil in \<open>simp_all add: claim_step_def pends_same\<close>)
  then show ?thesis using h(1) by (auto simp: batch_take_def)
next
  case (snoc ys t)
  let ?q = "queues s ! w"
  have q: "q_ok ?q" by (rule rq_inv_parts(3) [OF inv w(1)])
  have p: "g_rear ?q + num \<le> g_steal ?q + 256" using wpc_ok [OF inv w] by simp
  obtain h where h: "ll_pop_back GLOBALS (gheap s) = Some (Some t, h)" "list_ok GLOBALS h ys"
    using ll.pop_ok [OF rq_inv_parts(5) [OF inv]] snoc by auto
  define b where "b = g_rear ?q"
  define m where "m = min (num - 1) (length ys)"
  have pre: "length (buffer ?q) = 256" "g_steal ?q \<le> b" "b + (num - 1) \<le> g_steal ?q + 256"
    using q p by (auto simp: q_ok_def b_def)
  obtain h' bf where bf: "batch_loop (num - 1) h ?q (of_nat b) 1 = Some (h', ?q\<lparr>buffer := bf\<rparr>, of_nat (b + m), 1 + m)"
    "list_ok GLOBALS h' (take (length ys - m) ys)" "length bf = 256"
    "\<And>i. g_steal ?q \<le> i \<Longrightarrow> i < b \<Longrightarrow> bf ! (i mod 256) = slot ?q i" "\<And>j. j < m \<Longrightarrow> bf ! ((b + j) mod 256) = Some (rev ys ! j)"
    using batch_loop_ok [OF h(2) pre, of 1] unfolding Let_def m_def [symmetric] by blast
  define x where "x = ?q\<lparr>buffer := bf\<rparr>"
  have xs: "slot x i = bf ! (i mod 256)" for i by (simp add: x_def slot_def)
  have x: "q_ok x" "q_le True ?q x" "stealing x = stealing ?q" "g_steal x = g_steal ?q" "g_rear x = b"
    using q bf(3,4) by (simp_all add: q_ok_def q_le_def xs b_def stealing_def) (simp_all add: x_def q_ok_def)
  have l: "live x = live ?q"
    unfolding live_def using bf(4) q by (simp add: x_def) (intro window_cong, auto simp: slot_def b_def q_ok_def)
  have "window x b (b + m) = take m (rev ys)"
    by (rule nth_equalityI) (simp_all add: window_def xs bf(5) m_def)
  moreover have "take m (rev ys) = rev (drop (length ys - m) ys)" by (simp add: take_rev)
  ultimately have "mset (window x b (b + m)) = mset (drop (length ys - m) ys)" by simp
  moreover have "mset ys = mset (take (length ys - m) ys) + mset (drop (length ys - m) ys)"
    by (metis append_take_drop_id mset_append)
  ultimately have g: "mset gl = mset (take (length ys - m) ys) + add_mset t (mset (window x b (b + m)))"
    using snoc by simp
  have pn: "pends ((pcs s)[w := BatchStore t (1 + m) (of_nat (b + m))]) = pends (pcs s) + (1 + m)"
    using pends_upd [of w "pcs s"] rq_inv_parts(1) [OF inv] w by simp
  have gn: "length (take (length ys - m) ys) + pends ((pcs s)[w := BatchStore t (1 + m) (of_nat (b + m))]) = length gl + pends (pcs s)"
    using pn snoc by (simp add: m_def)
  have ne: "slot x i \<noteq> None" if "b \<le> i" "i < b + m" for i using bf(5) [of "i - b"] that by (simp add: xs)
  have cap: "b + m \<le> g_steal ?q + 256" using p by (simp add: b_def m_def)
  have s': "batch_take w num s = set_wpc w (BatchStore t (1 + m) (of_nat (b + m))) (upd_q w x (s\<lparr>gheap := h'\<rparr>))"
    using h(1) bf(1) q by (simp add: batch_take_def x_def b_def q_ok_def)
  have "rq_inv (batch_take w num s) (take (length ys - m) ys)"
    unfolding s' by (intro rq_inv_step [OF inv w(1) w(1), where x = x and pc' = "BatchStore t (1 + m) (of_nat (b + m))"])
      (use rq_inv_parts [OF inv] w x l g gn ne cap bf(2) in \<open>simp_all add: claim_step_def del: of_nat_add\<close>)
  then show ?thesis by blast
qed
lemma count_taken: "rq_inv s gl \<Longrightarrow> count_list (entered s) v \<le> Suc (count_list (taken s @ [t]) v)"
  using rq_inv_parts(7) [of s gl v] by simp

lemma batch_store_inv:
  assumes inv: "rq_inv s gl" and w: "w < length (queues s)" "pcs s ! w = BatchStore t cnt cur"
  shows "rq_inv (batch_store w t cnt cur s) gl"
proof -
  let ?q = "queues s ! w"
  have q: "q_ok ?q" by (rule rq_inv_parts(3) [OF inv w(1)])
  define m where "m = cnt - 1"
  have p: "cnt = Suc m" "cur = of_nat (g_rear ?q + m)" "g_rear ?q + m \<le> g_steal ?q + 256"
    "\<And>i. g_rear ?q \<le> i \<Longrightarrow> i < g_rear ?q + m \<Longrightarrow> slot ?q i \<noteq> None"
    using wpc_ok [OF inv w] by (auto simp: m_def)
  let ?x = "?q\<lparr>rear := cur, m_from_global := m_from_global ?q + 1, g_rear := g_rear ?q + m\<rparr>"
  have "slot ?q i \<noteq> None" if "g_steal ?q \<le> i" "i < g_rear ?q + m" for i
    using that q p(4) [of i] by (cases "i < g_rear ?q") (auto simp: q_ok_def)
  then have x: "q_ok ?x" using q p by (auto simp: q_ok_def)
  have wx: "window ?x = window ?q" by (simp add: window_def fun_eq_iff)
  have l: "live ?x = live ?q @ window ?q (g_rear ?q) (g_rear ?q + m)"
    using window_append [of "g_head ?q" "g_rear ?q" "g_rear ?q + m" ?q] q unfolding live_def wx by (simp add: q_ok_def)
  have "pends ((pcs s)[w := WIdle]) + cnt = pends (pcs s)"
    using pends_upd [of w "pcs s" WIdle] rq_inv_parts(1) [OF inv] w by simp
  then have pn: "glen s - of_nat cnt = of_nat (length gl + pends ((pcs s)[w := WIdle]))"
    using rq_inv_parts(6) [OF inv] by (metis add.assoc add_diff_cancel_right' of_nat_add)
  have s': "batch_store w t cnt cur s = return_task w t (upd_q w ?x (s\<lparr>glen := glen s - of_nat cnt\<rparr>))"
    by (simp add: batch_store_def m_def Let_def)
  show ?thesis
    unfolding s' by (intro rq_inv_step [OF inv w(1) w(1), where x = ?x and pc' = WIdle])
      (use rq_inv_parts [OF inv] w x l pn p(1) count_taken [OF inv] in \<open>simp_all add: claim_step_def stealing_def q_le_def del: of_nat_add\<close>)
qed

lemma pop_local_inv:
  assumes inv: "rq_inv s gl" and w: "w < length (queues s)" "pcs s ! w = WIdle"
  shows "rq_inv (pop_local w s) gl"
proof -
  let ?q = "queues s ! w"
  have q: "q_ok ?q" by (rule rq_inv_parts(3) [OF inv w(1)])
  note pop = lq_pop_front_ok [OF q]
  show ?thesis
  proof (cases "live ?q")
    case Nil
    then show ?thesis using pop inv by (simp add: pop_local_def)
  next
    case (Cons t ts)
    with pop obtain x where x: "lq_pop_front ?q = (Some (Some t), x)" "q_ok x" "live x = ts" "slot x = slot ?q"
      "g_head x = g_head ?q + 1" "g_rear x = g_rear ?q" "g_steal x = (if g_steal ?q = g_head ?q then g_head ?q + 1 else g_steal ?q)"
      by auto
    have y: "q_le True ?q x" "stealing x = stealing ?q" "g_steal x = g_steal ?q \<or> \<not> stealing ?q"
      using x(4-7) q by (auto simp: q_le_def stealing_def q_ok_def)
    have s': "pop_local w s = return_task w t (upd_q w x s)" by (simp add: pop_local_def x(1))
    show ?thesis
      unfolding s' by (intro rq_inv_step [OF inv w(1) w(1), where x = x and pc' = WIdle])
        (use rq_inv_parts [OF inv] w x(2,3) y Cons count_taken [OF inv] in \<open>auto simp: claim_step_def pends_same\<close>)
  qed
qed

lemma push_event_inv:
  assumes inv: "rq_inv s gl" and w: "w < length (queues s)" "pcs s ! w = WIdle" and f: "fresh t s"
  shows "rq_inv (set_wpc w (PushLoad t) (enter t s)) gl"
proof -
  have "count_list (entered s @ [t]) v \<le> Suc (count_list (taken s) v)" for v
    using rq_inv_parts(7) [OF inv, of v] f by (auto simp: fresh_def)
  then show ?thesis
    by (intro rq_inv_step [OF inv w(1) w(1), where x = "queues s ! w" and pc' = "PushLoad t"])
      (use rq_inv_parts [OF inv] w f in \<open>simp_all add: claim_step_def pends_same fresh_def\<close>)
qed

lemma contents_inside: "rq_inv s gl \<Longrightarrow> t \<in> set gl \<Longrightarrow> count_list (taken s) t < count_list (entered s) t"
proof -
  assume inv: "rq_inv s gl" and t: "t \<in> set gl"
  have "count (mset (entered s)) t = count (mset (taken s) + (lives (queues s) + inflights (queues s) (pcs s) + mset gl)) t"
    using inv by (simp add: rq_inv_def)
  moreover have "0 < count (mset gl) t" using t by simp
  ultimately show ?thesis by (simp add: count_mset)
qed

lemma global_push_inv:
  assumes inv: "rq_inv s gl" and f: "fresh t s"
  shows "rq_inv (global_push_back t (enter t s)) (t # gl)"
proof -
  have n: "t \<notin> set gl" using contents_inside [OF inv, of t] f by (auto simp: fresh_def)
  then have l: "list_ok GLOBALS (ll_push_front GLOBALS t (gheap s)) (t # gl)"
    using ll.push_ok [OF rq_inv_parts(5) [OF inv]] f by (simp add: fresh_def)
  have c: "count_list (entered s @ [t]) v \<le> Suc (count_list (taken s) v)" for v
    using rq_inv_parts(7) [OF inv, of v] f by (auto simp: fresh_def)
  show ?thesis
    using inv l c f unfolding rq_inv_def by (simp add: global_push_back_def fresh_def ac_simps)
qed

lemma size_sum: "size (\<Sum>i\<in>A. f i :: 'a multiset) = (\<Sum>i\<in>A. size (f i))"
  by (induction A rule: infinite_finite_induct) auto

lemma global_length_bound:
  assumes inv: "rq_inv s gl"
  shows "length gl + pends (pcs s) < 2 ^ 64"
proof -
  have "pend (pcs s ! w) \<le> size (inflight (queues s) w (pcs s ! w))" if "w < length (pcs s)" for w
    using rq_inv_parts(4) [OF inv, of w] that rq_inv_parts(1) [OF inv] by (cases "pcs s ! w") auto
  then have "pends (pcs s) \<le> size (inflights (queues s) (pcs s))"
    unfolding pends_def inflights_def size_sum by (intro sum_mono) simp
  moreover have "size (mset (entered s)) = size (mset (taken s) + (lives (queues s) + inflights (queues s) (pcs s) + mset gl))"
    using inv by (simp add: rq_inv_def)
  ultimately show ?thesis using rq_inv_parts(9) [OF inv] by simp
qed

lemma global_is_empty_iff: "rq_inv s gl \<Longrightarrow> global_is_empty s \<longleftrightarrow> length gl + pends (pcs s) = 0"
proof -
  assume inv: "rq_inv s gl"
  have "unat (glen s) = length gl + pends (pcs s)"
    unfolding rq_inv_parts(6) [OF inv] using global_length_bound [OF inv] by (simp add: unat_of_nat del: of_nat_add)
  then show ?thesis unfolding global_is_empty_def by (metis unat_eq_zero)
qed

lemma global_pop_inv:
  assumes inv: "rq_inv s gl"
  shows "if gl = [] then global_pop_front s = Some (None, s)
    else \<exists>s'. global_pop_front s = Some (Some (last gl), s') \<and> rq_inv (s'\<lparr>taken := taken s @ [last gl]\<rparr>) (butlast gl) \<and>
        queues s' = queues s \<and> pcs s' = pcs s \<and> taken s' = taken s"
proof (cases gl rule: rev_cases)
  case Nil
  then show ?thesis using ll_pop_back_ok [OF rq_inv_parts(5) [OF inv]] by (simp add: global_pop_front_def)
next
  case (snoc ys t)
  obtain h where h: "ll_pop_back GLOBALS (gheap s) = Some (Some t, h)" "list_ok GLOBALS h ys"
    using ll.pop_ok [OF rq_inv_parts(5) [OF inv]] snoc by auto
  let ?s = "s\<lparr>gheap := h, glen := glen s - 1\<rparr>"
  have "\<not> global_is_empty s" using global_is_empty_iff [OF inv] snoc by simp
  then have "global_pop_front s = Some (Some t, ?s)" by (simp add: global_pop_front_def h(1))
  moreover have "rq_inv (?s\<lparr>taken := taken s @ [t]\<rparr>) ys"
    using inv h(2) snoc count_taken [OF inv, of _ t] unfolding rq_inv_def by simp
  ultimately show ?thesis using snoc by simp
qed

lemma rq_step_inv:
  assumes inv: "rq_inv s gl" and step: "rq_step e s = Some s'"
  shows "\<exists>gl'. rq_inv s' gl'"
proof (cases e)
  case (WStep w)
  with step have w: "w < length (queues s)" "w_step w s = Some s'" by (simp_all add: rq_inv_parts(1) [OF inv] split: if_splits)
  show ?thesis
  proof (cases "pcs s ! w")
    case (BatchLock num)
    then show ?thesis using batch_take_inv [OF inv w(1)] w(2) by (auto simp: w_step_def)
  next
    case (StealLoad src dr)
    then show ?thesis
      using steal_seen_inv [OF inv w(1), of src dr] w(2) wpc_ok [OF inv w(1) StealLoad] by (auto simp: w_step_def)
  next
    case (StealCas src dr fw g n)
    then show ?thesis using steal_claim_inv [OF inv w(1) StealCas] w(2) by (auto simp: w_step_def split: if_splits)
  qed (use w inv in \<open>auto simp: w_step_def split: if_splits intro: push_load_inv push_store_inv push_overflowed_inv push_copy_inv
    push_sync_inv push_global_inv steal_rear_inv steal_copy_inv steal_sync_inv batch_store_inv\<close>)
next
  case GlobalPop
  then show ?thesis using step global_pop_inv [OF inv] inv by (cases gl) auto
qed (use inv step in \<open>auto simp: idle_def rq_inv_parts(1) [OF inv] split: if_splits intro: push_event_inv pop_local_inv
    steal_start_inv batch_start_inv global_push_inv\<close>)

lemma lives_new: "lives (replicate n lq_new) = {#}"
  by (simp add: lives_def live_def lq_new_def)

lemma runq_new_inv: "0 < n \<Longrightarrow> rq_inv (runq_new n) []"
  by (simp add: rq_inv_def runq_new_def q_ok_new claims_ok_def stealing_def ll_new_ok pends_def inflights_def lives_new)
    (simp add: lq_new_def)

lemma rq_reachable_inv: "rq_reachable s \<Longrightarrow> \<exists>gl. rq_inv s gl"
  by (induction rule: rq_reachable.induct) (auto intro: runq_new_inv rq_step_inv)

section \<open>Properties\<close>

lemma rq_run_reachable: "rq_run es s = Some t \<Longrightarrow> rq_reachable s \<Longrightarrow> rq_reachable t"
  by (induction es arbitrary: s) (auto split: option.splits intro: rq_stepped)

lemma rq_run_eval:
  assumes "map_option f (rq_run es (runq_new 2)) = Some y"
  shows "rq_reachable (the (rq_run es (runq_new 2)))" "f (the (rq_run es (runq_new 2))) = y"
  using rq_run_reachable [OF map_option_the(1) [OF assms] rq_created] map_option_the(2) [OF assms] by simp_all

lemma rq_reachable_parts:
  assumes "rq_reachable s" "w < length (queues s)"
  shows "q_ok (queues s ! w)"
  using rq_reachable_inv [OF assms(1)] rq_inv_parts(3) [OF _ assms(2)] by blast

text \<open>
  C20: No task is lost and none is run twice. In every interleaving of owners that push
  and pop, thieves that steal, and users of the global queue, no uninitialised slot
  is read and no assertion fails, and the tasks that entered are exactly the tasks
  handed out, those in the local queues, those held by a worker inside an operation and
  those in the global queue; so a task is handed out at most as often as it entered.
\<close>

theorem run_queues_conserve_tasks:
  assumes "rq_reachable s"
  shows "\<not> bad s \<and> (\<exists>gl. list_ok GLOBALS (gheap s) gl \<and>
      mset (entered s) = mset (taken s) + (lives (queues s) + inflights (queues s) (pcs s) + mset gl)) \<and>
    (\<forall>t. count_list (taken s) t \<le> count_list (entered s) t \<and> count_list (entered s) t \<le> count_list (taken s) t + 1)"
proof -
  from rq_reachable_inv [OF assms] obtain gl where inv: "rq_inv s gl" by blast
  then have m: "mset (entered s) = mset (taken s) + (lives (queues s) + inflights (queues s) (pcs s) + mset gl)"
    by (simp add: rq_inv_def)
  have "count_list (taken s) t \<le> count_list (entered s) t" for t
    using arg_cong [OF m, of "\<lambda>M. count M t"] by (simp add: count_mset)
  with rq_inv_parts [OF inv] m show ?thesis by auto
qed

definition rq_example :: "rq_event list" where
  "rq_example = [Push 0 5, WStep 0, WStep 0, Push 0 6, WStep 0, WStep 0, Push 0 7, WStep 0, WStep 0, GlobalPush 8,
     Steal 1 0, WStep 1, WStep 1, WStep 1, PopFront 0, WStep 1, WStep 1, WStep 1]"

lemma rq_example_eval:
  "map_option (\<lambda>s. (entered s, taken s, length (queues s), remaining (queues s ! 1))) (rq_run rq_example (runq_new 2)) =
     Some ([5, 6, 7, 8], [7, 6], 2, 255)"
  by code_simp

theorem run_queues_conserve_tasks_witness:
  "let s = the (rq_run rq_example (runq_new 2)) in \<not> bad s \<and> taken s = [7, 6] \<and> count_list (taken s) 7 \<le> count_list (entered s) 7"
  using run_queues_conserve_tasks [OF rq_run_eval(1) [OF rq_example_eval]] rq_run_eval(2) [OF rq_example_eval]
  by (simp add: Let_def)

text \<open>
  C21: The positions of a local queue stay consistent although they wrap around: the queue
  never holds more than its 256 slots, its length and the number of remaining slots computed from the wrapped words
  are the true ones, and the subtraction in \<open>remaining\<close> never goes below zero.
\<close>

theorem local_queue_bounds:
  assumes "rq_reachable s" "w < length (queues s)"
  shows "let q = queues s ! w in length (buffer q) = LOCAL_QUEUE_CAP \<and> unat (lq_len q) = length (live q) \<and>
    length (live q) \<le> LOCAL_QUEUE_CAP \<and> rear q - fst (unwrap_pos (front q)) \<le> cap q \<and>
    unat (remaining q) = LOCAL_QUEUE_CAP - (g_rear q - g_steal q) \<and> (lq_is_empty q \<longleftrightarrow> live q = [])"
proof -
  let ?q = "queues s ! w"
  have q: "q_ok ?q" by (rule rq_reachable_parts [OF assms])
  note ws = q_ok_words [OF q]
  have b: "g_rear ?q - g_steal ?q \<le> 256" "g_head ?q \<le> g_rear ?q" "g_steal ?q \<le> g_head ?q" "length (buffer ?q) = 256"
    using q by (auto simp: q_ok_def)
  then have le: "rear ?q - of_nat (g_steal ?q) \<le> 256" using ws(3) by (simp add: word_le_nat_alt)
  then have "unat (remaining ?q) = 256 - (g_rear ?q - g_steal ?q)" using ws by (simp add: remaining_def unat_sub)
  moreover have "unat (lq_len ?q) = g_rear ?q - g_head ?q" using ws(1,4) by (simp add: lq_len_def)
  moreover have "length (live ?q) = g_rear ?q - g_head ?q" by (simp add: live_def)
  moreover have "lq_is_empty ?q \<longleftrightarrow> g_head ?q = g_rear ?q" using ws(1,7) by (simp add: lq_is_empty_def)
  ultimately show ?thesis using b le ws(1,5) unfolding Let_def LOCAL_QUEUE_CAP_def
    by (auto simp: live_def window_def)
qed

theorem local_queue_bounds_witness:
  "let s = the (rq_run rq_example (runq_new 2)) in unat (remaining (queues s ! 1)) = 255 \<and> length (live (queues s ! 1)) \<le> 256"
  using local_queue_bounds [OF rq_run_eval(1) [OF rq_example_eval], of 1] rq_run_eval(2) [OF rq_example_eval]
  by (simp add: Let_def LOCAL_QUEUE_CAP_def)

text \<open>For its owner a local queue is a first-in first-out queue: a push that finds room
  appends the task, and \<open>pop_front\<close> returns the oldest task, or \<open>None\<close> exactly on an empty queue.
\<close>

theorem local_queue_refines_fifo:
  assumes "rq_reachable s" "w < length (queues s)"
  shows "let q = queues s ! w in
    (0 < remaining q \<longrightarrow> live (lq_push t q) = live q @ [t]) \<and>
    (case live q of [] \<Rightarrow> lq_pop_front q = (None, q)
     | t' # ts \<Rightarrow> fst (lq_pop_front q) = Some (Some t') \<and> live (snd (lq_pop_front q)) = ts)"
proof -
  let ?q = "queues s ! w"
  have q: "q_ok ?q" by (rule rq_reachable_parts [OF assms])
  have "g_rear ?q < g_steal ?q + 256" if "0 < remaining ?q"
  proof (rule ccontr)
    assume "\<not> ?thesis"
    with q have "g_rear ?q - g_steal ?q = 256" by (auto simp: q_ok_def)
    then have "unat (rear ?q - of_nat (g_steal ?q)) = unat (256 :: u16)" using q_ok_words(3) [OF q] by simp
    then have "rear ?q - of_nat (g_steal ?q) = 256" by (simp only: word_unat_eq_iff)
    with that q_ok_words [OF q] show False by (simp add: remaining_def)
  qed
  then show ?thesis
    using lq_push_ok(2) [OF q, of t] lq_pop_front_ok [OF q] by (auto simp: Let_def split: list.splits)
qed

theorem local_queue_refines_fifo_witness:
  "let q = queues (the (rq_run rq_example (runq_new 2))) ! 1 in live (lq_push 9 q) = live q @ [9]"
proof -
  have "0 < remaining (queues (the (rq_run rq_example (runq_new 2))) ! 1)"
    using rq_run_eval(2) [OF rq_example_eval] by simp
  with local_queue_refines_fifo [OF rq_run_eval(1) [OF rq_example_eval], of 1 9] rq_run_eval(2) [OF rq_example_eval]
  show ?thesis by (simp add: Let_def)
qed

text \<open>Packing the two 16-bit positions into the 32-bit word \<open>front\<close> and unpacking them
  again loses nothing, in both directions.
\<close>

theorem front_word_roundtrip:
  "unwrap_pos (wrap_pos steal_pos head_pos) = (steal_pos, head_pos) \<and>
   wrap_pos (fst (unwrap_pos num)) (snd (unwrap_pos num)) = num"
  by (simp add: wrap_unwrap)

lemma lq_drop_ok: "q_ok q \<Longrightarrow> \<exists>q'. lq_drop q acc = Some (acc @ map Some (live q), q') \<and> live q' = []"
proof (induction "live q" arbitrary: q acc)
  case Nil
  then show ?case using lq_pop_front_ok [of q] by (subst lq_drop.simps) simp
next
  case (Cons t ts)
  then obtain x where x: "lq_pop_front q = (Some (Some t), x)" "q_ok x" "live x = ts"
    using lq_pop_front_ok [of q] by (auto split: list.splits)
  from Cons.hyps(1) [OF x(3) [symmetric] x(2), of "acc @ [Some t]"] show ?case
    using x Cons.hyps(2) [symmetric] by (subst lq_drop.simps) simp
qed

lemma global_drop_ok:
  "list_ok GLOBALS (gheap s) gl \<Longrightarrow> glen s = of_nat (length gl) \<Longrightarrow> length gl < 2 ^ 64 \<Longrightarrow>
   \<exists>s'. global_drop s acc = Some (acc @ rev gl, s') \<and> global_is_empty s'"
proof (induction gl arbitrary: s acc rule: rev_induct)
  case Nil
  then show ?case by (subst global_drop.simps) (simp add: global_is_empty_def)
next
  case (snoc t ys)
  obtain h where h: "ll_pop_back GLOBALS (gheap s) = Some (Some t, h)" "list_ok GLOBALS h ys"
    using ll.pop_ok [OF snoc.prems(1)] by auto
  let ?s = "s\<lparr>gheap := h, glen := glen s - 1\<rparr>"
  have "unat (glen s) = length (ys @ [t])"
    unfolding snoc.prems(2) using snoc.prems(3) by (simp add: unat_of_nat del: of_nat_Suc)
  then have e: "\<not> global_is_empty s" by (auto simp: global_is_empty_def)
  obtain s' where "global_drop ?s (acc @ [t]) = Some ((acc @ [t]) @ rev ys, s') \<and> global_is_empty s'"
    using snoc.IH [of ?s "acc @ [t]"] h(2) snoc.prems(2,3) by auto
  with h(1) e show ?case by (subst global_drop.simps) (simp add: global_pop_front_def)
qed

text \<open>Dropping the queues ends and shuts down every task left in them: the loop of the
  local queue returns all of its tasks, initialised ones only, and the loop of
  the global queue, once no worker is inside an operation, never meets the failing
  \<open>unwrap\<close> and empties the queue.
\<close>

theorem queue_drop_ends:
  assumes "rq_reachable s" "w < length (queues s)" "\<forall>v < length (queues s). pcs s ! v = WIdle"
  shows "(\<exists>q'. lq_drop (queues s ! w) [] = Some (map Some (live (queues s ! w)), q') \<and> live q' = []) \<and>
    (\<exists>gl s'. list_ok GLOBALS (gheap s) gl \<and> global_drop s [] = Some (rev gl, s') \<and> global_is_empty s')"
proof -
  from rq_reachable_inv [OF assms(1)] obtain gl where inv: "rq_inv s gl" by blast
  have "pends (pcs s) = 0" using assms(3) rq_inv_parts(1) [OF inv] by (simp add: pends_def)
  then have "\<exists>s'. global_drop s [] = Some ([] @ rev gl, s') \<and> global_is_empty s'"
    using global_length_bound [OF inv] rq_inv_parts(5,6) [OF inv] by (intro global_drop_ok) simp_all
  with lq_drop_ok [OF rq_inv_parts(3) [OF inv assms(2)], of "[]"] rq_inv_parts(5) [OF inv] show ?thesis by auto
qed

definition rq_small :: "rq_event list" where
  "rq_small = [Push 0 5, WStep 0, WStep 0]"

lemma rq_small_eval:
  "map_option (\<lambda>s. (pcs s, length (queues s), live (queues s ! 0))) (rq_run rq_small (runq_new 2)) = Some ([WIdle, WIdle], 2, [5])"
  by code_simp

theorem queue_drop_ends_witness:
  "\<exists>q'. lq_drop (queues (the (rq_run rq_small (runq_new 2))) ! 0) [] = Some ([Some 5], q')"
proof -
  let ?s = "the (rq_run rq_small (runq_new 2))"
  have e: "pcs ?s = [WIdle, WIdle]" "length (queues ?s) = 2" "live (queues ?s ! 0) = [5]"
    using rq_run_eval(2) [OF rq_small_eval] by simp_all
  have "0 < length (queues ?s)" "\<forall>v < length (queues ?s). pcs ?s ! v = WIdle"
    unfolding e(1,2) by (auto simp: less_2_cases_iff)
  from queue_drop_ends [OF rq_run_eval(1) [OF rq_small_eval] this] show ?thesis unfolding e(3) by auto
qed

end
