(* ===== verification/Bit_Mask.thy ===== *)
theory Bit_Mask
  imports Prelude
begin

unbundle bit_operations_syntax

text \<open>
  Fields of a machine word (\<open>ylong_runtime/src/util/bit.rs\<close>): a \<open>Mask\<close> is a segment of
  consecutive bits, and a \<open>Bit\<close> is a word that is read and written segment by segment.
\<close>

section \<open>Definitions\<close>

record mask_seg =
  mask_bits :: usize
  mask_shift :: u32

definition USIZE_LEN :: u32 where "USIZE_LEN = 64"

text \<open>\<open>usize::wrapping_shl\<close>: the distance is taken modulo the word length.\<close>

definition wrapping_shl :: "usize \<Rightarrow> u32 \<Rightarrow> usize" where
  "wrapping_shl x n = push_bit (unat (n mod USIZE_LEN)) x"

definition mask_new :: "u32 \<Rightarrow> u32 \<Rightarrow> mask_seg" where
  "mask_new width shift =
     (if width \<ge> USIZE_LEN then \<lparr>mask_bits = 0 - 1, mask_shift = 0\<rparr>
      else if width = 0 then \<lparr>mask_bits = 0, mask_shift = 0\<rparr>
      else let wb = wrapping_shl 1 width - 1; left = USIZE_LEN - width; sh = (if left > shift then shift else left) in
        \<lparr>mask_bits = wrapping_shl wb sh, mask_shift = sh\<rparr>)"

datatype bit_word = Bit usize

definition from_usize :: "usize \<Rightarrow> bit_word" where
  "from_usize val = Bit val"

fun as_usize :: "bit_word \<Rightarrow> usize" where
  "as_usize (Bit val) = val"

definition set_by_mask :: "mask_seg \<Rightarrow> usize \<Rightarrow> bit_word \<Rightarrow> bit_word" where
  "set_by_mask m val b =
     Bit ((as_usize b AND NOT (mask_bits m)) OR (push_bit (unat (mask_shift m)) val AND mask_bits m))"

definition get_by_mask :: "bit_word \<Rightarrow> mask_seg \<Rightarrow> usize" where
  "get_by_mask b m = drop_bit (unat (mask_shift m)) (as_usize b AND mask_bits m)"

section \<open>Segments\<close>

text \<open>The segment a mask stands for: the width and offset that \<open>Mask::new\<close> settles on.\<close>

definition seg_width :: "u32 \<Rightarrow> nat" where
  "seg_width width = min (unat width) 64"

definition seg_shift :: "u32 \<Rightarrow> u32 \<Rightarrow> nat" where
  "seg_shift width shift = (if width = 0 then 0 else min (unat shift) (64 - seg_width width))"

lemma seg_fits: "seg_shift width shift + seg_width width \<le> 64"
  by (auto simp: seg_shift_def seg_width_def min_def)

lemma wrapping_shl_small: "unat n < 64 \<Longrightarrow> wrapping_shl x n = push_bit (unat n) x"
  by (simp add: wrapping_shl_def USIZE_LEN_def unat_mod)

lemma mask_new_eq:
  "mask_bits (mask_new width shift) = push_bit (seg_shift width shift) (mask (seg_width width))"
  "unat (mask_shift (mask_new width shift)) = seg_shift width shift"
proof -
  consider (full) "width \<ge> 64" | (none) "width = 0" | (some) "width \<noteq> 0" "\<not> width \<ge> 64" by blast
  then have "mask_bits (mask_new width shift) = push_bit (seg_shift width shift) (mask (seg_width width)) \<and>
    unat (mask_shift (mask_new width shift)) = seg_shift width shift"
  proof cases
    case full
    then have "64 \<le> unat width" by (simp add: word_le_nat_alt)
    moreover have "(mask 64 :: usize) = - 1" by (rule mask_full [where 'a = 64, simplified])
    moreover have "width \<noteq> 0" using full by auto
    ultimately show ?thesis using full by (simp add: mask_new_def USIZE_LEN_def seg_shift_def seg_width_def)
  next
    case none
    then show ?thesis by (simp add: mask_new_def USIZE_LEN_def seg_shift_def seg_width_def)
  next
    case some
    then have w: "unat width < 64" "0 < unat width" by (simp_all add: word_le_nat_alt unat_gt_0)
    let ?left = "64 - width"
    have l: "unat ?left = 64 - unat width" using w by (simp add: unat_sub word_le_nat_alt)
    let ?sh = "if ?left > shift then shift else ?left"
    have sh: "unat ?sh = seg_shift width shift"
      using some(1) w l by (simp add: seg_shift_def seg_width_def word_less_nat_alt)
    then have "unat ?sh < 64" using w by (simp add: seg_shift_def seg_width_def split: if_splits)
    then have "wrapping_shl (wrapping_shl 1 width - 1) ?sh = push_bit (seg_shift width shift) (mask (unat width))"
      using w sh by (simp add: wrapping_shl_small mask_eq_exp_minus_1 push_bit_of_1 del: if_split)
    then show ?thesis using some w sh by (simp add: mask_new_def USIZE_LEN_def Let_def seg_width_def del: if_split)
  qed
  then show "mask_bits (mask_new width shift) = push_bit (seg_shift width shift) (mask (seg_width width))"
    "unat (mask_shift (mask_new width shift)) = seg_shift width shift" by simp_all
qed

lemma bit_mask_new:
  "bit (mask_bits (mask_new width shift)) i \<longleftrightarrow> seg_shift width shift \<le> i \<and> i < seg_shift width shift + seg_width width"
  using seg_fits [of width shift] by (auto simp: mask_new_eq(1) bit_simps)

lemma bit_get:
  "bit (get_by_mask b (mask_new width shift)) i \<longleftrightarrow> i < seg_width width \<and> bit (as_usize b) (i + seg_shift width shift)"
  using seg_fits [of width shift]
  by (auto simp: get_by_mask_def mask_new_eq(2) bit_drop_bit_eq bit_and_iff bit_mask_new add.commute)

lemma bit_set:
  "bit (as_usize (set_by_mask (mask_new width shift) val b)) i \<longleftrightarrow>
    (if seg_shift width shift \<le> i \<and> i < seg_shift width shift + seg_width width then bit val (i - seg_shift width shift)
     else bit (as_usize b) i)"
  using seg_fits [of width shift] bit_imp_le_length [of "as_usize b" i]
  by (auto simp: set_by_mask_def bit_simps bit_mask_new mask_new_eq(2))

section \<open>Properties\<close>

text \<open>Every mask, whatever width and offset are asked for, is a segment of consecutive
  bits inside the word: as wide as asked, at most the word length, and moved down when it would stick out.
\<close>

theorem mask_is_segment:
  "(bit (mask_bits (mask_new width shift)) i \<longleftrightarrow>
    unat (mask_shift (mask_new width shift)) \<le> i \<and> i < unat (mask_shift (mask_new width shift)) + min (unat width) 64) \<and>
   unat (mask_shift (mask_new width shift)) + min (unat width) 64 \<le> 64"
  using seg_fits [of width shift] by (simp add: bit_mask_new mask_new_eq(2) seg_width_def)

text \<open>
  C22: Writing a field and reading it back gives the value cut to the width of
  the field; a field that does not overlap keeps its value; and the
  conversion between \<open>Bit\<close> and \<open>usize\<close> is the identity.
\<close>

theorem field_roundtrip:
  assumes "unat (mask_shift (mask_new w1 s1)) + unat w1 \<le> unat (mask_shift (mask_new w2 s2)) \<or>
    unat (mask_shift (mask_new w2 s2)) + unat w2 \<le> unat (mask_shift (mask_new w1 s1))"
  shows "get_by_mask (set_by_mask (mask_new w1 s1) val b) (mask_new w1 s1) = take_bit (min (unat w1) 64) val \<and>
    get_by_mask (set_by_mask (mask_new w1 s1) val b) (mask_new w2 s2) = get_by_mask b (mask_new w2 s2) \<and>
    from_usize (as_usize b) = b \<and> as_usize (from_usize val) = val"
proof -
  have d: "\<not> (seg_shift w1 s1 \<le> i + seg_shift w2 s2 \<and> i + seg_shift w2 s2 < seg_shift w1 s1 + seg_width w1)"
    if "i < seg_width w2" for i
    using assms that by (auto simp: mask_new_eq(2) seg_width_def)
  have 1: "get_by_mask (set_by_mask (mask_new w1 s1) val b) (mask_new w1 s1) = take_bit (min (unat w1) 64) val"
    by (rule bit_word_eqI) (auto simp: bit_get bit_set bit_take_bit_iff seg_width_def)
  have 2: "get_by_mask (set_by_mask (mask_new w1 s1) val b) (mask_new w2 s2) = get_by_mask b (mask_new w2 s2)"
    by (rule bit_word_eqI) (use d in \<open>auto simp: bit_get bit_set\<close>)
  show ?thesis using 1 2 by (cases b) (simp add: from_usize_def)
qed

theorem field_roundtrip_witness:
  "get_by_mask (set_by_mask (mask_new 8 16) 0x1234 (Bit 0xFF00FF)) (mask_new 8 16) = 0x34 \<and>
   get_by_mask (set_by_mask (mask_new 8 16) 0x1234 (Bit 0xFF00FF)) (mask_new 16 0) = 0xFF"
proof -
  have "unat (mask_shift (mask_new 16 0)) + unat (16 :: u32) \<le> unat (mask_shift (mask_new 8 16))"
    "take_bit (min (unat (8 :: u32)) 64) (0x1234 :: usize) = 0x34" "get_by_mask (Bit 0xFF00FF) (mask_new 16 0) = 0xFF"
    by code_simp+
  with field_roundtrip [of 8 16 16 0 "0x1234" "Bit 0xFF00FF"] show ?thesis by simp
qed

end
