(* ===== verification/Net_Ready.thy ===== *)
theory Net_Ready
  imports Prelude
begin

unbundle bit_operations_syntax

text \<open>
  Interests and readiness of an I/O source: \<open>Interest\<close> of \<open>ylong_io/src/interest.rs\<close> and
  \<open>Ready\<close>, \<open>ReadyEvent\<close> of \<open>ylong_runtime/src/net/ready.rs\<close>, as words with one bit
  per kind of event. A kernel event is known by the answers of its four
  predicates.
\<close>

section \<open>Interest\<close>

datatype interest = Interest u8

definition I_READABLE :: u8 where "I_READABLE = 1"
definition I_WRITABLE :: u8 where "I_WRITABLE = 2"

definition INTEREST_READABLE :: interest where "INTEREST_READABLE = Interest I_READABLE"
definition INTEREST_WRITABLE :: interest where "INTEREST_WRITABLE = Interest I_WRITABLE"

fun interest_add :: "interest \<Rightarrow> interest \<Rightarrow> interest" where
  "interest_add (Interest a) (Interest b) = Interest (a OR b)"

fun i_is_readable :: "interest \<Rightarrow> bool" where
  "i_is_readable (Interest a) \<longleftrightarrow> a AND I_READABLE \<noteq> 0"

fun i_is_writable :: "interest \<Rightarrow> bool" where
  "i_is_writable (Interest a) \<longleftrightarrow> a AND I_WRITABLE \<noteq> 0"

section \<open>Ready\<close>

type_synonym ready = usize

definition R_READABLE :: ready where "R_READABLE = 1"
definition R_WRITABLE :: ready where "R_WRITABLE = 2"
definition R_READ_CLOSED :: ready where "R_READ_CLOSED = 4"
definition R_WRITE_CLOSED :: ready where "R_WRITE_CLOSED = 8"
definition R_EMPTY :: ready where "R_EMPTY = 0"
definition R_ALL :: ready where "R_ALL = R_READABLE OR R_WRITABLE OR R_READ_CLOSED OR R_WRITE_CLOSED"

record ready_event =
  re_tick :: u8
  re_ready :: ready

record io_event =
  ev_readable :: bool
  ev_writable :: bool
  ev_read_closed :: bool
  ev_write_closed :: bool

definition from_event :: "io_event \<Rightarrow> ready" where
  "from_event ev =
     (let r = R_EMPTY;
          r = (if ev_readable ev then r OR R_READABLE else r);
          r = (if ev_writable ev then r OR R_WRITABLE else r);
          r = (if ev_read_closed ev then r OR R_READ_CLOSED else r)
      in if ev_write_closed ev then r OR R_WRITE_CLOSED else r)"

definition r_is_empty :: "ready \<Rightarrow> bool" where
  "r_is_empty r = (r = R_EMPTY)"

definition r_is_read_closed :: "ready \<Rightarrow> bool" where
  "r_is_read_closed r = (r AND R_READ_CLOSED \<noteq> 0)"

definition r_is_write_closed :: "ready \<Rightarrow> bool" where
  "r_is_write_closed r = (r AND R_WRITE_CLOSED \<noteq> 0)"

definition r_is_readable :: "ready \<Rightarrow> bool" where
  "r_is_readable r = (r AND R_READABLE \<noteq> 0 \<or> r_is_read_closed r)"

definition r_is_writable :: "ready \<Rightarrow> bool" where
  "r_is_writable r = (r AND R_WRITABLE \<noteq> 0 \<or> r_is_write_closed r)"

definition ready_from_usize :: "usize \<Rightarrow> ready" where
  "ready_from_usize val = val AND R_ALL"

definition from_interest :: "interest \<Rightarrow> ready" where
  "from_interest i =
     (let r = R_EMPTY;
          r = (if i_is_readable i then (r OR R_READABLE) OR R_READ_CLOSED else r)
      in if i_is_writable i then (r OR R_WRITABLE) OR R_WRITE_CLOSED else r)"

definition intersection :: "ready \<Rightarrow> interest \<Rightarrow> ready" where
  "intersection r i = r AND from_interest i"

definition satisfies :: "ready \<Rightarrow> interest \<Rightarrow> bool" where
  "satisfies r i \<longleftrightarrow> r AND from_interest i \<noteq> 0"

definition ready_sub :: "ready \<Rightarrow> ready \<Rightarrow> ready" where
  "ready_sub a b = a AND NOT b"

section \<open>Facts\<close>

lemma R_ALL_mask: "R_ALL = mask 4"
  by (simp add: R_ALL_def R_READABLE_def R_WRITABLE_def R_READ_CLOSED_def R_WRITE_CLOSED_def mask_eq_exp_minus_1)

lemma from_usize_take: "ready_from_usize v = take_bit 4 v"
  by (simp only: ready_from_usize_def R_ALL_mask take_bit_eq_mask)

lemma from_interest_cases:
  "from_interest i = (if i_is_readable i then 5 else 0) OR (if i_is_writable i then 10 else 0)"
  by (simp add: from_interest_def Let_def R_EMPTY_def R_READABLE_def R_WRITABLE_def R_READ_CLOSED_def R_WRITE_CLOSED_def)

lemma from_interest_below: "take_bit 4 (from_interest i) = from_interest i"
  by (simp add: from_interest_cases)

lemma satisfies_intersection: "satisfies r i \<longleftrightarrow> \<not> r_is_empty (intersection r i)"
  by (simp add: satisfies_def r_is_empty_def intersection_def R_EMPTY_def)

lemma intersection_or: "intersection (a OR b) i = intersection a i OR intersection b i"
  by (simp add: intersection_def bit.conj_disj_distrib2)

lemma satisfies_or: "satisfies (a OR b) i \<longleftrightarrow> satisfies a i \<or> satisfies b i"
  by (simp add: satisfies_def bit.conj_disj_distrib2 or_eq_0_iff)

lemma satisfies_all: "i_is_readable i \<or> i_is_writable i \<Longrightarrow> satisfies R_ALL i"
  by (auto simp: satisfies_def from_interest_cases R_ALL_def R_READABLE_def R_WRITABLE_def R_READ_CLOSED_def R_WRITE_CLOSED_def)

lemma satisfies_take: "satisfies (take_bit 4 r) i \<longleftrightarrow> satisfies r i"
proof -
  have "take_bit 4 r AND from_interest i = take_bit 4 (r AND from_interest i)"
    by (simp add: from_interest_below)
  also have "\<dots> = r AND from_interest i"
    by (metis from_interest_below take_bit_and take_bit_eq_mask and.assoc and.commute and.left_commute and.idem)
  finally show ?thesis by (simp add: satisfies_def)
qed

end
