(* ===== verification/Schedule_IO.thy ===== *)
theory Schedule_IO
  imports Bit_Mask Net_Ready Linked_List
begin

unbundle bit_operations_syntax

text \<open>
  The state of one I/O source (\<open>ylong_runtime/src/net/schedule_io.rs\<close>): a status word
  with the readiness, the tick of the driver and a generation, and the tasks that
  wait for the source, as an intrusive list of \<open>Readiness\<close> futures and as one
  reader and one writer. The driver first writes the status and then wakes; the
  futures first look at the status and then, under the lock, look again and
  enqueue. The interleavings of these steps are the subject of the invariant.
\<close>

section \<open>The status word\<close>

definition GENERATION :: mask_seg where "GENERATION = mask_new 7 24"
definition DRIVER_TICK :: mask_seg where "DRIVER_TICK = mask_new 8 16"
definition READINESS :: mask_seg where "READINESS = mask_new 16 0"

datatype tick = TickSet u8 | TickClear u8

datatype io_error = TokenInvalid | ReadinessCovered

definition status_ready :: "usize \<Rightarrow> ready" where
  "status_ready v = ready_from_usize (get_by_mask (from_usize v) READINESS)"

definition status_tick :: "usize \<Rightarrow> u8" where
  "status_tick v = ucast (get_by_mask (from_usize v) DRIVER_TICK)"

definition status_generation :: "usize \<Rightarrow> usize" where
  "status_generation v = get_by_mask (from_usize v) GENERATION"

definition entry_reset :: "usize \<Rightarrow> usize" where
  "entry_reset v = as_usize (set_by_mask GENERATION (status_generation v + 1) (from_usize 0))"

definition get_readiness :: "usize \<Rightarrow> interest \<Rightarrow> ready_event" where
  "get_readiness v i = \<lparr>re_tick = status_tick v, re_ready = intersection (status_ready v) i\<rparr>"

fun handle_tick :: "tick \<Rightarrow> bit_word \<Rightarrow> usize \<Rightarrow> io_error + bit_word" where
  "handle_tick (TickSet t) new_bit cur = Inr (set_by_mask DRIVER_TICK (ucast t) new_bit)"
| "handle_tick (TickClear t) new_bit cur =
     (if status_tick cur \<noteq> t then Inl ReadinessCovered else Inr (set_by_mask DRIVER_TICK (ucast t) new_bit))"

definition set_readiness_try :: "usize option \<Rightarrow> tick \<Rightarrow> (ready \<Rightarrow> ready) \<Rightarrow> usize \<Rightarrow> (usize, io_error + unit) attempt" where
  "set_readiness_try token tk f cur =
     (if (case token of None \<Rightarrow> False | Some tok \<Rightarrow> get_by_mask (from_usize tok) GENERATION \<noteq> status_generation cur)
      then Abort (Inl TokenInvalid)
      else case handle_tick tk (from_usize (f (status_ready cur))) cur of
        Inl e \<Rightarrow> Abort (Inl e)
      | Inr new_bit \<Rightarrow> Swap (as_usize (set_by_mask GENERATION (status_generation cur) new_bit)) (Inr ()))"

definition set_readiness :: "usize option \<Rightarrow> tick \<Rightarrow> (ready \<Rightarrow> ready) \<Rightarrow> usize list \<Rightarrow> usize \<Rightarrow> (io_error + unit) \<times> usize" where
  "set_readiness token tk f env cell = cas_run (set_readiness_try token tk f) env cell"

definition clear_mask :: "ready_event \<Rightarrow> ready" where
  "clear_mask ev = ready_sub (ready_sub (re_ready ev) R_READ_CLOSED) R_WRITE_CLOSED"

definition clear_readiness :: "ready_event \<Rightarrow> usize \<Rightarrow> usize" where
  "clear_readiness ev cell =
     snd (atomically (set_readiness_try None (TickClear (re_tick ev)) (\<lambda>c. ready_sub c (clear_mask ev))) cell)"

section \<open>Waiters\<close>

record waiter =
  w_waker :: "nat option"
  w_interest :: interest
  w_ready :: bool

text \<open>State of a \<open>Readiness\<close> future; \<open>SLock\<close>: in \<open>poll_init\<close>, about to take the lock.\<close>

datatype rstate = SInit | SLock nat | SWaiting | SDone | SDropped

text \<open>
  The node of future \<open>i\<close> has address \<open>Suc i\<close>. The last fields are no memory of the
  program: the wakers woken so far, the readiness the driver has written but
  not yet announced, and whether the last poll of the reader and the writer answered \<open>Pending\<close> and was not woken since.
\<close>

record sio =
  status :: usize
  wheap :: node_heap
  reader :: "nat option"
  writer :: "nat option"
  is_shutdown :: bool
  wts :: "nat \<Rightarrow> waiter"
  rstates :: "rstate list"
  sio_panic :: bool
  woken :: "nat list"
  pending :: "ready option"
  rd_waits :: bool
  wr_waits :: bool

definition WAITERS :: nat where "WAITERS = 0"

definition waiter_default :: waiter where
  "waiter_default = \<lparr>w_waker = None, w_interest = INTEREST_READABLE, w_ready = False\<rparr>"

definition sio_default :: sio where
  "sio_default = \<lparr>status = 0, wheap = ll_new WAITERS (\<lambda>_. node_new), reader = None, writer = None, is_shutdown = False,
     wts = (\<lambda>_. waiter_default), rstates = [], sio_panic = False, woken = [], pending = None, rd_waits = False, wr_waits = False\<rparr>"

text \<open>The closure of \<open>wake0\<close>; it collects the wakers.\<close>

definition wake_filter :: "ready \<Rightarrow> nat \<Rightarrow> (nat \<Rightarrow> waiter) \<times> nat list \<Rightarrow> bool \<times> (nat \<Rightarrow> waiter) \<times> nat list" where
  "wake_filter r a = (\<lambda>(ws, acc).
     if satisfies r (w_interest (ws a))
     then (case w_waker (ws a) of
             Some w \<Rightarrow> (True, (ws(a := (ws a)\<lparr>w_waker := None, w_ready := True\<rparr>), acc @ [w]))
           | None \<Rightarrow> (True, (ws, acc)))
     else (False, (ws, acc)))"

definition wake0 :: "ready \<Rightarrow> bool \<Rightarrow> sio \<Rightarrow> sio" where
  "wake0 r shutdown s =
     (let s1 = s\<lparr>is_shutdown := is_shutdown s \<or> shutdown\<rparr>;
          (acc1, s2) = (if r_is_readable r then (case reader s1 of Some w \<Rightarrow> [w] | None \<Rightarrow> [], s1\<lparr>reader := None, rd_waits := False\<rparr>) else ([], s1));
          (acc2, s3) = (if r_is_writable r then (case writer s2 of Some w \<Rightarrow> acc1 @ [w] | None \<Rightarrow> acc1, s2\<lparr>writer := None, wr_waits := False\<rparr>) else (acc1, s2))
      in case drain_filtered WAITERS (wake_filter r) (wts s3, acc2) (wheap s3) of
           None \<Rightarrow> s3\<lparr>sio_panic := True\<rparr>
         | Some ((ws, acc), h) \<Rightarrow> s3\<lparr>wts := ws, wheap := h, woken := woken s3 @ acc\<rparr>)"

definition sio_wake :: "ready \<Rightarrow> sio \<Rightarrow> sio" where
  "sio_wake r s = wake0 r False s"

definition sio_shutdown :: "sio \<Rightarrow> sio" where
  "sio_shutdown s = wake0 R_ALL True s"

text \<open>
  \<open>poll_readiness\<close>; \<open>seen\<close> is what the load before the lock returned. \<open>None\<close> is the
  \<open>unreachable!\<close> branch.
\<close>

definition poll_readiness :: "usize \<Rightarrow> interest \<Rightarrow> nat \<Rightarrow> sio \<Rightarrow> (ready_event poll \<times> sio) option" where
  "poll_readiness seen i w s =
     (let ready = intersection (status_ready seen) i in
      if r_is_empty ready
      then (case (if i = INTEREST_WRITABLE then Some (s\<lparr>writer := Some w\<rparr>)
                  else if i = INTEREST_READABLE then Some (s\<lparr>reader := Some w\<rparr>) else None) of
              None \<Rightarrow> None
            | Some s1 \<Rightarrow>
                let ev = get_readiness (status s1) i in
                if \<not> is_shutdown s1 \<and> r_is_empty (re_ready ev) then Some (Pending, s1) else Some (Ready ev, s1))
      else Some (Ready \<lparr>re_tick = status_tick seen, re_ready = ready\<rparr>, s))"

section \<open>The \<open>Readiness\<close> future\<close>

definition set_rstate :: "nat \<Rightarrow> rstate \<Rightarrow> sio \<Rightarrow> sio" where
  "set_rstate i st s = s\<lparr>rstates := (rstates s)[i := st]\<rparr>"

definition set_waiter :: "nat \<Rightarrow> waiter \<Rightarrow> sio \<Rightarrow> sio" where
  "set_waiter a w s = s\<lparr>wts := (wts s)(a := w)\<rparr>"

definition readiness_new :: "interest \<Rightarrow> sio \<Rightarrow> sio" where
  "readiness_new i s =
     (let a = Suc (length (rstates s)) in
      s\<lparr>rstates := rstates s @ [SInit], wts := (wts s)(a := \<lparr>w_waker = None, w_interest = i, w_ready = False\<rparr>),
        wheap := (wheap s)(a := node_new)\<rparr>)"

definition poll_init :: "nat \<Rightarrow> nat \<Rightarrow> sio \<Rightarrow> ready_event option \<times> sio" where
  "poll_init f w s =
     (let ready = intersection (status_ready (status s)) (w_interest (wts s (Suc f))) in
      if \<not> r_is_empty ready then (Some \<lparr>re_tick = status_tick (status s), re_ready = ready\<rparr>, set_rstate f SDone s)
      else (None, set_rstate f (SLock w) s))"

definition poll_init_locked :: "nat \<Rightarrow> nat \<Rightarrow> sio \<Rightarrow> ready_event option \<times> sio" where
  "poll_init_locked f w s =
     (let a = Suc f; readiness = (if is_shutdown s then R_ALL else status_ready (status s));
          ready = intersection readiness (w_interest (wts s a)) in
      if \<not> r_is_empty ready then (Some \<lparr>re_tick = status_tick (status s), re_ready = ready\<rparr>, set_rstate f SDone s)
      else (None, set_rstate f SWaiting (set_waiter a ((wts s a)\<lparr>w_waker := Some w\<rparr>) s)
             \<lparr>wheap := ll_push_front WAITERS a (wheap s)\<rparr>))"

text \<open>\<open>set_waker\<close>: \<open>Some True\<close> means pending, \<open>None\<close> the failing \<open>unwrap\<close>.\<close>

definition sio_set_waker :: "nat \<Rightarrow> nat \<Rightarrow> sio \<Rightarrow> (bool \<times> sio) option" where
  "sio_set_waker f w s =
     (let a = Suc f; wt = wts s a in
      if w_ready wt then Some (False, set_rstate f SDone s)
      else (case w_waker wt of
              None \<Rightarrow> None
            | Some old \<Rightarrow> Some (True, if old \<noteq> w then set_waiter a (wt\<lparr>w_waker := Some w\<rparr>) s else s)))"

definition poll_done :: "nat \<Rightarrow> sio \<Rightarrow> ready_event" where
  "poll_done f s = \<lparr>re_tick = status_tick (status s), re_ready = from_interest (w_interest (wts s (Suc f)))\<rparr>"

definition readiness_drop :: "nat \<Rightarrow> sio \<Rightarrow> sio" where
  "readiness_drop f s = set_rstate f SDropped (s\<lparr>wheap := snd (ll_remove (Suc f) (wheap s))\<rparr>)"

section \<open>The system\<close>

datatype sio_event =
    NewReadiness interest
  | PollReadiness nat nat
  | PollLocked nat
  | DropReadiness nat
  | PollRW usize interest nat
  | DriverSet usize u8 ready
  | DriverWake
  | ClearReadiness ready_event
  | Shutdown
  | ResetEntry

definition fstate :: "nat \<Rightarrow> sio \<Rightarrow> rstate option" where
  "fstate f s = (if f < length (rstates s) then Some (rstates s ! f) else None)"

definition driver_set :: "usize \<Rightarrow> u8 \<Rightarrow> ready \<Rightarrow> sio \<Rightarrow> sio" where
  "driver_set tok t r s =
     (case atomically (set_readiness_try (Some tok) (TickSet t) (\<lambda>c. c OR r)) (status s) of
        (Inl _, _) \<Rightarrow> s
      | (Inr _, v) \<Rightarrow> s\<lparr>status := v, pending := Some r\<rparr>)"

definition poll_rw :: "usize \<Rightarrow> interest \<Rightarrow> nat \<Rightarrow> sio \<Rightarrow> sio" where
  "poll_rw seen i w s =
     (case poll_readiness seen i w s of
        None \<Rightarrow> s\<lparr>sio_panic := True\<rparr>
      | Some (r, s') \<Rightarrow> if i = INTEREST_READABLE then s'\<lparr>rd_waits := (r = Pending)\<rparr> else s'\<lparr>wr_waits := (r = Pending)\<rparr>)"

fun sio_step :: "sio_event \<Rightarrow> sio \<Rightarrow> sio option" where
  "sio_step (NewReadiness i) s = (if i_is_readable i \<or> i_is_writable i then Some (readiness_new i s) else None)"
| "sio_step (PollReadiness f w) s =
     (case fstate f s of
        Some SInit \<Rightarrow> Some (snd (poll_init f w s))
      | Some SWaiting \<Rightarrow> (case sio_set_waker f w s of None \<Rightarrow> Some (s\<lparr>sio_panic := True\<rparr>) | Some (_, s') \<Rightarrow> Some s')
      | Some SDone \<Rightarrow> Some s
      | _ \<Rightarrow> None)"
| "sio_step (PollLocked f) s = (case fstate f s of Some (SLock w) \<Rightarrow> Some (snd (poll_init_locked f w s)) | _ \<Rightarrow> None)"
| "sio_step (DropReadiness f) s =
     (case fstate f s of None \<Rightarrow> None | Some (SLock _) \<Rightarrow> None | Some SDropped \<Rightarrow> None | _ \<Rightarrow> Some (readiness_drop f s))"
| "sio_step (PollRW seen i w) s =
     (if i = INTEREST_READABLE \<or> i = INTEREST_WRITABLE then Some (poll_rw seen i w s) else None)"
| "sio_step (DriverSet tok t r) s = (if pending s = None then Some (driver_set tok t r s) else None)"
| "sio_step DriverWake s = (case pending s of None \<Rightarrow> None | Some r \<Rightarrow> Some ((sio_wake r s)\<lparr>pending := None\<rparr>))"
| "sio_step (ClearReadiness ev) s = Some (s\<lparr>status := clear_readiness ev (status s)\<rparr>)"
| "sio_step Shutdown s = Some (sio_shutdown s)"
| "sio_step ResetEntry s =
     (if pending s = None \<and> set (rstates s) \<subseteq> {SDropped} then Some (s\<lparr>status := entry_reset (status s)\<rparr>) else None)"

inductive sio_reachable :: "sio \<Rightarrow> bool" where
  sio_created: "sio_reachable sio_default"
| sio_stepped: "sio_reachable s \<Longrightarrow> sio_step e s = Some t \<Longrightarrow> sio_reachable t"

fun sio_run :: "sio_event list \<Rightarrow> sio \<Rightarrow> sio option" where
  "sio_run [] s = Some s"
| "sio_run (e # es) s = (case sio_step e s of None \<Rightarrow> None | Some t \<Rightarrow> sio_run es t)"

section \<open>Fields of the status word\<close>

lemma segs [simp]:
  "seg_width 16 = 16" "seg_shift 16 0 = 0" "seg_width 8 = 8" "seg_shift 8 16 = 16" "seg_width 7 = 7" "seg_shift 7 24 = 24"
  by (simp_all add: seg_width_def seg_shift_def)

lemma status_bits:
  "bit (get_by_mask b READINESS) i \<longleftrightarrow> i < 16 \<and> bit (as_usize b) i"
  "bit (get_by_mask b DRIVER_TICK) i \<longleftrightarrow> i < 8 \<and> bit (as_usize b) (i + 16)"
  "bit (get_by_mask b GENERATION) i \<longleftrightarrow> i < 7 \<and> bit (as_usize b) (i + 24)"
  "bit (as_usize (set_by_mask DRIVER_TICK v b)) i \<longleftrightarrow> (if 16 \<le> i \<and> i < 24 then bit v (i - 16) else bit (as_usize b) i)"
  "bit (as_usize (set_by_mask GENERATION v b)) i \<longleftrightarrow> (if 24 \<le> i \<and> i < 31 then bit v (i - 24) else bit (as_usize b) i)"
  by (simp_all add: READINESS_def DRIVER_TICK_def GENERATION_def bit_get bit_set)

lemma as_usize_from [simp]: "as_usize (from_usize v) = v"
  by (simp add: from_usize_def)

lemma status_ready_take: "status_ready v = take_bit 4 v"
  unfolding status_ready_def from_usize_take
  by (rule bit_word_eqI) (auto simp: bit_take_bit_iff status_bits)

definition new_status :: "usize \<Rightarrow> u8 \<Rightarrow> ready \<Rightarrow> usize" where
  "new_status cur t r =
     as_usize (set_by_mask GENERATION (status_generation cur) (set_by_mask DRIVER_TICK (ucast t) (from_usize r)))"

lemma new_status_fields:
  "status_ready (new_status cur t r) = take_bit 4 r" "status_tick (new_status cur t r) = t"
  "status_generation (new_status cur t r) = status_generation cur"
proof -
  show "status_ready (new_status cur t r) = take_bit 4 r"
    unfolding status_ready_take new_status_def
    by (rule bit_word_eqI) (auto simp: bit_take_bit_iff status_bits)
  show "status_tick (new_status cur t r) = t"
    unfolding status_tick_def new_status_def
    by (rule bit_word_eqI) (simp add: bit_ucast_iff status_bits)
  show "status_generation (new_status cur t r) = status_generation cur"
    unfolding status_generation_def [of "new_status cur t r"] new_status_def
    by (rule bit_word_eqI) (auto simp: status_bits status_generation_def)
qed

lemma set_readiness_result:
  "atomically (set_readiness_try token tk f) cur =
     (if (case token of None \<Rightarrow> False | Some tok \<Rightarrow> get_by_mask (from_usize tok) GENERATION \<noteq> status_generation cur)
      then (Inl TokenInvalid, cur)
      else case tk of
        TickSet t \<Rightarrow> (Inr (), new_status cur t (f (status_ready cur)))
      | TickClear t \<Rightarrow> if status_tick cur \<noteq> t then (Inl ReadinessCovered, cur) else (Inr (), new_status cur t (f (status_ready cur))))"
  by (cases tk) (simp_all add: atomically_def set_readiness_try_def new_status_def)

lemma satisfies_mono: "satisfies (ready_sub a b) i \<Longrightarrow> satisfies a i"
proof -
  have "(a AND NOT b) AND from_interest i = (a AND from_interest i) AND NOT b" by (simp add: ac_simps)
  then show "satisfies (ready_sub a b) i \<Longrightarrow> satisfies a i" by (auto simp: satisfies_def ready_sub_def)
qed

lemma clear_readiness_mono: "satisfies (status_ready (clear_readiness ev v)) i \<Longrightarrow> satisfies (status_ready v) i"
  by (auto simp: clear_readiness_def set_readiness_result new_status_fields satisfies_take dest: satisfies_mono split: if_splits)

lemma readable_satisfies: "r_is_readable r \<longleftrightarrow> satisfies r INTEREST_READABLE"
proof -
  have "r AND 5 = (r AND 1) OR (r AND 4)" by (simp flip: bit.conj_disj_distrib)
  then show ?thesis
    by (simp add: r_is_readable_def r_is_read_closed_def satisfies_def from_interest_cases INTEREST_READABLE_def
        I_READABLE_def I_WRITABLE_def R_READABLE_def R_READ_CLOSED_def or_eq_0_iff)
qed

lemma writable_satisfies: "r_is_writable r \<longleftrightarrow> satisfies r INTEREST_WRITABLE"
proof -
  have "r AND 10 = (r AND 2) OR (r AND 8)" by (simp flip: bit.conj_disj_distrib)
  then show ?thesis
    by (simp add: r_is_writable_def r_is_write_closed_def satisfies_def from_interest_cases INTEREST_WRITABLE_def
        I_READABLE_def I_WRITABLE_def R_WRITABLE_def R_WRITE_CLOSED_def or_eq_0_iff)
qed

section \<open>Invariant\<close>

text \<open>An interest that is ready is one the driver is about to announce.\<close>

definition announced :: "sio \<Rightarrow> interest \<Rightarrow> bool" where
  "announced s i \<longleftrightarrow> (satisfies (status_ready (status s)) i \<longrightarrow> (\<exists>r. pending s = Some r \<and> satisfies r i))"

definition node_ok :: "sio \<Rightarrow> nat list \<Rightarrow> nat \<Rightarrow> bool" where
  "node_ok s ws f \<longleftrightarrow>
     (let wt = wts s (Suc f) in
      (i_is_readable (w_interest wt) \<or> i_is_writable (w_interest wt)) \<and>
      (if Suc f \<in> set ws
       then rstates s ! f = SWaiting \<and> w_waker wt \<noteq> None \<and> \<not> w_ready wt \<and> announced s (w_interest wt)
       else wheap s (Suc f) = node_new \<and> (rstates s ! f = SWaiting \<longrightarrow> w_ready wt) \<and>
         (w_ready wt \<longrightarrow> rstates s ! f \<in> {SWaiting, SDone, SDropped})))"

definition sio_inv :: "sio \<Rightarrow> nat list \<Rightarrow> bool" where
  "sio_inv s ws \<longleftrightarrow> \<not> sio_panic s \<and> list_ok WAITERS (wheap s) ws \<and> set ws \<subseteq> {Suc f | f. f < length (rstates s)} \<and>
     (\<forall>f<length (rstates s). node_ok s ws f) \<and> (is_shutdown s \<longrightarrow> ws = []) \<and>
     (rd_waits s \<longrightarrow> reader s \<noteq> None \<and> \<not> is_shutdown s \<and> announced s INTEREST_READABLE) \<and>
     (wr_waits s \<longrightarrow> writer s \<noteq> None \<and> \<not> is_shutdown s \<and> announced s INTEREST_WRITABLE)"

lemma sio_default_inv: "sio_inv sio_default []"
  by (simp add: sio_inv_def sio_default_def ll_new_ok)

lemma sio_invD:
  assumes "sio_inv s ws"
  shows "\<not> sio_panic s" "list_ok WAITERS (wheap s) ws" "\<And>a. a \<in> set ws \<Longrightarrow> \<exists>f<length (rstates s). a = Suc f"
    "\<And>f. f < length (rstates s) \<Longrightarrow> node_ok s ws f" "is_shutdown s \<Longrightarrow> ws = []"
    "rd_waits s \<Longrightarrow> reader s \<noteq> None \<and> \<not> is_shutdown s \<and> announced s INTEREST_READABLE"
    "wr_waits s \<Longrightarrow> writer s \<noteq> None \<and> \<not> is_shutdown s \<and> announced s INTEREST_WRITABLE"
  using assms by (auto simp: sio_inv_def)

text \<open>Steps that leave the list of waiters alone.\<close>

lemma sio_inv_same:
  assumes "sio_inv s ws" "sio_panic s' = sio_panic s" "wheap s' = wheap s" "wts s' = wts s" "rstates s' = rstates s"
    "is_shutdown s' = is_shutdown s" "\<And>i. announced s i \<Longrightarrow> announced s' i"
    "rd_waits s' \<Longrightarrow> reader s' \<noteq> None \<and> \<not> is_shutdown s \<and> announced s' INTEREST_READABLE"
    "wr_waits s' \<Longrightarrow> writer s' \<noteq> None \<and> \<not> is_shutdown s \<and> announced s' INTEREST_WRITABLE"
  shows "sio_inv s' ws"
proof -
  have "node_ok s' ws f" if "f < length (rstates s)" for f
    using sio_invD(4) [OF assms(1) that] assms(3-5,7) by (auto simp: node_ok_def Let_def)
  then show ?thesis using assms by (simp add: sio_inv_def)
qed

lemma driver_set_inv:
  assumes "sio_inv s ws" "pending s = None"
  shows "sio_inv (driver_set tok t r s) ws"
proof (cases "get_by_mask (from_usize tok) GENERATION = status_generation (status s)")
  case False
  then show ?thesis using assms by (simp add: driver_set_def set_readiness_result)
next
  case True
  let ?s = "s\<lparr>status := new_status (status s) t (status_ready (status s) OR r), pending := Some r\<rparr>"
  have "announced s i \<Longrightarrow> announced ?s i" for i
    using assms(2) by (auto simp: announced_def new_status_fields satisfies_take satisfies_or)
  then have "sio_inv ?s ws" using sio_invD [OF assms(1)] by (intro sio_inv_same [OF assms(1)]) auto
  then show ?thesis using True by (simp add: driver_set_def set_readiness_result)
qed

lemma clear_readiness_inv:
  assumes "sio_inv s ws"
  shows "sio_inv (s\<lparr>status := clear_readiness ev (status s)\<rparr>) ws"
proof -
  have "announced s i \<Longrightarrow> announced (s\<lparr>status := clear_readiness ev (status s)\<rparr>) i" for i
    using clear_readiness_mono by (auto simp: announced_def)
  then show ?thesis using sio_invD [OF assms] by (intro sio_inv_same [OF assms]) auto
qed

lemma entry_reset_ready: "status_ready (entry_reset v) = 0"
  unfolding status_ready_take entry_reset_def by (rule bit_word_eqI) (auto simp: bit_take_bit_iff status_bits)

lemma entry_reset_inv:
  assumes "sio_inv s ws"
  shows "sio_inv (s\<lparr>status := entry_reset (status s)\<rparr>) ws"
proof -
  have "announced (s\<lparr>status := entry_reset (status s)\<rparr>) i" for i by (simp add: announced_def entry_reset_ready satisfies_def)
  then show ?thesis using sio_invD [OF assms] by (intro sio_inv_same [OF assms]) auto
qed

lemma poll_rw_eq:
  "poll_rw seen INTEREST_READABLE w s =
     (if r_is_empty (intersection (status_ready seen) INTEREST_READABLE)
      then s\<lparr>reader := Some w, rd_waits := \<not> is_shutdown s \<and> r_is_empty (re_ready (get_readiness (status s) INTEREST_READABLE))\<rparr>
      else s\<lparr>rd_waits := False\<rparr>)"
  "poll_rw seen INTEREST_WRITABLE w s =
     (if r_is_empty (intersection (status_ready seen) INTEREST_WRITABLE)
      then s\<lparr>writer := Some w, wr_waits := \<not> is_shutdown s \<and> r_is_empty (re_ready (get_readiness (status s) INTEREST_WRITABLE))\<rparr>
      else s\<lparr>wr_waits := False\<rparr>)"
proof -
  have ne: "INTEREST_READABLE \<noteq> INTEREST_WRITABLE" "INTEREST_WRITABLE \<noteq> INTEREST_READABLE"
    by (simp_all add: INTEREST_READABLE_def INTEREST_WRITABLE_def I_READABLE_def I_WRITABLE_def)
  show "poll_rw seen INTEREST_READABLE w s =
     (if r_is_empty (intersection (status_ready seen) INTEREST_READABLE)
      then s\<lparr>reader := Some w, rd_waits := \<not> is_shutdown s \<and> r_is_empty (re_ready (get_readiness (status s) INTEREST_READABLE))\<rparr>
      else s\<lparr>rd_waits := False\<rparr>)"
    by (simp add: poll_rw_def poll_readiness_def Let_def ne)
  show "poll_rw seen INTEREST_WRITABLE w s =
     (if r_is_empty (intersection (status_ready seen) INTEREST_WRITABLE)
      then s\<lparr>writer := Some w, wr_waits := \<not> is_shutdown s \<and> r_is_empty (re_ready (get_readiness (status s) INTEREST_WRITABLE))\<rparr>
      else s\<lparr>wr_waits := False\<rparr>)"
    by (simp add: poll_rw_def poll_readiness_def Let_def ne)
qed

lemma announced_upd [simp]:
  "announced (s\<lparr>reader := a\<rparr>) i = announced s i" "announced (s\<lparr>writer := a\<rparr>) i = announced s i"
  "announced (s\<lparr>rd_waits := b\<rparr>) i = announced s i" "announced (s\<lparr>wr_waits := b\<rparr>) i = announced s i"
  "announced (s\<lparr>is_shutdown := b\<rparr>) i = announced s i" "announced (s\<lparr>wts := c\<rparr>) i = announced s i"
  "announced (s\<lparr>wheap := d\<rparr>) i = announced s i" "announced (s\<lparr>woken := e\<rparr>) i = announced s i"
  "announced (s\<lparr>rstates := f\<rparr>) i = announced s i"
  by (simp_all add: announced_def)

lemma poll_rw_inv:
  assumes "sio_inv s ws" "i = INTEREST_READABLE \<or> i = INTEREST_WRITABLE"
  shows "sio_inv (poll_rw seen i w s) ws"
proof -
  have fresh: "announced s j" if "r_is_empty (re_ready (get_readiness (status s) j))" for j
    using that by (simp add: announced_def satisfies_intersection get_readiness_def)
  show ?thesis
    using assms(2)
  proof (elim disjE)
    assume i: "i = INTEREST_READABLE"
    show ?thesis
      unfolding i poll_rw_eq by (rule sio_inv_same [OF assms(1)]) (use sio_invD(6,7) [OF assms(1)] fresh in \<open>simp_all split: if_splits\<close>)
  next
    assume i: "i = INTEREST_WRITABLE"
    show ?thesis
      unfolding i poll_rw_eq by (rule sio_inv_same [OF assms(1)]) (use sio_invD(6,7) [OF assms(1)] fresh in \<open>simp_all split: if_splits\<close>)
  qed
qed

text \<open>What the closure of \<open>wake0\<close> does to a list of waiters.\<close>

definition hit :: "ready \<Rightarrow> (nat \<Rightarrow> waiter) \<Rightarrow> nat \<Rightarrow> bool" where
  "hit r ws a \<longleftrightarrow> satisfies r (w_interest (ws a))"

lemma keep_wake_filter:
  assumes "distinct xs" "\<And>a. a \<in> set xs \<Longrightarrow> w_waker (ws a) \<noteq> None"
  shows "keep (wake_filter r) (ws, acc) xs =
    (filter (\<lambda>a. \<not> hit r ws a) xs,
     (\<lambda>a. if a \<in> set xs \<and> hit r ws a then (ws a)\<lparr>w_waker := None, w_ready := True\<rparr> else ws a),
     acc @ map (\<lambda>a. the (w_waker (ws a))) (filter (hit r ws) xs))"
  using assms
proof (induction xs arbitrary: ws acc)
  case (Cons x xs)
  obtain w where w: "w_waker (ws x) = Some w" using Cons.prems(2) [of x] by auto
  show ?case
  proof (cases "hit r ws x")
    case False
    then have "wake_filter r x (ws, acc) = (False, (ws, acc))" by (simp add: wake_filter_def hit_def)
    moreover note Cons.IH [of ws acc]
    ultimately show ?thesis using False Cons.prems by (auto simp: fun_eq_iff)
  next
    case True
    let ?ws = "ws(x := (ws x)\<lparr>w_waker := None, w_ready := True\<rparr>)"
    have h: "hit r ?ws a = hit r ws a" for a by (simp add: hit_def)
    have pre: "distinct xs" "\<And>a. a \<in> set xs \<Longrightarrow> w_waker (?ws a) \<noteq> None" using Cons.prems by auto
    have "keep (wake_filter r) (?ws, acc @ [w]) xs =
      (filter (\<lambda>a. \<not> hit r ws a) xs, (\<lambda>a. if a \<in> set xs \<and> hit r ws a then (?ws a)\<lparr>w_waker := None, w_ready := True\<rparr> else ?ws a),
       (acc @ [w]) @ map (\<lambda>a. the (w_waker (?ws a))) (filter (hit r ws) xs))"
      using Cons.IH [of ?ws "acc @ [w]", unfolded h] pre by blast
    moreover have "map (\<lambda>a. the (w_waker (?ws a))) (filter (hit r ws) xs) = map (\<lambda>a. the (w_waker (ws a))) (filter (hit r ws) xs)"
      using Cons.prems(1) by (intro map_cong) auto
    moreover have "wake_filter r x (ws, acc) = (True, (?ws, acc @ [w]))"
      using True w by (simp add: wake_filter_def hit_def)
    ultimately show ?thesis
      using True w Cons.prems(1) by (auto simp: fun_eq_iff)
  qed
qed simp

text \<open>The result of \<open>wake0\<close> on a well-formed source.\<close>

lemma wake0_eq:
  assumes inv: "sio_inv s ws"
  shows "\<exists>h. list_ok WAITERS h (filter (\<lambda>a. \<not> hit r (wts s) a) ws) \<and>
    (\<forall>b. b \<notin> set (WAITERS # ws) \<longrightarrow> h b = wheap s b) \<and> (\<forall>b. b \<in> set ws \<and> hit r (wts s) b \<longrightarrow> h b = node_new) \<and>
    wake0 r sd s = s\<lparr>is_shutdown := is_shutdown s \<or> sd,
      reader := (if r_is_readable r then None else reader s), rd_waits := (rd_waits s \<and> \<not> r_is_readable r),
      writer := (if r_is_writable r then None else writer s), wr_waits := (wr_waits s \<and> \<not> r_is_writable r),
      wts := (\<lambda>a. if a \<in> set ws \<and> hit r (wts s) a then (wts s a)\<lparr>w_waker := None, w_ready := True\<rparr> else wts s a),
      wheap := h,
      woken := woken s @ (if r_is_readable r then (case reader s of Some w \<Rightarrow> [w] | None \<Rightarrow> []) else []) @
        (if r_is_writable r then (case writer s of Some w \<Rightarrow> [w] | None \<Rightarrow> []) else []) @
        map (\<lambda>a. the (w_waker (wts s a))) (filter (hit r (wts s)) ws)\<rparr>"
proof -
  have d: "distinct ws" using sio_invD(2) [OF inv] by (simp add: list_ok_def)
  have w: "w_waker (wts s a) \<noteq> None" if "a \<in> set ws" for a
  proof -
    obtain f where "f < length (rstates s)" "a = Suc f" using sio_invD(3) [OF inv \<open>a \<in> set ws\<close>] by auto
    then show ?thesis using sio_invD(4) [OF inv, of f] \<open>a \<in> set ws\<close> by (simp add: node_ok_def Let_def)
  qed
  define acc where "acc = (if r_is_readable r then (case reader s of Some w \<Rightarrow> [w] | None \<Rightarrow> []) else []) @
        (if r_is_writable r then (case writer s of Some w \<Rightarrow> [w] | None \<Rightarrow> []) else [])"
  let ?ws = "\<lambda>a. if a \<in> set ws \<and> hit r (wts s) a then (wts s a)\<lparr>w_waker := None, w_ready := True\<rparr> else wts s a"
  have k: "keep (wake_filter r) (wts s, acc) ws = (filter (\<lambda>a. \<not> hit r (wts s) a) ws, ?ws,
      acc @ map (\<lambda>a. the (w_waker (wts s a))) (filter (hit r (wts s)) ws))"
    by (rule keep_wake_filter) (use d w in auto)
  obtain h where h: "drain_filtered WAITERS (wake_filter r) (wts s, acc) (wheap s) =
      Some ((?ws, acc @ map (\<lambda>a. the (w_waker (wts s a))) (filter (hit r (wts s)) ws)), h)"
    "list_ok WAITERS h (filter (\<lambda>a. \<not> hit r (wts s) a) ws)" "\<forall>b. b \<notin> set (WAITERS # ws) \<longrightarrow> h b = wheap s b"
    "\<forall>b. b \<in> set ws \<and> hit r (wts s) b \<longrightarrow> h b = node_new"
    using drain_filtered_ok [OF sio_invD(2) [OF inv], of "wake_filter r" "(wts s, acc)"]
    by (auto simp: k)
  have "wake0 r sd s = s\<lparr>is_shutdown := is_shutdown s \<or> sd,
      reader := (if r_is_readable r then None else reader s), rd_waits := (rd_waits s \<and> \<not> r_is_readable r),
      writer := (if r_is_writable r then None else writer s), wr_waits := (wr_waits s \<and> \<not> r_is_writable r),
      wts := ?ws, wheap := h, woken := woken s @ acc @ map (\<lambda>a. the (w_waker (wts s a))) (filter (hit r (wts s)) ws)\<rparr>"
    using h(1) by (cases "r_is_readable r"; cases "r_is_writable r"; cases "reader s"; cases "writer s")
      (simp_all add: wake0_def acc_def)
  with h(2-) show ?thesis by (intro exI [of _ h]) (simp add: acc_def)
qed

lemma wake0_inv:
  assumes inv: "sio_inv s ws" and sd: "sd \<Longrightarrow> r = R_ALL" and p: "p = pending s \<or> pending s = Some r"
  shows "sio_inv ((wake0 r sd s)\<lparr>pending := p\<rparr>) (filter (\<lambda>a. \<not> hit r (wts s) a) ws)"
proof -
  let ?ws = "filter (\<lambda>a. \<not> hit r (wts s) a) ws"
  define t where "t = (wake0 r sd s)\<lparr>pending := p\<rparr>"
  obtain h where h: "list_ok WAITERS h ?ws" "\<And>b. b \<notin> set (WAITERS # ws) \<Longrightarrow> h b = wheap s b"
    "\<And>b. b \<in> set ws \<and> hit r (wts s) b \<Longrightarrow> h b = node_new" and w: "wake0 r sd s = s\<lparr>is_shutdown := is_shutdown s \<or> sd,
      reader := (if r_is_readable r then None else reader s), rd_waits := (rd_waits s \<and> \<not> r_is_readable r),
      writer := (if r_is_writable r then None else writer s), wr_waits := (wr_waits s \<and> \<not> r_is_writable r),
      wts := (\<lambda>a. if a \<in> set ws \<and> hit r (wts s) a then (wts s a)\<lparr>w_waker := None, w_ready := True\<rparr> else wts s a),
      wheap := h,
      woken := woken s @ (if r_is_readable r then (case reader s of Some w \<Rightarrow> [w] | None \<Rightarrow> []) else []) @
        (if r_is_writable r then (case writer s of Some w \<Rightarrow> [w] | None \<Rightarrow> []) else []) @
        map (\<lambda>a. the (w_waker (wts s a))) (filter (hit r (wts s)) ws)\<rparr>"
    using wake0_eq [OF inv, of r sd] by blast
  have f: "status t = status s" "pending t = p" "is_shutdown t = (is_shutdown s \<or> sd)" "wheap t = h" "rstates t = rstates s"
    "sio_panic t = sio_panic s" "reader t = (if r_is_readable r then None else reader s)" "rd_waits t = (rd_waits s \<and> \<not> r_is_readable r)"
    "writer t = (if r_is_writable r then None else writer s)" "wr_waits t = (wr_waits s \<and> \<not> r_is_writable r)"
    "wts t a = (if a \<in> set ws \<and> hit r (wts s) a then (wts s a)\<lparr>w_waker := None, w_ready := True\<rparr> else wts s a)" for a
    unfolding t_def w by simp_all
  have an: "announced t i" if "announced s i" "\<not> satisfies r i" for i
    using that p by (auto simp: announced_def f)
  have ints: "i_is_readable (w_interest (wts s a)) \<or> i_is_writable (w_interest (wts s a))" if "a \<in> set ws" for a
    using sio_invD(3) [OF inv that] sio_invD(4) [OF inv] by (auto simp: node_ok_def Let_def)
  have all: "?ws = []" "r_is_readable r" "r_is_writable r" if sd
    using sd [OF that] ints satisfies_all
    by (auto simp: hit_def filter_empty_conv readable_satisfies writable_satisfies INTEREST_READABLE_def INTEREST_WRITABLE_def
        I_READABLE_def I_WRITABLE_def)
  have "node_ok t ?ws g" if "g < length (rstates s)" for g
    using sio_invD(4) [OF inv that] h(2) [of "Suc g"] h(3) [of "Suc g"] an [of "w_interest (wts s (Suc g))"]
    by (auto simp: node_ok_def Let_def f hit_def WAITERS_def split: if_splits)
  then show ?thesis
    using sio_invD [OF inv] h(1) all an [of INTEREST_READABLE] an [of INTEREST_WRITABLE]
    unfolding t_def [symmetric] sio_inv_def f by (auto simp: readable_satisfies writable_satisfies)
qed

text \<open>Steps of one future.\<close>

lemma sio_inv_future:
  assumes inv: "sio_inv s ws" and f: "f < length (rstates s)"
    and same: "status s' = status s" "pending s' = pending s" "is_shutdown s' = is_shutdown s" "reader s' = reader s"
      "writer s' = writer s" "rd_waits s' = rd_waits s" "wr_waits s' = wr_waits s" "sio_panic s' = sio_panic s"
      "rstates s' = (rstates s)[f := st]"
    and l: "list_ok WAITERS (wheap s') ws'" and sub: "\<And>a. a \<noteq> Suc f \<Longrightarrow> a \<in> set ws' \<longleftrightarrow> a \<in> set ws"
    and fr: "\<And>a. a \<noteq> Suc f \<Longrightarrow> wts s' a = wts s a" "\<And>a. a \<notin> set (WAITERS # ws) \<Longrightarrow> a \<noteq> Suc f \<Longrightarrow> wheap s' a = wheap s a"
    and sd: "is_shutdown s \<Longrightarrow> ws' = []" and nf: "node_ok s' ws' f"
  shows "sio_inv s' ws'"
proof -
  have an: "announced s' i = announced s i" for i by (simp add: announced_def same)
  have "node_ok s' ws' g" if "g < length (rstates s)" for g
  proof (cases "g = f")
    case False
    then have "Suc g \<noteq> Suc f" by simp
    with sio_invD(4) [OF inv that] sub [of "Suc g"] fr(1) [of "Suc g"] fr(2) [of "Suc g"] False show ?thesis
      by (auto simp: node_ok_def Let_def same an WAITERS_def split: if_splits)
  qed (use nf in simp)
  moreover have "\<exists>g<length (rstates s). a = Suc g" if "a \<in> set ws'" for a
    using that sub [of a] sio_invD(3) [OF inv, of a] f by (cases "a = Suc f") auto
  ultimately show ?thesis
    using sio_invD [OF inv] l sd by (force simp: sio_inv_def same an)
qed

text \<open>A step that leaves the node of \<open>f\<close> alone.\<close>

lemma set_rstate_inv:
  assumes inv: "sio_inv s ws" and f: "f < length (rstates s)" and n: "Suc f \<notin> set ws" and st: "st = SWaiting \<Longrightarrow> w_ready (wts s (Suc f))"
    "w_ready (wts s (Suc f)) \<Longrightarrow> st \<in> {SWaiting, SDone, SDropped}"
  shows "sio_inv (set_rstate f st s) ws"
proof (rule sio_inv_future [OF inv f])
  show "node_ok (set_rstate f st s) ws f"
    using sio_invD(4) [OF inv f] n st f by (auto simp: node_ok_def Let_def set_rstate_def)
qed (use sio_invD [OF inv] in \<open>simp_all add: set_rstate_def\<close>)

lemma not_queued:
  assumes "sio_inv s ws" "f < length (rstates s)" "rstates s ! f \<noteq> SWaiting"
  shows "Suc f \<notin> set ws" "wheap s (Suc f) = node_new" "w_ready (wts s (Suc f)) \<Longrightarrow> rstates s ! f \<in> {SDone, SDropped}"
  using sio_invD(4) [OF assms(1,2)] assms(3) by (auto simp: node_ok_def Let_def split: if_splits)

lemma poll_init_inv:
  assumes "sio_inv s ws" "f < length (rstates s)" "rstates s ! f = SInit"
  shows "sio_inv (snd (poll_init f w s)) ws"
  using set_rstate_inv [OF assms(1,2), of SDone] set_rstate_inv [OF assms(1,2), of "SLock w"] not_queued [OF assms(1,2)] assms(3)
  by (auto simp: poll_init_def Let_def)

lemma poll_init_locked_inv:
  assumes inv: "sio_inv s ws" "f < length (rstates s)" and st: "rstates s ! f = SLock w"
  shows "\<exists>ws'. sio_inv (snd (poll_init_locked f w s)) ws'"
proof -
  have n: "Suc f \<notin> set ws" using not_queued [OF inv] st by simp
  define readiness where "readiness = (if is_shutdown s then R_ALL else status_ready (status s))"
  let ?i = "w_interest (wts s (Suc f))"
  have i: "i_is_readable ?i \<or> i_is_writable ?i" using sio_invD(4) [OF inv] by (simp add: node_ok_def Let_def)
  show ?thesis
  proof (cases "r_is_empty (intersection readiness ?i)")
    case False
    then show ?thesis
      using set_rstate_inv [OF inv n, of SDone] not_queued(3) [OF inv] st by (auto simp: poll_init_locked_def Let_def readiness_def)
  next
    case True
    then have nsd: "\<not> is_shutdown s" and ns: "\<not> satisfies (status_ready (status s)) ?i"
      using satisfies_all [OF i] by (auto simp: readiness_def satisfies_intersection split: if_splits)
    define t where "t = snd (poll_init_locked f w s)"
    have t: "t = set_rstate f SWaiting (set_waiter (Suc f) ((wts s (Suc f))\<lparr>w_waker := Some w\<rparr>) s)
             \<lparr>wheap := ll_push_front WAITERS (Suc f) (wheap s)\<rparr>"
      using True by (simp add: t_def poll_init_locked_def Let_def readiness_def)
    have "sio_inv t (Suc f # ws)"
    proof (rule sio_inv_future [OF inv])
      show "list_ok WAITERS (wheap t) (Suc f # ws)"
        using ll_push_front_ok [OF sio_invD(2) [OF inv(1)], of "Suc f"] n by (simp add: t WAITERS_def)
      show "node_ok t (Suc f # ws) f"
        using i ns not_queued(3) [OF inv] st inv(2)
        by (auto simp: node_ok_def Let_def t set_rstate_def set_waiter_def announced_def)
      show "wheap t a = wheap s a" if "a \<notin> set (WAITERS # ws)" "a \<noteq> Suc f" for a
        using that ll_push_front_frame [OF sio_invD(2) [OF inv(1)], of a "Suc f"] by (simp add: t)
    qed (use nsd in \<open>simp_all add: t set_rstate_def set_waiter_def\<close>)
    then show ?thesis unfolding t_def by blast
  qed
qed

lemma readiness_new_inv:
  assumes inv: "sio_inv s ws" and i: "i_is_readable i \<or> i_is_writable i"
  shows "sio_inv (readiness_new i s) ws"
proof -
  let ?n = "length (rstates s)"
  define t where "t = readiness_new i s"
  have n: "Suc ?n \<notin> set ws" using sio_invD(3) [OF inv] by auto
  have t: "status t = status s" "pending t = pending s" "is_shutdown t = is_shutdown s" "reader t = reader s" "writer t = writer s"
    "rd_waits t = rd_waits s" "wr_waits t = wr_waits s" "sio_panic t = sio_panic s" "rstates t = rstates s @ [SInit]"
    "wts t = (wts s)(Suc ?n := \<lparr>w_waker = None, w_interest = i, w_ready = False\<rparr>)" "wheap t = (wheap s)(Suc ?n := node_new)"
    by (simp_all add: t_def readiness_new_def Let_def)
  have an: "announced t j = announced s j" for j by (simp add: announced_def t)
  have "list_ok WAITERS (wheap t) ws"
    by (rule list_ok_frame [OF sio_invD(2) [OF inv]]) (use n in \<open>auto simp: t WAITERS_def\<close>)
  moreover have "node_ok t ws g" if "g < Suc ?n" for g
  proof (cases "g = ?n")
    case True
    then show ?thesis using i n by (simp add: node_ok_def Let_def t)
  next
    case False
    with that have "g < ?n" by simp
    with sio_invD(4) [OF inv this] show ?thesis by (auto simp: node_ok_def Let_def t an nth_append split: if_splits)
  qed
  ultimately show ?thesis
    using sio_invD [OF inv] unfolding t_def [symmetric] by (auto simp: sio_inv_def t an less_Suc_eq)
qed

lemma sio_set_waker_inv:
  assumes inv: "sio_inv s ws" "f < length (rstates s)" and st: "rstates s ! f = SWaiting"
  shows "\<exists>p t ws'. sio_set_waker f w s = Some (p, t) \<and> sio_inv t ws'"
proof (cases "Suc f \<in> set ws")
  case False
  then have "w_ready (wts s (Suc f))" using sio_invD(4) [OF inv] st by (simp add: node_ok_def Let_def)
  with set_rstate_inv [OF inv False, of SDone] show ?thesis by (auto simp: sio_set_waker_def Let_def)
next
  case True
  with sio_invD(4) [OF inv] obtain old where old: "w_waker (wts s (Suc f)) = Some old" and nr: "\<not> w_ready (wts s (Suc f))"
    by (auto simp: node_ok_def Let_def)
  define t where "t = set_waiter (Suc f) ((wts s (Suc f))\<lparr>w_waker := Some w\<rparr>) s"
  have "sio_inv t ws"
  proof (rule sio_inv_future [OF inv, of _ SWaiting])
    show "node_ok t ws f"
      using True sio_invD(4) [OF inv] by (simp add: node_ok_def Let_def t_def set_waiter_def)
  qed (use sio_invD [OF inv(1)] st inv(2) list_update_id [of "rstates s" f] in \<open>simp_all add: t_def set_waiter_def\<close>)
  with old nr inv(1) show ?thesis by (auto simp: sio_set_waker_def Let_def t_def)
qed

lemma readiness_drop_inv:
  assumes inv: "sio_inv s ws" "f < length (rstates s)"
  shows "sio_inv (readiness_drop f s) (remove1 (Suc f) ws)"
proof -
  define t where "t = readiness_drop f s"
  note l = sio_invD(2) [OF inv(1)]
  have d: "distinct ws" using l by (simp add: list_ok_def)
  have t: "wheap t = snd (remove_node (Suc f) (wheap s))" by (simp add: t_def readiness_drop_def set_rstate_def ll_remove_def)
  have "list_ok WAITERS (wheap t) (remove1 (Suc f) ws) \<and> wheap t (Suc f) = node_new \<and>
    (\<forall>a. a \<notin> set (WAITERS # ws) \<longrightarrow> wheap t a = wheap s a)"
  proof (cases "Suc f \<in> set ws")
    case True
    then show ?thesis
      using remove_node_ok [OF l True] remove_node_frame [OF l True] by (auto simp: t)
  next
    case False
    then have "wheap s (Suc f) = node_new" using sio_invD(4) [OF inv] by (simp add: node_ok_def Let_def)
    then show ?thesis using l False by (simp add: t remove_node_def node_new_def remove1_idem)
  qed
  note h = conjunct1 [OF this] conjunct1 [OF conjunct2 [OF this]] conjunct2 [OF conjunct2 [OF this]]
  have "sio_inv t (remove1 (Suc f) ws)"
  proof (rule sio_inv_future [OF inv, of _ SDropped])
    show "node_ok t (remove1 (Suc f) ws) f"
      using h(2) d inv(2) sio_invD(4) [OF inv] by (simp add: node_ok_def Let_def t_def readiness_drop_def set_rstate_def)
    show "is_shutdown s \<Longrightarrow> remove1 (Suc f) ws = []" using sio_invD(5) [OF inv(1)] by simp
  qed (use h d in \<open>simp_all add: t_def readiness_drop_def set_rstate_def\<close>)
  then show ?thesis by (simp add: t_def)
qed

lemma fstate_Some [simp]: "fstate f s = Some st \<longleftrightarrow> f < length (rstates s) \<and> rstates s ! f = st"
  by (auto simp: fstate_def)

lemma sio_step_inv:
  assumes "sio_inv s ws" "sio_step e s = Some t"
  shows "\<exists>ws'. sio_inv t ws'"
proof (cases e)
  case (PollReadiness f w)
  with assms(2) consider "fstate f s = Some SInit" "t = snd (poll_init f w s)" | "fstate f s = Some SWaiting" | "t = s"
    by (auto split: option.splits rstate.splits)
  then show ?thesis
  proof cases
    case 2
    with sio_set_waker_inv [OF assms(1), of f w] assms(2) PollReadiness show ?thesis by auto
  qed (use assms poll_init_inv [of s ws f w] in auto)
next
  case DriverWake
  with assms(2) obtain r where "pending s = Some r" "t = (wake0 r False s)\<lparr>pending := None\<rparr>"
    by (auto simp: sio_wake_def split: option.splits)
  with wake0_inv [OF assms(1), of False r None] show ?thesis by auto
next
  case Shutdown
  have "(wake0 R_ALL True s)\<lparr>pending := pending s\<rparr> = wake0 R_ALL True s"
    by (simp add: wake0_def Let_def split: option.splits prod.splits)
  with wake0_inv [OF assms(1), of True R_ALL "pending s"] Shutdown assms(2) show ?thesis by (auto simp: sio_shutdown_def)
next
  case (PollLocked f)
  with assms(2) obtain w where "f < length (rstates s)" "rstates s ! f = SLock w" "t = snd (poll_init_locked f w s)"
    by (auto split: option.splits rstate.splits)
  with poll_init_locked_inv [OF assms(1)] show ?thesis by simp
next
  case (DropReadiness f)
  with assms(2) have "f < length (rstates s)" "t = readiness_drop f s"
    by (auto simp: fstate_def split: option.splits rstate.splits if_splits)
  with readiness_drop_inv [OF assms(1)] show ?thesis by blast
next
  case (NewReadiness i)
  with assms(2) readiness_new_inv [OF assms(1), of i] show ?thesis by (auto split: if_splits)
next
  case (PollRW seen i w)
  with assms(2) poll_rw_inv [OF assms(1), of i seen w] show ?thesis by (auto split: if_splits)
next
  case (DriverSet tok n r)
  with assms(2) driver_set_inv [OF assms(1), of tok n r] show ?thesis by (auto split: if_splits)
next
  case ResetEntry
  with assms(2) entry_reset_inv [OF assms(1)] show ?thesis by (auto split: if_splits)
next
  case (ClearReadiness ev)
  with assms(2) clear_readiness_inv [OF assms(1), of ev] show ?thesis by auto
qed

lemma sio_reachable_inv: "sio_reachable s \<Longrightarrow> \<exists>ws. sio_inv s ws"
  by (induction rule: sio_reachable.induct) (use sio_default_inv sio_step_inv in blast)+

text \<open>A future that waits while nothing is left to announce.\<close>

lemma waits_unready:
  assumes inv: "sio_inv s ws" and "pending s = None" "fstate f s = Some SWaiting" "\<not> w_ready (wts s (Suc f))"
  shows "w_waker (wts s (Suc f)) \<noteq> None \<and> \<not> is_shutdown s \<and> \<not> satisfies (status_ready (status s)) (w_interest (wts s (Suc f)))"
  using assms(2-) sio_invD(4) [OF inv, of f] sio_invD(5) [OF inv]
  by (auto simp: node_ok_def Let_def announced_def split: if_splits)

section \<open>Properties\<close>


definition sio_events_example :: "sio_event list" where
  "sio_events_example =
     [NewReadiness INTEREST_READABLE, NewReadiness INTEREST_WRITABLE, PollReadiness 0 10, PollReadiness 1 11, PollLocked 0, PollLocked 1,
      PollRW 0 INTEREST_READABLE 12, DriverSet 0 1 R_READABLE, PollReadiness 1 13, DriverWake]"

definition sio_example :: sio where
  "sio_example = the (sio_run sio_events_example sio_default)"

lemma sio_run_reachable: "sio_run es s = Some t \<Longrightarrow> sio_reachable s \<Longrightarrow> sio_reachable t"
  by (induction es arbitrary: s) (auto intro: sio_stepped split: option.splits)

lemma sio_example_eval:
  "sio_run sio_events_example sio_default = Some sio_example"
  "(rstates sio_example, pending sio_example, woken sio_example, rd_waits sio_example) = ([SWaiting, SWaiting], None, [12, 10], False)"
  "(w_ready (wts sio_example 1), wts sio_example 2) = (True, \<lparr>w_waker = Some 13, w_interest = INTEREST_WRITABLE, w_ready = False\<rparr>)"
proof -
  have "map_option (\<lambda>s. (rstates s, pending s, woken s, rd_waits s, w_ready (wts s 1), wts s 2))
      (sio_run sio_events_example sio_default) = Some ([SWaiting, SWaiting], None, [12, 10], False, True,
        \<lparr>w_waker = Some 13, w_interest = INTEREST_WRITABLE, w_ready = False\<rparr>)"
    by code_simp
  note e = map_option_the [OF this]
  from e show "sio_run sio_events_example sio_default = Some sio_example"
    "(rstates sio_example, pending sio_example, woken sio_example, rd_waits sio_example) = ([SWaiting, SWaiting], None, [12, 10], False)"
    "(w_ready (wts sio_example 1), wts sio_example 2) = (True, \<lparr>w_waker = Some 13, w_interest = INTEREST_WRITABLE, w_ready = False\<rparr>)"
    by (simp_all add: sio_example_def)
qed


text \<open>a wake-up with readiness \<open>r\<close> completes exactly the waiting futures whose interest
  \<open>r\<close> satisfies and calls their wakers; every other waiting future stays queued as it was.
\<close>

theorem wake_hits_satisfied:
  assumes "sio_reachable s" "fstate f s = Some SWaiting" "\<not> w_ready (wts s (Suc f))"
  shows "if satisfies r (w_interest (wts s (Suc f)))
     then w_ready (wts (sio_wake r s) (Suc f)) \<and>
       the (w_waker (wts s (Suc f))) \<in> set (drop (length (woken s)) (woken (sio_wake r s)))
     else wts (sio_wake r s) (Suc f) = wts s (Suc f)"
proof -
  obtain ws where inv: "sio_inv s ws" using sio_reachable_inv [OF assms(1)] by blast
  have f: "Suc f \<in> set ws"
    using sio_invD(4) [OF inv, of f] assms(2,3) by (auto simp: node_ok_def Let_def split: if_splits)
  then have "(hit r (wts s) (Suc f)) = satisfies r (w_interest (wts s (Suc f)))" by (simp add: hit_def)
  moreover obtain h where h: "wts (sio_wake r s) = (\<lambda>a. if a \<in> set ws \<and> hit r (wts s) a then (wts s a)\<lparr>w_waker := None, w_ready := True\<rparr> else wts s a)"
    "woken (sio_wake r s) = woken s @ h @ map (\<lambda>a. the (w_waker (wts s a))) (filter (hit r (wts s)) ws)"
    using wake0_eq [OF inv, of r False] unfolding sio_wake_def by fastforce
  ultimately show ?thesis using f by (simp add: h)
qed

theorem wake_hits_satisfied_witness:
  "w_ready (wts (sio_wake R_WRITABLE sio_example) 2) \<and> 13 \<in> set (drop 2 (woken (sio_wake R_WRITABLE sio_example)))"
proof -
  note e = sio_example_eval
  have "sio_reachable sio_example" using sio_run_reachable [OF e(1) sio_created] .
  moreover have "fstate 1 sio_example = Some SWaiting" "\<not> w_ready (wts sio_example (Suc 1))"
    using e(2,3) by (simp_all add: fstate_def numeral_2_eq_2)
  moreover have "satisfies R_WRITABLE INTEREST_WRITABLE" by code_simp
  ultimately show ?thesis
    using wake_hits_satisfied [of sio_example 1 R_WRITABLE] e(2,3) by (simp add: numeral_2_eq_2)
qed

text \<open>writing readiness, whatever other threads do to the status word meanwhile. The call
  takes effect on one value \<open>v\<close> of the word: a token of an older generation is refused and
  a clear with an outdated tick is refused, the word keeping what it had; otherwise the
  new word has the given tick, the generation of \<open>v\<close>, and the readiness of \<open>v\<close>
  changed by \<open>f\<close>.
\<close>

theorem set_readiness_effect:
  "\<exists>v \<in> insert cell (set env).
     (let (r, v') = set_readiness token tk f env cell in
      if (case token of None \<Rightarrow> False | Some tok \<Rightarrow> status_generation tok \<noteq> status_generation v) then r = Inl TokenInvalid \<and> v' = v
      else if (case tk of TickSet _ \<Rightarrow> False | TickClear t \<Rightarrow> t \<noteq> status_tick v) then r = Inl ReadinessCovered \<and> v' = v
      else r = Inr () \<and> status_tick v' = (case tk of TickSet t \<Rightarrow> t | TickClear t \<Rightarrow> t) \<and>
        status_generation v' = status_generation v \<and> status_ready v' = take_bit 4 (f (status_ready v)))"
proof -
  obtain v where v: "v \<in> insert cell (set env)" "set_readiness token tk f env cell = atomically (set_readiness_try token tk f) v"
    using cas_run_linear [of cell env "set_readiness_try token tk f"] by (auto simp: set_readiness_def)
  show ?thesis
    by (rule bexI [OF _ v(1)])
      (auto simp: v(2) set_readiness_result [folded status_generation_def] new_status_fields
        split: option.splits tick.splits if_splits)
qed

end
