(* ===== verification/Slab.thy ===== *)
theory Slab
  imports Prelude
begin

text \<open>
  The slab of I/O sources, \<open>ylong_runtime/src/util/slab.rs\<close>: nineteen pages of doubling
  size, each a vector of slots whose unused slots form a free list threaded through
  the \<open>next\<close> field. The values are of any type with the operations of the trait
  \<open>Entry\<close>, which are arguments here: the default value \<open>d\<close> and \<open>rst\<close>.
  A reference \<open>Ref\<close> is the pair of its page and its slot. Each method takes the
  lock of a page, so an operation on a page is one step. Indices are natural numbers,
  except \<open>next\<close>, which the code keeps in 32 bits, and addresses, which are words.
\<close>

section \<open>Addresses\<close>

definition NUM_PAGES :: nat where "NUM_PAGES = 19"
definition PAGE_INITIAL_SIZE :: nat where "PAGE_INITIAL_SIZE = 32"
definition PAGE_INDEX_SHIFT :: nat where "PAGE_INDEX_SHIFT = 6"

definition pointer_width :: nat where "pointer_width = 64"

definition leading_zeros :: "usize \<Rightarrow> nat" where
  "leading_zeros w = 64 - digits (unat w)"

type_synonym address = usize

definition address_page :: "address \<Rightarrow> nat" where
  "address_page a = pointer_width - leading_zeros (drop_bit PAGE_INDEX_SHIFT (a + of_nat PAGE_INITIAL_SIZE))"

section \<open>Pages\<close>

record 'a slot =
  sl_value :: 'a
  sl_next :: u32

text \<open>\<open>Page\<close> with the content of its mutex; \<open>pg_used\<close> is the counter outside the lock.\<close>

record 'a page =
  pg_used :: nat
  pg_allocated :: bool
  pg_len :: nat
  pg_prev_len :: nat
  pg_slots :: "'a slot list"
  pg_head :: nat
  pg_slots_used :: nat

definition page_default :: "'a page" where
  "page_default = \<lparr>pg_used = 0, pg_allocated = False, pg_len = 0, pg_prev_len = 0, pg_slots = [], pg_head = 0, pg_slots_used = 0\<rparr>"

definition page_slot :: "'a page \<Rightarrow> address \<Rightarrow> nat" where
  "page_slot pg a = unat (a - of_nat (pg_prev_len pg))"

definition page_addr :: "'a page \<Rightarrow> nat \<Rightarrow> address" where
  "page_addr pg i = of_nat (i + pg_prev_len pg)"

text \<open>\<open>release\<close>; \<open>None\<close> is a panic (an index out of range, or the counter below zero).\<close>

definition page_release :: "nat \<Rightarrow> 'a page \<Rightarrow> 'a page option" where
  "page_release i pg =
     (if i < length (pg_slots pg) \<and> pg_slots_used pg \<noteq> 0
      then Some (pg\<lparr>pg_slots := (pg_slots pg)[i := (pg_slots pg ! i)\<lparr>sl_next := of_nat (pg_head pg)\<rparr>], pg_head := i,
                    pg_slots_used := pg_slots_used pg - 1, pg_used := pg_slots_used pg - 1\<rparr>)
      else None)"

definition page_allocate :: "'a \<Rightarrow> ('a \<Rightarrow> 'a) \<Rightarrow> 'a page \<Rightarrow> nat option \<times> 'a page" where
  "page_allocate d rst pg =
     (if pg_used pg = pg_len pg then (None, pg)
      else if pg_head pg < length (pg_slots pg)
      then let idx = pg_head pg; slot = pg_slots pg ! idx in
        (Some idx, pg\<lparr>pg_head := unat (sl_next slot), pg_slots_used := pg_slots_used pg + 1, pg_used := pg_slots_used pg + 1,
                      pg_slots := (pg_slots pg)[idx := slot\<lparr>sl_value := rst (sl_value slot)\<rparr>]\<rparr>)
      else if pg_len pg = length (pg_slots pg) then (None, pg)
      else let idx = length (pg_slots pg) in
        (Some idx, pg\<lparr>pg_slots := pg_slots pg @ [\<lparr>sl_value = d, sl_next = 0\<rparr>], pg_head := pg_head pg + 1,
                      pg_slots_used := pg_slots_used pg + 1, pg_used := pg_slots_used pg + 1, pg_allocated := True\<rparr>))"

section \<open>The slab\<close>

type_synonym 'a slab = "'a page list"

text \<open>The loop of \<open>Slab::new\<close>.\<close>

fun init_pages :: "nat \<Rightarrow> nat \<Rightarrow> nat \<Rightarrow> 'a slab" where
  "init_pages 0 len prev_len = []"
| "init_pages (Suc n) len prev_len = page_default\<lparr>pg_len := len, pg_prev_len := prev_len\<rparr> # init_pages n (len * 2) (prev_len + len)"

definition slab_new :: "'a slab" where
  "slab_new = init_pages NUM_PAGES PAGE_INITIAL_SIZE 0"

fun alloc_pages :: "'a \<Rightarrow> ('a \<Rightarrow> 'a) \<Rightarrow> nat \<Rightarrow> 'a slab \<Rightarrow> (address \<times> nat \<times> nat) option \<times> 'a slab" where
  "alloc_pages d rst k [] = (None, [])"
| "alloc_pages d rst k (pg # pgs) =
     (case page_allocate d rst pg of
        (Some i, pg') \<Rightarrow> (Some (page_addr pg i, k, i), pg' # pgs)
      | (None, pg') \<Rightarrow> (case alloc_pages d rst (Suc k) pgs of (r, pgs') \<Rightarrow> (r, pg' # pgs')))"

definition slab_allocate :: "'a \<Rightarrow> ('a \<Rightarrow> 'a) \<Rightarrow> 'a slab \<Rightarrow> (address \<times> nat \<times> nat) option \<times> 'a slab" where
  "slab_allocate d rst s = alloc_pages d rst 0 s"

text \<open>Dropping a \<open>Ref\<close>.\<close>

definition ref_drop :: "nat \<times> nat \<Rightarrow> 'a slab \<Rightarrow> 'a slab option" where
  "ref_drop r s = map_option (\<lambda>pg. s[fst r := pg]) (page_release (snd r) (s ! fst r))"

definition slab_for_each :: "('a \<Rightarrow> 'a) \<Rightarrow> 'a slab \<Rightarrow> 'a slab" where
  "slab_for_each f s = map (\<lambda>pg. pg\<lparr>pg_slots := map (\<lambda>sl. sl\<lparr>sl_value := f (sl_value sl)\<rparr>) (pg_slots pg)\<rparr>) s"

text \<open>
  \<open>get\<close> follows a pointer computed from the address. \<open>Dangling\<close>: the pointer
  is behind the slots that exist. \<open>Bounds_Panic\<close>: no page has this address.
\<close>

datatype 'a access = Found 'a | Absent | Dangling | Bounds_Panic

definition slab_get :: "address \<Rightarrow> 'a slab \<Rightarrow> 'a access" where
  "slab_get a s =
     (let p = address_page a in
      if p \<ge> length s then Bounds_Panic
      else let i = page_slot (s ! p) a in
        if \<not> pg_allocated (s ! p) then Absent
        else if i < length (pg_slots (s ! p)) then Found (sl_value (pg_slots (s ! p) ! i)) else Dangling)"

text \<open>\<open>compact\<close>; \<open>busy\<close> tells the pages whose lock another thread holds.\<close>

definition compact_page :: "bool \<Rightarrow> 'a page \<Rightarrow> 'a page" where
  "compact_page busy pg =
     (if pg_used pg \<noteq> 0 \<or> \<not> pg_allocated pg then pg
      else if busy then pg
      else if pg_slots_used pg > 0 \<or> pg_slots pg = [] then pg
      else pg\<lparr>pg_allocated := False, pg_slots := [], pg_head := 0\<rparr>)"

definition slab_compact :: "(nat \<Rightarrow> bool) \<Rightarrow> 'a slab \<Rightarrow> 'a slab" where
  "slab_compact busy s = take 1 s @ map (\<lambda>(k, pg). compact_page (busy k) pg) (zip [1..<length s] (drop 1 s))"

section \<open>The address arithmetic\<close>

definition page_size :: "nat \<Rightarrow> nat" where "page_size p = 32 * 2 ^ p"
definition page_start :: "nat \<Rightarrow> nat" where "page_start p = 32 * (2 ^ p - 1)"

lemma page_bound: "p < NUM_PAGES \<Longrightarrow> page_start p + page_size p \<le> 2 ^ 24 - 32" "p < NUM_PAGES \<Longrightarrow> page_size p \<le> 2 ^ 23"
proof -
  assume p: "p < NUM_PAGES"
  then have "p \<le> 18" by (simp add: NUM_PAGES_def)
  then have "(2::nat) ^ p \<le> 2 ^ 18" by (rule power_increasing) simp
  then show "page_start p + page_size p \<le> 2 ^ 24 - 32" "page_size p \<le> 2 ^ 23"
    by (simp_all add: page_start_def page_size_def)
qed

lemma page_of_address:
  assumes "p < NUM_PAGES" "i < page_size p"
  shows "address_page (of_nat (i + page_start p)) = p" "unat (of_nat (i + page_start p) - of_nat (page_start p) :: usize) = i"
proof -
  let ?n = "i + page_start p"
  have n: "?n < 2 ^ 24 - 32" using page_bound(1) [OF assms(1)] assms(2) by simp
  have u: "unat (of_nat ?n + of_nat 32 :: usize) = ?n + 32"
    unfolding of_nat_add [symmetric] by (subst unat_of_nat) (use n in simp)
  have e: "unat (drop_bit 6 (of_nat ?n + of_nat 32 :: usize)) = (?n + 32) div 64"
    unfolding unat_drop_bit_eq u by (simp add: drop_bit_eq_div)
  have d: "digits ((?n + 32) div 64) = p"
  proof (cases p)
    case 0
    with assms(2) have "(?n + 32) div 64 = 0" by (simp add: page_start_def page_size_def)
    with 0 show ?thesis by (simp add: digits_zero)
  next
    case (Suc k)
    have "(1::nat) \<le> 2 ^ k" by simp
    with Suc have "?n + 32 = i + 64 * 2 ^ k" "i < 64 * 2 ^ k" using assms(2) by (simp_all add: page_start_def page_size_def)
    then have "digits ((?n + 32) div 64) = Suc k" by (intro digits_range) (simp_all add: less_mult_imp_div_less)
    with Suc show ?thesis by simp
  qed
  show "address_page (of_nat ?n) = p"
    using assms(1) by (simp add: address_page_def pointer_width_def leading_zeros_def PAGE_INDEX_SHIFT_def PAGE_INITIAL_SIZE_def e d NUM_PAGES_def
        del: of_nat_add of_nat_numeral)
  have "of_nat ?n - of_nat (page_start p) = (of_nat i :: usize)" by simp
  then show "unat (of_nat ?n - of_nat (page_start p) :: usize) = i"
    using page_bound(2) [OF assms(1)] assms(2) by (simp add: unat_of_nat take_bit_nat_eq_self)
qed

text \<open>Every address below the total size is the address of one slot.\<close>

lemma address_covered:
  assumes "n < page_start NUM_PAGES"
  shows "\<exists>p i. p < NUM_PAGES \<and> i < page_size p \<and> n = i + page_start p"
proof -
  have "\<exists>p<k. \<exists>i<page_size p. n = i + page_start p" if "n < page_start k" for k
    using that
  proof (induction k)
    case (Suc k)
    have s: "page_start (Suc k) = page_start k + page_size k" by (simp add: page_start_def page_size_def)
    show ?case
    proof (cases "n < page_start k")
      case False
      with Suc.prems s have "n - page_start k < page_size k" "n = n - page_start k + page_start k" by simp_all
      then show ?thesis by blast
    qed (use Suc.IH less_Suc_eq in blast)
  qed (simp add: page_start_def)
  with assms show ?thesis by blast
qed

section \<open>Invariant\<close>

text \<open>The free list that starts at \<open>h\<close>; it ends at the index of the next new slot.\<close>

fun free_path :: "'a slot list \<Rightarrow> nat \<Rightarrow> nat list \<Rightarrow> bool" where
  "free_path sl h [] \<longleftrightarrow> h = length sl"
| "free_path sl h (i # is) \<longleftrightarrow> h = i \<and> i < length sl \<and> free_path sl (unat (sl_next (sl ! i))) is"

definition page_ok :: "'a page \<Rightarrow> nat list \<Rightarrow> bool" where
  "page_ok pg fl \<longleftrightarrow> free_path (pg_slots pg) (pg_head pg) fl \<and> distinct fl \<and>
     pg_slots_used pg + length fl = length (pg_slots pg) \<and> pg_used pg = pg_slots_used pg \<and>
     length (pg_slots pg) \<le> pg_len pg \<and> pg_len pg \<le> 2 ^ 23 \<and> (pg_allocated pg \<longleftrightarrow> pg_slots pg \<noteq> [])"

text \<open>The slots in use.\<close>

definition in_use :: "'a page \<Rightarrow> nat list \<Rightarrow> nat set" where
  "in_use pg fl = {..<length (pg_slots pg)} - set fl"

lemma free_path_bound: "free_path sl h fl \<Longrightarrow> set fl \<subseteq> {..<length sl}"
  by (induction fl arbitrary: h) auto

lemma free_path_head: "free_path sl h fl \<Longrightarrow> h \<le> length sl \<and> (h < length sl \<longleftrightarrow> fl \<noteq> [])"
  by (cases fl) auto

lemma free_path_update: "i \<notin> set fl \<or> sl_next v = sl_next (sl ! i) \<Longrightarrow> free_path (sl[i := v]) h fl = free_path sl h fl"
proof (induction fl arbitrary: h)
  case (Cons k ks)
  have a: "sl_next (sl[i := v] ! k) = sl_next (sl ! k)" if "k < length sl"
  proof (cases "k = i")
    case True then show ?thesis using Cons.prems that by simp
  next
    case False then show ?thesis by simp
  qed
  have "i \<notin> set ks \<or> sl_next v = sl_next (sl ! i)" using Cons.prems by (elim disjE) simp_all
  then have "free_path (sl[i := v]) h' ks = free_path sl h' ks" for h' by (rule Cons.IH)
  then show ?case unfolding free_path.simps length_list_update by (intro conj_cong refl) (simp add: a)
qed simp

lemma free_path_map: "free_path (map (\<lambda>sl. sl\<lparr>sl_value := f (sl_value sl)\<rparr>) sl) h fl = free_path sl h fl"
  by (induction fl arbitrary: h) (simp_all cong: conj_cong)

lemma in_use_card:
  assumes "page_ok pg fl"
  shows "finite (in_use pg fl)" "card (in_use pg fl) = pg_slots_used pg"
proof -
  have "set fl \<subseteq> {..<length (pg_slots pg)}" "card (set fl) = length fl"
    using assms free_path_bound by (auto simp: page_ok_def distinct_card)
  then have "card (in_use pg fl) = length (pg_slots pg) - length fl"
    unfolding in_use_def by (subst card_Diff_subset) auto
  with assms show "card (in_use pg fl) = pg_slots_used pg" by (auto simp: page_ok_def)
qed (simp add: in_use_def)

text \<open>A page that refuses is full.\<close>

lemma page_allocate_none:
  assumes ok: "page_ok pg fl" and none: "fst (page_allocate d rst pg) = None"
  shows "snd (page_allocate d rst pg) = pg" "in_use pg fl = {..<pg_len pg}"
proof -
  show "snd (page_allocate d rst pg) = pg" using none by (auto simp: page_allocate_def Let_def split: if_splits)
  have "pg_used pg = pg_len pg \<or> \<not> pg_head pg < length (pg_slots pg) \<and> pg_len pg = length (pg_slots pg)"
    using none by (auto simp: page_allocate_def Let_def split: if_splits)
  then have "length fl = 0 \<and> pg_len pg = length (pg_slots pg)"
  proof
    assume "pg_used pg = pg_len pg"
    with ok show ?thesis unfolding page_ok_def by linarith
  qed (use ok free_path_head [of "pg_slots pg" "pg_head pg" fl] in \<open>auto simp: page_ok_def\<close>)
  then show "in_use pg fl = {..<pg_len pg}" by (simp add: in_use_def)
qed

lemma page_allocate_some:
  assumes ok: "page_ok pg fl" and some: "page_allocate d rst pg = (Some i, pg')"
  shows "\<exists>fl'. page_ok pg' fl' \<and> in_use pg' fl' = insert i (in_use pg fl) \<and> i \<notin> in_use pg fl \<and> i < pg_len pg \<and>
    pg_len pg' = pg_len pg \<and> pg_prev_len pg' = pg_prev_len pg \<and>
    (\<forall>j \<in> in_use pg fl. sl_value (pg_slots pg' ! j) = sl_value (pg_slots pg ! j)) \<and>
    sl_value (pg_slots pg' ! i) = (if i < length (pg_slots pg) then rst (sl_value (pg_slots pg ! i)) else d)"
proof (cases fl)
  case Nil
  with ok some have i: "i = length (pg_slots pg)" "pg_len pg \<noteq> length (pg_slots pg)"
    and pg': "pg' = pg\<lparr>pg_slots := pg_slots pg @ [\<lparr>sl_value = d, sl_next = 0\<rparr>], pg_head := pg_head pg + 1,
      pg_slots_used := pg_slots_used pg + 1, pg_used := pg_slots_used pg + 1, pg_allocated := True\<rparr>"
    by (auto simp: page_allocate_def page_ok_def Let_def split: if_splits)
  with ok Nil show ?thesis by (intro exI [of _ "[]"]) (auto simp: page_ok_def in_use_def nth_append)
next
  case (Cons k ks)
  then have h: "pg_head pg = k" "k < length (pg_slots pg)" "free_path (pg_slots pg) (unat (sl_next (pg_slots pg ! k))) ks"
    using ok by (auto simp: page_ok_def)
  have i: "i = k" and pg': "pg' = pg\<lparr>pg_head := unat (sl_next (pg_slots pg ! k)), pg_slots_used := pg_slots_used pg + 1,
      pg_used := pg_slots_used pg + 1, pg_slots := (pg_slots pg)[k := (pg_slots pg ! k)\<lparr>sl_value := rst (sl_value (pg_slots pg ! k))\<rparr>]\<rparr>"
    using some h by (auto simp: page_allocate_def Let_def split: if_splits)
  have "page_ok pg' ks" using ok h Cons by (auto simp: page_ok_def pg' free_path_update)
  moreover have "k \<notin> set ks" using ok Cons by (auto simp: page_ok_def)
  ultimately show ?thesis
    using ok h Cons by (intro exI [of _ ks]) (auto simp: page_ok_def pg' i in_use_def nth_list_update)
qed

lemma page_release_ok:
  assumes ok: "page_ok pg fl" and i: "i \<in> in_use pg fl"
  shows "\<exists>pg'. page_release i pg = Some pg' \<and> page_ok pg' (i # fl) \<and> in_use pg' (i # fl) = in_use pg fl - {i} \<and>
    pg_len pg' = pg_len pg \<and> pg_prev_len pg' = pg_prev_len pg \<and>
    (\<forall>j. sl_value (pg_slots pg' ! j) = sl_value (pg_slots pg ! j))"
proof -
  have i': "i < length (pg_slots pg)" "i \<notin> set fl" using i by (auto simp: in_use_def)
  have u: "pg_slots_used pg \<noteq> 0" using in_use_card [OF ok] i card_gt_0_iff [of "in_use pg fl"] by auto
  have "pg_head pg \<le> length (pg_slots pg)" using ok free_path_head by (auto simp: page_ok_def)
  then have w: "unat (of_nat (pg_head pg) :: u32) = pg_head pg"
    using ok by (simp add: unat_of_nat page_ok_def)
  define pg' where "pg' = pg\<lparr>pg_slots := (pg_slots pg)[i := (pg_slots pg ! i)\<lparr>sl_next := of_nat (pg_head pg)\<rparr>], pg_head := i,
                    pg_slots_used := pg_slots_used pg - 1, pg_used := pg_slots_used pg - 1\<rparr>"
  have "page_release i pg = Some pg'" using i' u by (simp add: page_release_def pg'_def)
  moreover have "page_ok pg' (i # fl)" using ok i' u w by (auto simp: page_ok_def pg'_def free_path_update)
  moreover have "sl_value (pg_slots pg' ! j) = sl_value (pg_slots pg ! j)" for j
    using i' by (cases "j = i") (auto simp: pg'_def)
  ultimately show ?thesis by (auto simp: in_use_def pg'_def)
qed

lemma compact_page_ok:
  assumes ok: "page_ok pg fl"
  shows "\<exists>fl'. page_ok (compact_page b pg) fl' \<and> in_use (compact_page b pg) fl' = in_use pg fl \<and>
    pg_len (compact_page b pg) = pg_len pg \<and> pg_prev_len (compact_page b pg) = pg_prev_len pg \<and>
    (in_use pg fl \<noteq> {} \<longrightarrow> compact_page b pg = pg)"
proof (cases "compact_page b pg = pg")
  case False
  then have c: "pg_slots_used pg = 0" "compact_page b pg = pg\<lparr>pg_allocated := False, pg_slots := [], pg_head := 0\<rparr>"
    by (auto simp: compact_page_def split: if_splits)
  then have "in_use pg fl = {}" using in_use_card [OF ok] by simp
  then show ?thesis using ok c by (intro exI [of _ "[]"]) (simp add: page_ok_def in_use_def)
qed (use ok in auto)

section \<open>The slab invariant\<close>

text \<open>\<open>L\<close>: the references that exist.\<close>

definition slab_ok :: "'a slab \<Rightarrow> (nat \<times> nat) set \<Rightarrow> bool" where
  "slab_ok s L \<longleftrightarrow> length s = NUM_PAGES \<and> L \<subseteq> {..<NUM_PAGES} \<times> UNIV \<and>
     (\<forall>p<NUM_PAGES. pg_len (s ! p) = page_size p \<and> pg_prev_len (s ! p) = page_start p \<and>
       (\<exists>fl. page_ok (s ! p) fl \<and> in_use (s ! p) fl = {i. (p, i) \<in> L}))"

definition ref_addr :: "nat \<times> nat \<Rightarrow> address" where
  "ref_addr r = of_nat (snd r + page_start (fst r))"

definition slab_value :: "'a slab \<Rightarrow> nat \<times> nat \<Rightarrow> 'a" where
  "slab_value s r = sl_value (pg_slots (s ! fst r) ! snd r)"

definition all_refs :: "(nat \<times> nat) set" where
  "all_refs = (SIGMA p : {..<NUM_PAGES}. {..<page_size p})"

lemma slab_okD:
  assumes "slab_ok s L"
  shows "length s = NUM_PAGES" "\<And>p i. (p, i) \<in> L \<Longrightarrow> p < NUM_PAGES"
    "\<And>p. p < NUM_PAGES \<Longrightarrow> pg_len (s ! p) = page_size p \<and> pg_prev_len (s ! p) = page_start p \<and>
       (\<exists>fl. page_ok (s ! p) fl \<and> in_use (s ! p) fl = {i. (p, i) \<in> L})"
  using assms by (auto simp: slab_ok_def)

lemma page_size_new: "p < m \<Longrightarrow> init_pages m (page_size k) (page_start k) ! p =
   page_default\<lparr>pg_len := page_size (k + p), pg_prev_len := page_start (k + p)\<rparr>"
proof (induction m arbitrary: k p)
  case (Suc m)
  have e: "page_size k * 2 = page_size (Suc k)" "page_start k + page_size k = page_start (Suc k)"
    by (simp_all add: page_size_def page_start_def)
  show ?case
    using Suc by (cases p) (simp_all add: e)
qed simp

lemma slab_new_page: "p < NUM_PAGES \<Longrightarrow> slab_new ! p = page_default\<lparr>pg_len := page_size p, pg_prev_len := page_start p\<rparr>"
  using page_size_new [of p NUM_PAGES 0] by (simp add: slab_new_def PAGE_INITIAL_SIZE_def page_size_def page_start_def)

lemma init_pages_length [simp]: "length (init_pages n l p) = n"
  by (induction n arbitrary: l p) simp_all

lemma slab_new_length [simp]: "length slab_new = NUM_PAGES"
  by (simp add: slab_new_def)

lemma slab_new_ok: "slab_ok slab_new {}"
  unfolding slab_ok_def using page_bound(2)
  by (auto simp: slab_new_page page_default_def page_ok_def in_use_def intro!: exI [of _ "[]"])

lemma slab_ok_upd:
  assumes ok: "slab_ok s L" and p: "p < NUM_PAGES" and pg: "page_ok pg fl" "pg_len pg = pg_len (s ! p)" "pg_prev_len pg = pg_prev_len (s ! p)"
    and L: "\<And>q i. q \<noteq> p \<Longrightarrow> (q, i) \<in> L' \<longleftrightarrow> (q, i) \<in> L" "in_use pg fl = {i. (p, i) \<in> L'}"
  shows "slab_ok (s[p := pg]) L'"
proof -
  have "pg_len (s[p := pg] ! q) = page_size q \<and> pg_prev_len (s[p := pg] ! q) = page_start q \<and>
       (\<exists>fl. page_ok (s[p := pg] ! q) fl \<and> in_use (s[p := pg] ! q) fl = {i. (q, i) \<in> L'})" if "q < NUM_PAGES" for q
    using that slab_okD [OF ok] p pg L by (cases "q = p") auto
  moreover have "q < NUM_PAGES" if "(q, i) \<in> L'" for q i
    using that slab_okD(2) [OF ok] p L(1) by (cases "q = p") auto
  ultimately show ?thesis using slab_okD(1) [OF ok] by (auto simp: slab_ok_def)
qed

lemma ref_in_page:
  assumes "slab_ok s L" "(p, i) \<in> L"
  shows "p < NUM_PAGES" "i < length (pg_slots (s ! p))" "length (pg_slots (s ! p)) \<le> page_size p" "pg_allocated (s ! p)"
proof -
  show p: "p < NUM_PAGES" using slab_okD(2) [OF assms] .
  obtain fl where fl: "page_ok (s ! p) fl" "in_use (s ! p) fl = {i. (p, i) \<in> L}" using slab_okD(3) [OF assms(1) p] by blast
  then have "i \<in> in_use (s ! p) fl" using assms(2) by simp
  then show i: "i < length (pg_slots (s ! p))" by (simp add: in_use_def)
  then show "pg_allocated (s ! p)" "length (pg_slots (s ! p)) \<le> page_size p"
    using fl(1) slab_okD(3) [OF assms(1) p] by (auto simp: page_ok_def)
qed

lemma slab_get_ok:
  assumes "slab_ok s L" "r \<in> L"
  shows "slab_get (ref_addr r) s = Found (slab_value s r)"
proof -
  obtain p i where r: "r = (p, i)" by force
  note in_page = ref_in_page [OF assms [unfolded r]]
  then have "i < page_size p" by simp
  from page_of_address [OF in_page(1) this] in_page slab_okD(1,3) [OF assms(1)]
  show ?thesis by (simp add: r slab_get_def ref_addr_def Let_def page_slot_def slab_value_def)
qed

lemma page_allocate_none_same: "page_allocate d rst pg = (None, pg') \<Longrightarrow> pg' = pg"
  by (auto simp: page_allocate_def Let_def split: if_splits)

lemma alloc_pages_spec:
  "(case alloc_pages d rst k pgs of
      (None, pgs') \<Rightarrow> pgs' = pgs \<and> (\<forall>j<length pgs. fst (page_allocate d rst (pgs ! j)) = None)
    | (Some (a, p, i), pgs') \<Rightarrow> \<exists>j<length pgs. \<exists>pg'. p = k + j \<and> page_allocate d rst (pgs ! j) = (Some i, pg') \<and>
        pgs' = pgs[j := pg'] \<and> a = page_addr (pgs ! j) i)"
proof (induction pgs arbitrary: k)
  case (Cons pg pgs)
  obtain r pg' where pa: "page_allocate d rst pg = (r, pg')" by force
  show ?case
  proof (cases r)
    case (Some i)
    with pa show ?thesis by (auto intro!: exI [of _ 0])
  next
    case None
    obtain x pgs' where al: "alloc_pages d rst (Suc k) pgs = (x, pgs')" by force
    have pg': "pg' = pg" using pa None page_allocate_none_same by auto
    show ?thesis
    proof (cases x)
      case None
      with Cons.IH [of "Suc k"] al pa \<open>r = None\<close> pg' show ?thesis by (auto simp: nth_Cons split: nat.splits)
    next
      case (Some y)
      obtain a p i where y: "y = (a, p, i)" by (cases y) auto
      with Cons.IH [of "Suc k"] al Some obtain j pg'' where j: "j < length pgs" "p = Suc k + j"
        "page_allocate d rst (pgs ! j) = (Some i, pg'')" "pgs' = pgs[j := pg'']" "a = page_addr (pgs ! j) i" by auto
      with al pa \<open>r = None\<close> pg' Some y show ?thesis by (auto intro!: exI [of _ "Suc j"])
    qed
  qed
qed simp

lemma slab_allocate_some:
  assumes ok: "slab_ok s L" and al: "slab_allocate d rst s = (Some (a, p, i), s')"
  shows "(p, i) \<notin> L \<and> (p, i) \<in> all_refs \<and> a = ref_addr (p, i) \<and> slab_ok s' (insert (p, i) L) \<and>
    (\<forall>r \<in> L. slab_value s' r = slab_value s r) \<and>
    slab_value s' (p, i) = (if i < length (pg_slots (s ! p)) then rst (slab_value s (p, i)) else d)"
proof -
  obtain pg' where p: "p < NUM_PAGES" "page_allocate d rst (s ! p) = (Some i, pg')" "s' = s[p := pg']" "a = page_addr (s ! p) i"
    using alloc_pages_spec [where d = d and rst = rst and k = 0 and pgs = s] al slab_okD(1) [OF ok] by (auto simp: slab_allocate_def)
  obtain fl where fl: "page_ok (s ! p) fl" "in_use (s ! p) fl = {i. (p, i) \<in> L}" "pg_len (s ! p) = page_size p"
    "pg_prev_len (s ! p) = page_start p" using slab_okD(3) [OF ok p(1)] by blast
  from page_allocate_some [OF fl(1) p(2)] obtain fl' where n: "page_ok pg' fl'" "in_use pg' fl' = insert i (in_use (s ! p) fl)"
    "i \<notin> in_use (s ! p) fl" "i < pg_len (s ! p)" "pg_len pg' = pg_len (s ! p)" "pg_prev_len pg' = pg_prev_len (s ! p)"
    "\<forall>j \<in> in_use (s ! p) fl. sl_value (pg_slots pg' ! j) = sl_value (pg_slots (s ! p) ! j)"
    "sl_value (pg_slots pg' ! i) = (if i < length (pg_slots (s ! p)) then rst (sl_value (pg_slots (s ! p) ! i)) else d)" by blast
  have "slab_ok s' (insert (p, i) L)"
    unfolding p(3) by (rule slab_ok_upd [OF ok p(1) n(1,5,6)]) (use n(2) fl(2) in auto)
  moreover have "slab_value s' (q, j) = slab_value s (q, j)" if "(q, j) \<in> L" for q j
    using that n(7) fl(2) p(1) slab_okD(1) [OF ok] by (cases "q = p") (auto simp: slab_value_def p(3))
  moreover have "(p, i) \<notin> L" "(p, i) \<in> all_refs" "a = ref_addr (p, i)"
    using n(3,4) fl p(1) by (auto simp: all_refs_def p(4) page_addr_def ref_addr_def)
  ultimately show ?thesis using n(8) p(1) slab_okD(1) [OF ok] by (auto simp: slab_value_def p(3))
qed

lemma refs_within: "slab_ok s L \<Longrightarrow> L \<subseteq> all_refs"
  using ref_in_page by (fastforce simp: all_refs_def)

lemma slab_allocate_none:
  assumes ok: "slab_ok s L" and al: "slab_allocate d rst s = (None, s')"
  shows "s' = s" "L = all_refs"
proof -
  have a: "s' = s" "\<And>p. p < NUM_PAGES \<Longrightarrow> fst (page_allocate d rst (s ! p)) = None"
    using alloc_pages_spec [where d = d and rst = rst and k = 0 and pgs = s] al slab_okD(1) [OF ok] by (auto simp: slab_allocate_def)
  then show "s' = s" by simp
  have "(p, i) \<in> L" if "p < NUM_PAGES" "i < page_size p" for p i
    using slab_okD(3) [OF ok that(1)] page_allocate_none(2) [OF _ a(2) [OF that(1)]] that(2) by fastforce
  then show "L = all_refs" using refs_within [OF ok] by (auto simp: all_refs_def)
qed

lemma ref_drop_ok:
  assumes ok: "slab_ok s L" and r: "r \<in> L"
  shows "\<exists>s'. ref_drop r s = Some s' \<and> slab_ok s' (L - {r}) \<and> (\<forall>q. slab_value s' q = slab_value s q)"
proof -
  obtain p i where pi: "r = (p, i)" by force
  then have p: "p < NUM_PAGES" using slab_okD(2) [OF ok] r by blast
  obtain fl where fl: "page_ok (s ! p) fl" "in_use (s ! p) fl = {i. (p, i) \<in> L}" using slab_okD(3) [OF ok p] by blast
  have "i \<in> in_use (s ! p) fl" using fl(2) r pi by simp
  from page_release_ok [OF fl(1) this] obtain pg' where n: "page_release i (s ! p) = Some pg'" "page_ok pg' (i # fl)"
    "in_use pg' (i # fl) = in_use (s ! p) fl - {i}" "pg_len pg' = pg_len (s ! p)" "pg_prev_len pg' = pg_prev_len (s ! p)"
    "\<forall>j. sl_value (pg_slots pg' ! j) = sl_value (pg_slots (s ! p) ! j)" by blast
  have "slab_ok (s[p := pg']) (L - {r})"
    by (rule slab_ok_upd [OF ok p n(2,4,5)]) (use n(3) fl(2) pi in auto)
  moreover have "slab_value (s[p := pg']) q = slab_value s q" for q
    using n(6) p slab_okD(1) [OF ok] by (cases "fst q = p") (simp_all add: slab_value_def)
  ultimately show ?thesis using n(1) by (simp add: ref_drop_def pi)
qed

lemma slab_compact_nth:
  assumes "length s = NUM_PAGES" "p < NUM_PAGES"
  shows "slab_compact busy s ! p = (if p = 0 then s ! 0 else compact_page (busy p) (s ! p))" "length (slab_compact busy s) = NUM_PAGES"
  using assms by (auto simp: slab_compact_def nth_append NUM_PAGES_def)

lemma slab_compact_ok:
  assumes ok: "slab_ok s L"
  shows "slab_ok (slab_compact busy s) L" "\<And>r. r \<in> L \<Longrightarrow> slab_value (slab_compact busy s) r = slab_value s r"
proof -
  note nth = slab_compact_nth [OF slab_okD(1) [OF ok]]
  have pages: "pg_len (slab_compact busy s ! p) = page_size p \<and> pg_prev_len (slab_compact busy s ! p) = page_start p \<and>
      (\<exists>fl. page_ok (slab_compact busy s ! p) fl \<and> in_use (slab_compact busy s ! p) fl = {i. (p, i) \<in> L}) \<and>
      ({i. (p, i) \<in> L} \<noteq> {} \<longrightarrow> slab_compact busy s ! p = s ! p)" if p: "p < NUM_PAGES" for p
  proof -
    obtain fl where fl: "page_ok (s ! p) fl" "in_use (s ! p) fl = {i. (p, i) \<in> L}" "pg_len (s ! p) = page_size p"
      "pg_prev_len (s ! p) = page_start p" using slab_okD(3) [OF ok p] by blast
    show ?thesis
    proof (cases "p = 0")
      case False
      with compact_page_ok [OF fl(1), of "busy p"] fl(2-) nth(1) [OF p, of busy] show ?thesis by fastforce
    qed (use fl nth(1) [OF p] in auto)
  qed
  have "0 < NUM_PAGES" by (simp add: NUM_PAGES_def)
  from nth(2) [OF this] pages slab_okD(2) [OF ok] show "slab_ok (slab_compact busy s) L" by (auto simp: slab_ok_def)
  show "slab_value (slab_compact busy s) r = slab_value s r" if "r \<in> L" for r
    using that pages [of "fst r"] slab_okD(2) [OF ok, of "fst r" "snd r"] by (cases r) (auto simp: slab_value_def)
qed

section \<open>The slab as a store of entries\<close>

text \<open>
  What the users of the slab rely on, over any sequence of allocations, drops of
  references and clean-ups: an allocation returns a new reference, and the entry of a
  reference keeps its value whatever happens to the others.
\<close>

datatype ('r, 'c) store_op = Alloc | Free 'r | Tidy 'c

fun store_step :: "('s \<Rightarrow> 'r option \<times> 's) \<Rightarrow> ('r \<Rightarrow> 's \<Rightarrow> 's option) \<Rightarrow> ('c \<Rightarrow> 's \<Rightarrow> 's) \<Rightarrow> ('r, 'c) store_op \<Rightarrow> 's \<times> 'r set \<Rightarrow> ('s \<times> 'r set) option" where
  "store_step alloc free tidy Alloc (s, L) = (case alloc s of (None, s') \<Rightarrow> Some (s', L) | (Some r, s') \<Rightarrow> Some (s', insert r L))"
| "store_step alloc free tidy (Free r) (s, L) = (if r \<in> L then map_option (\<lambda>s'. (s', L - {r})) (free r s) else None)"
| "store_step alloc free tidy (Tidy c) (s, L) = Some (tidy c s, L)"

fun store_run :: "('s \<Rightarrow> 'r option \<times> 's) \<Rightarrow> ('r \<Rightarrow> 's \<Rightarrow> 's option) \<Rightarrow> ('c \<Rightarrow> 's \<Rightarrow> 's) \<Rightarrow> ('r, 'c) store_op list \<Rightarrow> 's \<times> 'r set \<Rightarrow> ('s \<times> 'r set) option" where
  "store_run alloc free tidy [] x = Some x"
| "store_run alloc free tidy (op # ops) x =
     (case store_step alloc free tidy op x of None \<Rightarrow> None | Some y \<Rightarrow> store_run alloc free tidy ops y)"

locale entry_store =
  fixes ok :: "'s \<Rightarrow> 'r set \<Rightarrow> bool" and val :: "'s \<Rightarrow> 'r \<Rightarrow> 'v"
    and alloc :: "'s \<Rightarrow> 'r option \<times> 's" and free :: "'r \<Rightarrow> 's \<Rightarrow> 's option" and tidy :: "'c \<Rightarrow> 's \<Rightarrow> 's"
  assumes alloc_new: "ok s L \<Longrightarrow> alloc s = (Some r, s') \<Longrightarrow> r \<notin> L \<and> ok s' (insert r L) \<and> (\<forall>q \<in> L. val s' q = val s q)"
    and alloc_full: "ok s L \<Longrightarrow> alloc s = (None, s') \<Longrightarrow> s' = s"
    and free_ok: "ok s L \<Longrightarrow> r \<in> L \<Longrightarrow> \<exists>s'. free r s = Some s' \<and> ok s' (L - {r}) \<and> (\<forall>q \<in> L - {r}. val s' q = val s q)"
    and tidy_ok: "ok s L \<Longrightarrow> ok (tidy c s) L \<and> (\<forall>q \<in> L. val (tidy c s) q = val s q)"
begin

lemma step_ok:
  assumes "ok s L" "store_step alloc free tidy op (s, L) = Some (s', L')"
  shows "ok s' L' \<and> (\<forall>q \<in> L. op \<noteq> Free q \<longrightarrow> q \<in> L' \<and> val s' q = val s q)"
proof (cases op)
  case Alloc
  with assms show ?thesis using alloc_new [OF assms(1)] alloc_full [OF assms(1)] by (fastforce split: prod.splits option.splits)
next
  case (Free r)
  with assms show ?thesis using free_ok [OF assms(1), of r] by (auto split: if_splits)
next
  case (Tidy c)
  with assms show ?thesis using tidy_ok [OF assms(1), of c] by auto
qed

lemma run_ok:
  assumes "ok s L" "store_run alloc free tidy ops (s, L) = Some (s', L')"
  shows "ok s' L' \<and> (\<forall>q \<in> L. Free q \<notin> set ops \<longrightarrow> q \<in> L' \<and> val s' q = val s q)"
  using assms
proof (induction ops arbitrary: s L)
  case (Cons op ops)
  then obtain s1 L1 where st: "store_step alloc free tidy op (s, L) = Some (s1, L1)" "store_run alloc free tidy ops (s1, L1) = Some (s', L')"
    by (auto split: option.splits)
  note s = step_ok [OF Cons.prems(1) st(1)]
  with Cons.IH [OF _ st(2)] show ?case by fastforce
qed simp

lemma free_never_fails:
  assumes "ok s L" "r \<in> L"
  shows "store_step alloc free tidy (Free r) (s, L) \<noteq> None"
  using free_ok [OF assms] assms(2) by auto

end

text \<open>The reference that \<open>allocate\<close> returns.\<close>

definition slab_alloc_ref :: "'a \<Rightarrow> ('a \<Rightarrow> 'a) \<Rightarrow> 'a slab \<Rightarrow> (nat \<times> nat) option \<times> 'a slab" where
  "slab_alloc_ref d rst s = (case slab_allocate d rst s of (x, s') \<Rightarrow> (map_option snd x, s'))"

interpretation slab_store: entry_store slab_ok slab_value "slab_alloc_ref d rst" ref_drop slab_compact for d rst
proof
  show "r \<notin> L \<and> slab_ok s' (insert r L) \<and> (\<forall>q \<in> L. slab_value s' q = slab_value s q)"
    if "slab_ok s L" "slab_alloc_ref d rst s = (Some r, s')" for s L r s'
    using that slab_allocate_some [OF that(1), of d rst] by (cases r) (auto simp: slab_alloc_ref_def split: prod.splits)
  show "s' = s" if "slab_ok s L" "slab_alloc_ref d rst s = (None, s')" for s L s'
    using that slab_allocate_none(1) [OF that(1), of d rst] by (auto simp: slab_alloc_ref_def split: prod.splits)
  show "\<exists>s'. ref_drop r s = Some s' \<and> slab_ok s' (L - {r}) \<and> (\<forall>q \<in> L - {r}. slab_value s' q = slab_value s q)"
    if "slab_ok s L" "r \<in> L" for s L r
    using ref_drop_ok [OF that] by blast
  show "slab_ok (slab_compact c s) L \<and> (\<forall>q \<in> L. slab_value (slab_compact c s) q = slab_value s q)" if "slab_ok s L" for s L c
    using slab_compact_ok [OF that, where busy = c] by blast
qed

text \<open>A run of the slab.\<close>

definition slab_run :: "'a \<Rightarrow> ('a \<Rightarrow> 'a) \<Rightarrow> (nat \<times> nat, nat \<Rightarrow> bool) store_op list \<Rightarrow> ('a slab \<times> (nat \<times> nat) set) option" where
  "slab_run d rst ops = store_run (slab_alloc_ref d rst) ref_drop slab_compact ops (slab_new, {})"

lemma slab_run_ok: "slab_run d rst ops = Some (s, L) \<Longrightarrow> slab_ok s L"
  unfolding slab_run_def by (drule slab_store.run_ok [OF slab_new_ok]) (rule conjunct1)

lemma ref_addr_inj: "inj_on ref_addr all_refs"
proof (rule inj_on_inverseI [where g = "\<lambda>a. (address_page a, unat (a - of_nat (page_start (address_page a))))"])
  fix r :: "nat \<times> nat" assume "r \<in> all_refs"
  then obtain p i where r: "r = (p, i)" "p < NUM_PAGES" "i < page_size p" by (auto simp: all_refs_def)
  from page_of_address [OF r(2,3)]
  show "(address_page (ref_addr r), unat (ref_addr r - of_nat (page_start (address_page (ref_addr r))))) = r"
    by (simp add: r(1) ref_addr_def)
qed

lemma card_all_refs: "card all_refs = page_start NUM_PAGES"
proof -
  have "(\<Sum>p<n. page_size p) = page_start n" for n
    by (induction n) (simp_all add: page_size_def page_start_def)
  then show ?thesis unfolding all_refs_def by (subst card_SigmaI) auto
qed

section \<open>Properties\<close>

text \<open>
  C24: in every run of allocations, drops and clean-ups, with the locks held by other
  threads as they may be, a reference that exists is found at its own address, no two
  references share an address, and as long as the reference is not dropped, no later
  run changes what is found there. Dropping an existing reference does not panic.
\<close>

theorem slab_entry_stable:
  assumes "slab_run d rst ops = Some (s, L)" "r \<in> L"
  shows "slab_get (ref_addr r) s = Found (slab_value s r) \<and> inj_on ref_addr L \<and> ref_drop r s \<noteq> None \<and>
    (\<forall>later s' L'. store_run (slab_alloc_ref d rst) ref_drop slab_compact later (s, L) = Some (s', L') \<and> Free r \<notin> set later \<longrightarrow>
      slab_get (ref_addr r) s' = slab_get (ref_addr r) s)"
proof -
  note ok = slab_run_ok [OF assms(1)]
  have "slab_get (ref_addr r) s' = slab_get (ref_addr r) s"
    if "store_run (slab_alloc_ref d rst) ref_drop slab_compact later (s, L) = Some (s', L')" "Free r \<notin> set later" for later s' L'
    using slab_store.run_ok [OF ok that(1)] that(2) assms(2) slab_get_ok [OF ok assms(2)] slab_get_ok [of s' L' r] by simp
  moreover have "inj_on ref_addr L" using ref_addr_inj refs_within [OF ok] by (rule inj_on_subset)
  ultimately show ?thesis using slab_get_ok [OF ok assms(2)] ref_drop_ok [OF ok assms(2)] by blast
qed

definition slab_ops_example :: "(nat \<times> nat, nat \<Rightarrow> bool) store_op list" where
  "slab_ops_example = [Alloc, Alloc, Free (0, 0), Alloc, Tidy (\<lambda>_. False)]"

definition slab_example :: "nat slab" where
  "slab_example = fst (the (slab_run 7 Suc slab_ops_example))"

lemma slab_example_eval: "slab_run 7 Suc slab_ops_example = Some (slab_example, {(0, 0), (0, 1)})"
proof -
  have "map_option snd (slab_run (7::nat) Suc slab_ops_example) = Some {(0, 0), (0, 1)}" by code_simp
  then obtain x where x: "slab_run 7 Suc slab_ops_example = Some x" "snd x = {(0, 0), (0, 1)}" by auto
  then show ?thesis by (simp add: slab_example_def prod_eq_iff)
qed

theorem slab_entry_stable_witness: "slab_get (ref_addr (0, 1)) slab_example = Found (slab_value slab_example (0, 1))"
  using slab_entry_stable [OF slab_example_eval, of "(0, 1)"] by simp

text \<open>the bounds of the slab. An allocation fails exactly when all \<open>2\<^sup>2\<^sup>4 - 32\<close> entries
  are in use, and the address it returns is below that number, so it fits the 24 bits of
  a token and leads back to its page and slot.
\<close>

theorem slab_address_bounds:
  assumes "slab_run d rst ops = Some (s, L)"
  shows "(case slab_allocate d rst s of
      (None, s') \<Rightarrow> s' = s \<and> card L = 2 ^ 24 - 32
    | (Some (a, p, i), s') \<Rightarrow> card L < 2 ^ 24 - 32 \<and> (p, i) \<notin> L \<and> unat a < 2 ^ 24 - 32 \<and>
        address_page a = p \<and> page_slot (s' ! p) a = i \<and> slab_get a s' = Found (slab_value s' (p, i)))"
proof -
  note ok = slab_run_ok [OF assms]
  have c: "card all_refs = 2 ^ 24 - 32" by (simp add: card_all_refs page_start_def NUM_PAGES_def)
  obtain x s' where al: "slab_allocate d rst s = (x, s')" by force
  show ?thesis
  proof (cases x)
    case None
    with slab_allocate_none [OF ok, of d rst s'] al c show ?thesis by simp
  next
    case (Some y)
    obtain a p i where y: "y = (a, p, i)" by (cases y) auto
    with al Some slab_allocate_some [OF ok, of d rst a p i s']
    have n: "(p, i) \<notin> L" "(p, i) \<in> all_refs" "a = ref_addr (p, i)" "slab_ok s' (insert (p, i) L)" by auto
    have fin: "finite all_refs" using c by (simp add: card_ge_0_finite)
    then have "card (insert (p, i) L) \<le> card all_refs" by (rule card_mono) (rule refs_within [OF n(4)])
    moreover have "finite L" using fin refs_within [OF ok] by (rule rev_finite_subset)
    ultimately have "card L < 2 ^ 24 - 32" using n(1) c by simp
    moreover have p: "p < NUM_PAGES" "i < page_size p" using n(2) by (auto simp: all_refs_def)
    moreover have "unat a < 2 ^ 24 - 32" "address_page a = p" "page_slot (s' ! p) a = i"
      using page_of_address [OF p] page_bound(1) [OF p(1)] p slab_okD(3) [OF n(4) p(1)]
      by (simp_all add: n(3) ref_addr_def page_slot_def unat_of_nat del: of_nat_add)
    ultimately show ?thesis using al Some y n slab_get_ok [OF n(4), of "(p, i)"] by simp
  qed
qed

theorem slab_address_bounds_witness:
  "case slab_allocate 7 Suc slab_example of
     (None, s') \<Rightarrow> False
   | (Some (a, p, i), s') \<Rightarrow> (p, i) \<notin> {(0, 0), (0, 1)} \<and> slab_get a s' = Found (slab_value s' (p, i))"
  using slab_address_bounds [OF slab_example_eval] by (auto split: prod.splits option.splits)

end
