(* ===== verification/IO_Driver.thy ===== *)
theory IO_Driver
  imports Schedule_IO Slab
begin

text \<open>
  The I/O driver, \<open>ylong_runtime/src/net/driver.rs\<close> (the build without \<open>ffrt\<close>): it keeps the
  sources in a slab, hands out tokens made of the generation and the address of a
  source, and turns the events of the platform poller into readiness. The slab of the
  driver and the allocator of its handle are the same pages. What the poller
  answers is an argument: the events of one call, and whether the call failed.
\<close>

section \<open>Tokens\<close>

definition WAKE_TOKEN :: usize where "WAKE_TOKEN = push_bit 31 1"
definition SIGNAL_TOKEN :: usize where "SIGNAL_TOKEN = push_bit 31 1 + 1"
definition DRIVER_TICK_INIT :: u8 where "DRIVER_TICK_INIT = 0"
definition ADDRESS :: mask_seg where "ADDRESS = mask_new 24 0"
definition COMPACT_INTERVAL :: u8 where "COMPACT_INTERVAL = 255"

definition token_address :: "usize \<Rightarrow> address" where
  "token_address tok = get_by_mask (from_usize tok) ADDRESS"

definition token_new :: "usize \<Rightarrow> address \<Rightarrow> usize" where
  "token_new gen a = as_usize (set_by_mask ADDRESS a (set_by_mask GENERATION gen (from_usize 0)))"

section \<open>The driver\<close>

record io_driver =
  drv_resources :: "sio slab"
  drv_tick :: u8
  drv_events :: bool
  drv_signal_pending :: bool

definition drv_initialize :: io_driver where
  "drv_initialize = \<lparr>drv_resources = slab_new, drv_tick = DRIVER_TICK_INIT, drv_events = True, drv_signal_pending = False\<rparr>"

text \<open>The trait \<open>Entry\<close> for \<open>ScheduleIO\<close>.\<close>

definition sio_reset :: "sio \<Rightarrow> sio" where
  "sio_reset io = io\<lparr>status := entry_reset (status io)\<rparr>"

text \<open>An entry is changed through the shared reference to it.\<close>

definition slab_put :: "address \<Rightarrow> 'a \<Rightarrow> 'a slab \<Rightarrow> 'a slab" where
  "slab_put a v s =
     (let p = address_page a; i = page_slot (s ! p) a; pg = s ! p in
      s[p := pg\<lparr>pg_slots := (pg_slots pg)[i := (pg_slots pg ! i)\<lparr>sl_value := v\<rparr>]\<rparr>])"

text \<open>Readiness is written and, if that succeeded, announced.\<close>

definition dispatch_io :: "usize \<Rightarrow> u8 \<Rightarrow> ready \<Rightarrow> sio \<Rightarrow> sio" where
  "dispatch_io tok t r io =
     (let io1 = driver_set tok t r io in
      case pending io1 of None \<Rightarrow> io1 | Some r' \<Rightarrow> (sio_wake r' io1)\<lparr>pending := None\<rparr>)"

text \<open>\<open>dispatch\<close>; \<open>None\<close>: the address leads outside of the slab.\<close>

definition dispatch :: "usize \<Rightarrow> ready \<Rightarrow> io_driver \<Rightarrow> io_driver option" where
  "dispatch tok r d =
     (let a = token_address tok in
      case slab_get a (drv_resources d) of
        Found io \<Rightarrow> Some (d\<lparr>drv_resources := slab_put a (dispatch_io tok (drv_tick d) r io) (drv_resources d)\<rparr>)
      | Absent \<Rightarrow> Some d
      | Dangling \<Rightarrow> None
      | Bounds_Panic \<Rightarrow> None)"

datatype poll_answer = Polled "(usize \<times> io_event) list" | Interrupted "(usize \<times> io_event) list" | Poll_Failed

datatype drive_error = Event_Store_Missing | Poll_Error

definition handle_event :: "usize \<times> io_event \<Rightarrow> io_driver \<Rightarrow> io_driver option" where
  "handle_event e d =
     (if fst e = WAKE_TOKEN then Some d
      else if fst e = SIGNAL_TOKEN then Some (d\<lparr>drv_signal_pending := True\<rparr>)
      else dispatch (fst e) (from_event (snd e)) d)"

fun handle_events :: "(usize \<times> io_event) list \<Rightarrow> io_driver \<Rightarrow> io_driver option" where
  "handle_events [] d = Some d"
| "handle_events (e # es) d = (case handle_event e d of None \<Rightarrow> None | Some d' \<Rightarrow> handle_events es d')"

text \<open>\<open>drive\<close> up to the call of the poller.\<close>

definition drive_start :: "(nat \<Rightarrow> bool) \<Rightarrow> io_driver \<Rightarrow> bool \<times> io_driver" where
  "drive_start busy d =
     (let d1 = d\<lparr>drv_tick := drv_tick d + 1\<rparr>;
          d2 = (if drv_tick d1 = COMPACT_INTERVAL then d1\<lparr>drv_resources := slab_compact busy (drv_resources d1)\<rparr> else d1)
      in (drv_events d2, d2\<lparr>drv_events := False\<rparr>))"

definition drive :: "(nat \<Rightarrow> bool) \<Rightarrow> poll_answer \<Rightarrow> io_driver \<Rightarrow> ((drive_error + bool) \<times> io_driver) option" where
  "drive busy answer d =
     (case drive_start busy d of
        (False, d1) \<Rightarrow> Some (Inl Event_Store_Missing, d1)
      | (True, d1) \<Rightarrow>
          (case answer of
             Poll_Failed \<Rightarrow> Some (Inl Poll_Error, d1)
           | Polled evs \<Rightarrow> map_option (\<lambda>d2. (Inr (evs \<noteq> []), d2\<lparr>drv_events := True\<rparr>)) (handle_events evs d1)
           | Interrupted evs \<Rightarrow> map_option (\<lambda>d2. (Inr (evs \<noteq> []), d2\<lparr>drv_events := True\<rparr>)) (handle_events evs d1)))"

definition process_signal :: "io_driver \<Rightarrow> bool \<times> io_driver" where
  "process_signal d = (drv_signal_pending d, d\<lparr>drv_signal_pending := False\<rparr>)"

section \<open>The handle\<close>

datatype register_error = Max_Resources | Register_Failed

definition allocate_schedule_io_pair :: "sio slab \<Rightarrow> (register_error + (nat \<times> nat) \<times> usize) \<times> sio slab" where
  "allocate_schedule_io_pair s =
     (case slab_allocate sio_default sio_reset s of
        (None, s') \<Rightarrow> (Inl Max_Resources, s')
      | (Some (a, r), s') \<Rightarrow> (Inr (r, token_new (status_generation (status (slab_value s' r))) a), s'))"

text \<open>
  \<open>register_source\<close>; \<open>reg\<close> is whether the platform accepted the file descriptor. When it did not, the
  new reference is dropped again.
\<close>

definition register_source :: "(usize \<Rightarrow> bool) \<Rightarrow> sio slab \<Rightarrow> ((register_error + (nat \<times> nat) \<times> usize) \<times> sio slab) option" where
  "register_source reg s =
     (case allocate_schedule_io_pair s of
        (Inl e, s') \<Rightarrow> Some (Inl e, s')
      | (Inr (r, tok), s') \<Rightarrow>
          if reg tok then Some (Inr (r, tok), s') else map_option (\<lambda>s''. (Inl Register_Failed, s'')) (ref_drop r s'))"

text \<open>Dropping the last handle.\<close>

definition inner_drop :: "sio slab option \<Rightarrow> sio slab option" where
  "inner_drop resources = map_option (slab_for_each sio_shutdown) resources"

section \<open>The driver and its users\<close>

text \<open>
  The driver thread runs \<open>drive\<close>; between the call of the poller and the handling of its
  last event, other threads register sources, use them, and drop them. \<open>toks\<close> is the token
  of each reference that exists, \<open>batch\<close> the events not yet handled; \<open>None\<close>: the
  driver is not in \<open>drive\<close>.
\<close>

record drv_sys =
  drv :: io_driver
  toks :: "((nat \<times> nat) \<times> usize) list"
  batch :: "(usize \<times> io_event) list option"

datatype drv_event =
    DRegister bool
  | DUse "nat \<times> nat" sio_event
  | DDrop "nat \<times> nat"
  | DPoll "nat \<Rightarrow> bool" poll_answer
  | DHandle
  | DDone

text \<open>What users do with a source.\<close>

fun user_event :: "sio_event \<Rightarrow> bool" where
  "user_event (DriverSet _ _ _) = False"
| "user_event DriverWake = False"
| "user_event Shutdown = False"
| "user_event ResetEntry = False"
| "user_event _ = True"

definition entry_of :: "drv_sys \<Rightarrow> nat \<times> nat \<Rightarrow> sio" where
  "entry_of x r = slab_value (drv_resources (drv x)) r"

definition set_slab :: "sio slab \<Rightarrow> drv_sys \<Rightarrow> drv_sys" where
  "set_slab s x = x\<lparr>drv := (drv x)\<lparr>drv_resources := s\<rparr>\<rparr>"

text \<open>The events of a poller carry the tokens of sources that are registered, or the two fixed ones.\<close>

definition poller_tokens :: "drv_sys \<Rightarrow> poll_answer \<Rightarrow> bool" where
  "poller_tokens x answer =
     list_all (\<lambda>e. fst e \<in> {WAKE_TOKEN, SIGNAL_TOKEN} \<or> fst e \<in> snd ` set (toks x))
       (case answer of Polled evs \<Rightarrow> evs | Interrupted evs \<Rightarrow> evs | Poll_Failed \<Rightarrow> [])"

fun drv_step :: "drv_event \<Rightarrow> drv_sys \<Rightarrow> drv_sys option" where
  "drv_step (DRegister ok) x =
     (case register_source (\<lambda>_. ok) (drv_resources (drv x)) of
        None \<Rightarrow> None
      | Some (Inl _, s) \<Rightarrow> Some (set_slab s x)
      | Some (Inr (r, tok), s) \<Rightarrow> Some (set_slab s x\<lparr>toks := (r, tok) # toks x\<rparr>))"
| "drv_step (DUse r e) x =
     (if r \<in> fst ` set (toks x) \<and> user_event e
      then map_option (\<lambda>io. set_slab (slab_put (ref_addr r) io (drv_resources (drv x))) x) (sio_step e (entry_of x r))
      else None)"
| "drv_step (DDrop r) x =
     (if r \<in> fst ` set (toks x) \<and> set (rstates (entry_of x r)) \<subseteq> {SDropped}
      then map_option (\<lambda>s. set_slab s x\<lparr>toks := filter (\<lambda>y. fst y \<noteq> r) (toks x)\<rparr>) (ref_drop r (drv_resources (drv x)))
      else None)"
| "drv_step (DPoll busy answer) x =
     (if batch x = None \<and> poller_tokens x answer
      then let (present, d) = drive_start busy (drv x) in
        Some (x\<lparr>drv := d, batch := (if present then case answer of Polled evs \<Rightarrow> Some evs | Interrupted evs \<Rightarrow> Some evs | Poll_Failed \<Rightarrow> None
                                    else None)\<rparr>)
      else None)"
| "drv_step DHandle x =
     (case batch x of
        Some (e # es) \<Rightarrow> map_option (\<lambda>d. x\<lparr>drv := d, batch := Some es\<rparr>) (handle_event e (drv x))
      | _ \<Rightarrow> None)"
| "drv_step DDone x =
     (if batch x = Some [] then Some (x\<lparr>drv := (drv x)\<lparr>drv_events := True\<rparr>, batch := None\<rparr>) else None)"

definition drv_start :: drv_sys where
  "drv_start = \<lparr>drv = drv_initialize, toks = [], batch = None\<rparr>"

inductive drv_reachable :: "drv_sys \<Rightarrow> bool" where
  drv_created: "drv_reachable drv_start"
| drv_stepped: "drv_reachable x \<Longrightarrow> drv_step e x = Some y \<Longrightarrow> drv_reachable y"

fun drv_run :: "drv_event list \<Rightarrow> drv_sys \<Rightarrow> drv_sys option" where
  "drv_run [] x = Some x"
| "drv_run (e # es) x = (case drv_step e x of None \<Rightarrow> None | Some y \<Rightarrow> drv_run es y)"

section \<open>Tokens\<close>

lemma segs24 [simp]: "seg_width 24 = 24" "seg_shift 24 0 = 0"
  by (simp_all add: seg_width_def seg_shift_def)

lemma bit_token: "bit (token_new g a) i \<longleftrightarrow> (if i < 24 then bit a i else i < 31 \<and> bit g (i - 24))"
  by (auto simp: token_new_def ADDRESS_def GENERATION_def bit_set)

lemma token_fields:
  "unat a < 2 ^ 24 \<Longrightarrow> token_address (token_new g a) = a" "status_generation (token_new g a) = take_bit 7 g"
  "token_new g a \<noteq> WAKE_TOKEN" "token_new g a \<noteq> SIGNAL_TOKEN"
proof -
  show "token_address (token_new g a) = a" if "unat a < 2 ^ 24"
  proof -
    have "take_bit 24 a = a" using that by (simp add: word_eq_iff_unsigned [where ?'a = nat] unsigned_take_bit_eq take_bit_nat_eq_self)
    then have "bit a i \<longleftrightarrow> i < 24 \<and> bit a i" for i by (metis bit_take_bit_iff)
    then show ?thesis unfolding token_address_def ADDRESS_def by (intro bit_word_eqI) (auto simp: bit_get bit_token)
  qed
  show "status_generation (token_new g a) = take_bit 7 g"
    unfolding status_generation_def by (rule bit_word_eqI) (auto simp: status_bits bit_token bit_take_bit_iff)
  have "\<not> bit (token_new g a) 31" by (simp add: bit_token)
  moreover have "bit WAKE_TOKEN 31" "bit SIGNAL_TOKEN 31" by (simp_all add: WAKE_TOKEN_def SIGNAL_TOKEN_def)
  ultimately show "token_new g a \<noteq> WAKE_TOKEN" "token_new g a \<noteq> SIGNAL_TOKEN" by auto
qed

lemma status_generation_take: "take_bit 7 (status_generation v) = status_generation v"
  unfolding status_generation_def by (rule bit_word_eqI) (auto simp: status_bits bit_take_bit_iff)

lemma entry_reset_generation: "status_generation (entry_reset v) = take_bit 7 (status_generation v + 1)"
proof -
  have "status_generation (as_usize (set_by_mask GENERATION g (from_usize 0))) = take_bit 7 g" for g
    unfolding status_generation_def by (rule bit_word_eqI) (auto simp: status_bits bit_take_bit_iff)
  then show ?thesis by (simp add: entry_reset_def)
qed

lemma ref_addr_bound: "r \<in> all_refs \<Longrightarrow> unat (ref_addr r) < 2 ^ 24"
proof -
  assume "r \<in> all_refs"
  then have "snd r + page_start (fst r) < 2 ^ 24 - 32" using page_bound(1) [of "fst r"] by (auto simp: all_refs_def)
  then show ?thesis by (simp add: ref_addr_def unat_of_nat del: of_nat_add)
qed

section \<open>Changing an entry\<close>

lemma slab_put_ref:
  assumes "length s = NUM_PAGES" "p < NUM_PAGES" "i < page_size p" "pg_prev_len (s ! p) = page_start p"
  shows "slab_put (ref_addr (p, i)) v s = s[p := (s ! p)\<lparr>pg_slots := (pg_slots (s ! p))[i := (pg_slots (s ! p) ! i)\<lparr>sl_value := v\<rparr>]\<rparr>]"
  using page_of_address [OF assms(2,3)] assms(4) by (simp add: slab_put_def Let_def ref_addr_def page_slot_def)

lemma page_ok_put:
  assumes "page_ok pg fl"
  shows "page_ok (pg\<lparr>pg_slots := (pg_slots pg)[i := (pg_slots pg ! i)\<lparr>sl_value := v\<rparr>]\<rparr>) fl"
    "in_use (pg\<lparr>pg_slots := (pg_slots pg)[i := (pg_slots pg ! i)\<lparr>sl_value := v\<rparr>]\<rparr>) fl = in_use pg fl"
  using assms by (auto simp: page_ok_def in_use_def free_path_update)

text \<open>An address of a slot that exists, referenced or not.\<close>

definition slot_exists :: "'a slab \<Rightarrow> nat \<times> nat \<Rightarrow> bool" where
  "slot_exists s r \<longleftrightarrow> fst r < NUM_PAGES \<and> snd r < length (pg_slots (s ! fst r))"

lemma slot_in_all:
  assumes "slab_ok s L" "slot_exists s r"
  shows "r \<in> all_refs" "slab_get (ref_addr r) s = Found (slab_value s r)"
proof -
  obtain p i where r: "r = (p, i)" by force
  with assms(2) have p: "p < NUM_PAGES" "i < length (pg_slots (s ! p))" by (simp_all add: slot_exists_def)
  then have l: "length (pg_slots (s ! p)) \<le> page_size p" "pg_allocated (s ! p)" "pg_prev_len (s ! p) = page_start p"
    using slab_okD(3) [OF assms(1), of p] by (auto simp: page_ok_def)
  then have i: "i < page_size p" using p(2) by simp
  then show "r \<in> all_refs" using p(1) by (simp add: r all_refs_def)
  from page_of_address [OF p(1) i] p l slab_okD(1) [OF assms(1)] show "slab_get (ref_addr r) s = Found (slab_value s r)"
    by (simp add: r slab_get_def ref_addr_def Let_def page_slot_def slab_value_def)
qed

lemma slab_put_ok:
  assumes ok: "slab_ok s L" and r: "slot_exists s r"
  shows "slab_ok (slab_put (ref_addr r) v s) L" "slab_value (slab_put (ref_addr r) v s) q = (if q = r then v else slab_value s q)"
    "slot_exists (slab_put (ref_addr r) v s) q = slot_exists s q"
proof -
  obtain p i where pi: "r = (p, i)" by force
  have p: "p < NUM_PAGES" "i < length (pg_slots (s ! p))" "i < page_size p"
    using r slot_in_all(1) [OF ok r] by (auto simp: pi slot_exists_def all_refs_def)
  obtain fl where fl: "page_ok (s ! p) fl" "in_use (s ! p) fl = {i. (p, i) \<in> L}" "pg_prev_len (s ! p) = page_start p"
    using slab_okD(3) [OF ok p(1)] by blast
  note e = slab_put_ref [OF slab_okD(1) [OF ok] p(1,3) fl(3), of v]
  note l = slab_okD(1) [OF ok]
  show "slab_ok (slab_put (ref_addr r) v s) L"
    unfolding pi e by (rule slab_ok_upd [OF ok p(1) page_ok_put(1) [OF fl(1)]]) (use fl(2) page_ok_put(2) [OF fl(1)] in auto)
  show "slab_value (slab_put (ref_addr r) v s) q = (if q = r then v else slab_value s q)"
    unfolding pi e using p l by (cases q) (auto simp: slab_value_def nth_list_update)
  show "slot_exists (slab_put (ref_addr r) v s) q = slot_exists s q"
    unfolding pi e using p l by (cases q) (auto simp: slot_exists_def nth_list_update)
qed

lemma live_slot: "slab_ok s L \<Longrightarrow> r \<in> L \<Longrightarrow> slot_exists s r"
  using ref_in_page [of s L "fst r" "snd r"] by (simp add: slot_exists_def)

text \<open>Slots only disappear by a clean-up.\<close>

lemma alloc_slots:
  assumes "slab_ok s L" "slab_allocate d rst s = (Some (a, r), s')"
  shows "slot_exists s q \<Longrightarrow> slot_exists s' q" "slot_exists s' r"
    "slot_exists s' q \<Longrightarrow> q \<noteq> r \<Longrightarrow> slot_exists s q \<and> slab_value s' q = slab_value s q"
    "slab_value s' r = (if slot_exists s r then rst (slab_value s r) else d)"
proof -
  obtain p i where r: "r = (p, i)" by force
  obtain pg' where p: "p < NUM_PAGES" "page_allocate d rst (s ! p) = (Some i, pg')" "s' = s[p := pg']"
    using alloc_pages_spec [where d = d and rst = rst and k = 0 and pgs = s] assms(2) slab_okD(1) [OF assms(1)]
    by (auto simp: slab_allocate_def r)
  have l: "j < length (pg_slots (s ! p)) \<Longrightarrow> j < length (pg_slots pg')" "i < length (pg_slots pg')"
    "j < length (pg_slots pg') \<Longrightarrow> j \<noteq> i \<Longrightarrow> j < length (pg_slots (s ! p)) \<and> sl_value (pg_slots pg' ! j) = sl_value (pg_slots (s ! p) ! j)" for j
    using p(2) by (auto simp: page_allocate_def Let_def nth_append split: if_splits)
  have n: "s' ! k = (if k = p then pg' else s ! k)" for k
    using p(1) slab_okD(1) [OF assms(1)] by (simp add: p(3))
  show "slot_exists s q \<Longrightarrow> slot_exists s' q" using l(1) [of "snd q"] by (auto simp: slot_exists_def n)
  show "slot_exists s' r" using l(2) p(1) by (simp add: slot_exists_def n r)
  show "slot_exists s' q \<Longrightarrow> q \<noteq> r \<Longrightarrow> slot_exists s q \<and> slab_value s' q = slab_value s q"
    using l(3) [of "snd q"] by (cases q) (auto simp: slot_exists_def slab_value_def n r split: if_splits)
  show "slab_value s' r = (if slot_exists s r then rst (slab_value s r) else d)"
    using slab_allocate_some [OF assms(1), of d rst a p i s'] assms(2) p(1) by (auto simp: r slot_exists_def)
qed

lemma ref_drop_slots:
  assumes "slab_ok s L" "ref_drop r s = Some s'"
  shows "slot_exists s' q = slot_exists s q"
proof -
  obtain pg' where "page_release (snd r) (s ! fst r) = Some pg'" "s' = s[fst r := pg']"
    using assms(2) by (auto simp: ref_drop_def)
  moreover from this have "length (pg_slots pg') = length (pg_slots (s ! fst r))" by (auto simp: page_release_def split: if_splits)
  ultimately show ?thesis using slab_okD(1) [OF assms(1)] by (cases "fst q = fst r") (auto simp: slot_exists_def)
qed

lemma compact_slots:
  assumes "slab_ok s L" "slot_exists (slab_compact busy s) q"
  shows "slot_exists s q \<and> slab_value (slab_compact busy s) q = slab_value s q"
proof -
  have q: "fst q < NUM_PAGES" using assms(2) by (simp add: slot_exists_def)
  from slab_compact_nth(1) [OF slab_okD(1) [OF assms(1)] q, of busy] assms(2) show ?thesis
    by (auto simp: slot_exists_def slab_value_def compact_page_def split: if_splits)
qed

section \<open>Invariant\<close>

definition live :: "drv_sys \<Rightarrow> (nat \<times> nat) set" where
  "live x = fst ` set (toks x)"

abbreviation slab_of :: "drv_sys \<Rightarrow> sio slab" where
  "slab_of x \<equiv> drv_resources (drv x)"

definition entry_ok :: "sio slab \<Rightarrow> (nat \<times> nat) set \<Rightarrow> nat \<times> nat \<Rightarrow> bool" where
  "entry_ok s L q \<longleftrightarrow> sio_reachable (slab_value s q) \<and> pending (slab_value s q) = None \<and>
     (q \<notin> L \<longrightarrow> set (rstates (slab_value s q)) \<subseteq> {SDropped})"

definition event_ok :: "sio slab \<Rightarrow> usize \<times> io_event \<Rightarrow> bool" where
  "event_ok s e \<longleftrightarrow> fst e \<in> {WAKE_TOKEN, SIGNAL_TOKEN} \<or> (\<exists>q. slot_exists s q \<and> token_address (fst e) = ref_addr q)"

definition drv_inv :: "drv_sys \<Rightarrow> bool" where
  "drv_inv x \<longleftrightarrow> slab_ok (slab_of x) (live x) \<and> (\<forall>y \<in> set (toks x). token_address (snd y) = ref_addr (fst y)) \<and>
     (\<forall>q. slot_exists (slab_of x) q \<longrightarrow> entry_ok (slab_of x) (live x) q) \<and>
     (\<forall>es. batch x = Some es \<longrightarrow> (\<forall>e \<in> set es. event_ok (slab_of x) e))"

lemma drv_invD:
  assumes "drv_inv x"
  shows "slab_ok (slab_of x) (live x)" "\<And>r tok. (r, tok) \<in> set (toks x) \<Longrightarrow> token_address tok = ref_addr r"
    "\<And>q. slot_exists (slab_of x) q \<Longrightarrow> entry_ok (slab_of x) (live x) q"
    "\<And>es e. batch x = Some es \<Longrightarrow> e \<in> set es \<Longrightarrow> event_ok (slab_of x) e"
  using assms by (auto simp: drv_inv_def)

lemma drv_start_inv: "drv_inv drv_start"
  using slab_new_ok by (auto simp: drv_inv_def drv_start_def drv_initialize_def live_def slot_exists_def slab_new_page page_default_def)

lemma wake0_frame [simp]: "status (wake0 r sd s) = status s" "rstates (wake0 r sd s) = rstates s" "pending (wake0 r sd s) = pending s"
  by (simp_all add: wake0_def Let_def split: option.splits prod.splits)

lemma driver_set_frame [simp]: "rstates (driver_set tok t r s) = rstates s"
  by (simp add: driver_set_def split: prod.splits sum.splits)

lemma dispatch_io_ok:
  assumes "sio_reachable io" "pending io = None"
  shows "sio_reachable (dispatch_io tok t r io)" "pending (dispatch_io tok t r io) = None" "rstates (dispatch_io tok t r io) = rstates io"
proof -
  have s: "sio_reachable (driver_set tok t r io)"
    by (rule sio_stepped [OF assms(1), of "DriverSet tok t r"]) (simp add: assms(2))
  show "sio_reachable (dispatch_io tok t r io)"
    using s sio_stepped [OF s, of DriverWake] by (simp add: dispatch_io_def Let_def split: option.splits)
  show "pending (dispatch_io tok t r io) = None" "rstates (dispatch_io tok t r io) = rstates io"
    by (simp_all add: dispatch_io_def Let_def sio_wake_def split: option.splits)
qed

lemma user_event_pending:
  assumes "user_event e" "sio_step e s = Some t"
  shows "pending t = pending s"
  using assms
  by (cases e) (auto simp: readiness_new_def poll_init_def poll_init_locked_def sio_set_waker_def set_rstate_def set_waiter_def
      readiness_drop_def poll_rw_def poll_readiness_def Let_def split: if_splits option.splits rstate.splits prod.splits)

text \<open>A new value for one entry.\<close>

lemma drv_inv_put:
  assumes inv: "drv_inv x" and r: "slot_exists (slab_of x) r"
    and v: "sio_reachable v" "pending v = None" "r \<notin> live x \<Longrightarrow> set (rstates v) \<subseteq> {SDropped}"
  shows "drv_inv (set_slab (slab_put (ref_addr r) v (slab_of x)) x)"
proof -
  note put = slab_put_ok [OF drv_invD(1) [OF inv] r]
  have "entry_ok (slab_put (ref_addr r) v (slab_of x)) (live x) q" if "slot_exists (slab_of x) q" for q
    using drv_invD(3) [OF inv that] v by (simp add: entry_ok_def put(2))
  then show ?thesis
    using drv_invD [OF inv] put(1,3) by (auto simp: drv_inv_def set_slab_def live_def event_ok_def)
qed

lemma handle_event_inv:
  assumes inv: "drv_inv x" and b: "batch x = Some (e # es)"
  shows "\<exists>d. handle_event e (drv x) = Some d \<and> drv_inv (x\<lparr>drv := d, batch := Some es\<rparr>)"
proof (cases "fst e \<in> {WAKE_TOKEN, SIGNAL_TOKEN}")
  case True
  then show ?thesis using inv b by (auto simp: handle_event_def drv_inv_def live_def)
next
  case False
  then obtain q where q: "slot_exists (slab_of x) q" "token_address (fst e) = ref_addr q"
    using drv_invD(4) [OF inv b, of e] by (auto simp: event_ok_def)
  let ?v = "dispatch_io (fst e) (drv_tick (drv x)) (from_event (snd e)) (slab_value (slab_of x) q)"
  let ?d = "(drv x)\<lparr>drv_resources := slab_put (ref_addr q) ?v (slab_of x)\<rparr>"
  have eo: "entry_ok (slab_of x) (live x) q" using drv_invD(3) [OF inv q(1)] .
  have "handle_event e (drv x) = Some ?d"
    using False q(2) slot_in_all(2) [OF drv_invD(1) [OF inv] q(1)] by (simp add: handle_event_def dispatch_def Let_def)
  moreover have "drv_inv (set_slab (slab_put (ref_addr q) ?v (slab_of x)) x)"
    using eo dispatch_io_ok by (intro drv_inv_put [OF inv q(1)]) (simp_all add: entry_ok_def)
  then have "drv_inv (x\<lparr>drv := ?d, batch := Some es\<rparr>)" using b by (auto simp: drv_inv_def set_slab_def live_def)
  ultimately show ?thesis by blast
qed

lemma register_inv:
  assumes inv: "drv_inv x"
  shows "\<exists>y. drv_step (DRegister ok) x = Some y \<and> drv_inv y"
proof -
  note so = drv_invD(1) [OF inv]
  obtain z s where al: "slab_allocate sio_default sio_reset (slab_of x) = (z, s)" by force
  show ?thesis
  proof (cases z)
    case None
    then have "s = slab_of x" using slab_allocate_none(1) [OF so] al by blast
    with None al inv show ?thesis
      by (auto simp: register_source_def allocate_schedule_io_pair_def set_slab_def)
  next
    case (Some w)
    obtain a r where w: "w = (a, r)" by (cases w)
    have al': "slab_allocate sio_default sio_reset (slab_of x) = (Some (a, r), s)" using al Some w by simp
    have n: "r \<notin> live x" "r \<in> all_refs" "a = ref_addr r" "slab_ok s (insert r (live x))"
      using slab_allocate_some [OF so, of sio_default sio_reset a "fst r" "snd r" s] al' by auto
    note sl = alloc_slots [OF so al']
    have er: "sio_reachable (slab_value s r) \<and> pending (slab_value s r) = None \<and> set (rstates (slab_value s r)) \<subseteq> {SDropped}"
    proof (cases "slot_exists (slab_of x) r")
      case True
      with drv_invD(3) [OF inv True] n(1) sio_stepped [of "slab_value (slab_of x) r" ResetEntry] show ?thesis
        by (simp add: sl(4) entry_ok_def sio_reset_def)
    next
      case False
      with sio_created show ?thesis by (simp add: sl(4) sio_default_def)
    qed
    have eo: "entry_ok s L q" if "slot_exists s q" "live x - {r} \<subseteq> L" for q L
      using er that drv_invD(3) [OF inv, of q] sl(3) [of q] by (cases "q = r") (auto simp: entry_ok_def)
    have eos: "entry_ok s (live x) q" "entry_ok s (insert r (live x)) q" if "slot_exists s q" for q
      using eo [OF that] by blast+
    have ev: "event_ok (slab_of x) e \<Longrightarrow> event_ok s e" for e
      using sl(1) by (auto simp: event_ok_def)
    let ?tok = "token_new (status_generation (status (slab_value s r))) a"
    have tok: "token_address ?tok = ref_addr r" using token_fields(1) ref_addr_bound [OF n(2)] n(3) by simp
    show ?thesis
    proof (cases ok)
      case True
      have "drv_step (DRegister ok) x = Some (set_slab s x\<lparr>toks := (r, ?tok) # toks x\<rparr>)"
        using True al' by (simp add: register_source_def allocate_schedule_io_pair_def)
      moreover have "drv_inv (set_slab s x\<lparr>toks := (r, ?tok) # toks x\<rparr>)"
        using drv_invD [OF inv] n(4) tok eos(2) ev by (auto simp: drv_inv_def set_slab_def live_def)
      ultimately show ?thesis by blast
    next
      case False
      obtain s' where s': "ref_drop r s = Some s'" "slab_ok s' (live x)" "\<And>q. slab_value s' q = slab_value s q"
        using ref_drop_ok [OF n(4), of r] n(1) by auto
      have "drv_step (DRegister ok) x = Some (set_slab s' x)"
        using False al' s'(1) by (simp add: register_source_def allocate_schedule_io_pair_def)
      moreover have "drv_inv (set_slab s' x)"
        using drv_invD [OF inv] s' eos(1) ev ref_drop_slots [OF n(4) s'(1)] n(1)
        by (auto simp: drv_inv_def set_slab_def live_def entry_ok_def event_ok_def)
      ultimately show ?thesis by blast
    qed
  qed
qed

lemma drop_inv:
  assumes inv: "drv_inv x" and st: "drv_step (DDrop r) x = Some y"
  shows "drv_inv y"
proof -
  have r: "r \<in> live x" "set (rstates (entry_of x r)) \<subseteq> {SDropped}" using st by (auto simp: live_def split: if_splits)
  obtain s where s: "ref_drop r (slab_of x) = Some s" "slab_ok s (live x - {r})" "\<And>q. slab_value s q = slab_value (slab_of x) q"
    using ref_drop_ok [OF drv_invD(1) [OF inv] r(1)] by blast
  have y: "y = set_slab s x\<lparr>toks := filter (\<lambda>y. fst y \<noteq> r) (toks x)\<rparr>" using st s(1) by (auto split: if_splits)
  have l: "live y = live x - {r}" by (auto simp: y live_def)
  have "entry_ok s (live x - {r}) q" if "slot_exists (slab_of x) q" for q
    using drv_invD(3) [OF inv that] r(2) s(3) by (auto simp: entry_ok_def entry_of_def)
  then show ?thesis
    using drv_invD [OF inv] s ref_drop_slots [OF drv_invD(1) [OF inv] s(1)] unfolding drv_inv_def l
    by (auto simp: y set_slab_def event_ok_def)
qed

lemma use_inv:
  assumes inv: "drv_inv x" and st: "drv_step (DUse r e) x = Some y"
  shows "drv_inv y"
proof -
  obtain v where v: "sio_step e (entry_of x r) = Some v" "user_event e" "r \<in> live x" "y = set_slab (slab_put (ref_addr r) v (slab_of x)) x"
    using st by (auto simp: live_def split: if_splits)
  have r: "slot_exists (slab_of x) r" using live_slot [OF drv_invD(1) [OF inv] v(3)] .
  have eo: "entry_ok (slab_of x) (live x) r" using drv_invD(3) [OF inv r] .
  show ?thesis unfolding v(4)
    by (rule drv_inv_put [OF inv r])
      (use eo v(3) sio_stepped [OF _ v(1)] user_event_pending [OF v(2,1)] in \<open>simp_all add: entry_ok_def entry_of_def\<close>)
qed

lemma poll_inv:
  assumes inv: "drv_inv x" and st: "drv_step (DPoll busy answer) x = Some y"
  shows "drv_inv y"
proof -
  define s where "s = (if drv_tick (drv x) + 1 = COMPACT_INTERVAL then slab_compact busy (slab_of x) else slab_of x)"
  have y: "slab_of y = s" "toks y = toks x" "poller_tokens x answer"
    "batch y = None \<or> (case answer of Polled evs \<Rightarrow> batch y = Some evs | Interrupted evs \<Rightarrow> batch y = Some evs | Poll_Failed \<Rightarrow> False)"
    using st by (auto simp: drive_start_def Let_def s_def split: if_splits poll_answer.splits)
  have l: "live y = live x" by (simp add: live_def y(2))
  have so: "slab_ok s (live x)" using drv_invD(1) [OF inv] slab_compact_ok(1) [OF drv_invD(1) [OF inv]] by (simp add: s_def)
  have "entry_ok s (live x) q" if "slot_exists s q" for q
    using drv_invD(3) [OF inv, of q] compact_slots [OF drv_invD(1) [OF inv], of busy q] that
    by (auto simp: s_def entry_ok_def split: if_splits)
  moreover have "event_ok s e" if "batch y = Some es" "e \<in> set es" for es e
  proof -
    have "fst e \<in> {WAKE_TOKEN, SIGNAL_TOKEN} \<or> fst e \<in> snd ` set (toks x)"
      using that y(3,4) by (auto simp: poller_tokens_def list_all_iff split: poll_answer.splits)
    then show ?thesis
    proof
      assume "fst e \<in> snd ` set (toks x)"
      then obtain r where r: "(r, fst e) \<in> set (toks x)" by auto
      then have "r \<in> live x" by (force simp: live_def)
      with drv_invD(2) [OF inv r] live_slot [OF so] show ?thesis unfolding event_ok_def by blast
    qed (simp add: event_ok_def)
  qed
  ultimately show ?thesis using drv_invD(2) [OF inv] so unfolding drv_inv_def l y(1,2) by auto
qed

lemma drv_step_inv:
  assumes "drv_inv x" "drv_step e x = Some y"
  shows "drv_inv y"
proof (cases e)
  case DHandle
  with assms(2) obtain ev es d where h: "batch x = Some (ev # es)" "handle_event ev (drv x) = Some d" "y = x\<lparr>drv := d, batch := Some es\<rparr>"
    by (auto split: option.splits list.splits)
  with handle_event_inv [OF assms(1) h(1)] show ?thesis by auto
next
  case DDone
  with assms show ?thesis by (auto simp: drv_inv_def live_def split: if_splits)
next
  case (DRegister ok)
  with register_inv [OF assms(1), of ok] assms(2) show ?thesis by auto
qed (use assms use_inv drop_inv poll_inv in blast)+

lemma drv_reachable_inv: "drv_reachable x \<Longrightarrow> drv_inv x"
  by (induction rule: drv_reachable.induct) (use drv_start_inv drv_step_inv in blast)+

section \<open>Properties\<close>


definition drv_events_example :: "drv_event list" where
  "drv_events_example =
     [DRegister True, DRegister True, DUse (0, 0) (NewReadiness INTEREST_READABLE), DUse (0, 0) (PollReadiness 0 5), DUse (0, 0) (PollLocked 0),
      DPoll (\<lambda>_. False) (Polled [(0, \<lparr>ev_readable = True, ev_writable = False, ev_read_closed = False, ev_write_closed = False\<rparr>)])]"

definition drv_example :: drv_sys where
  "drv_example = the (drv_run drv_events_example drv_start)"

lemma drv_run_reachable: "drv_run es x = Some y \<Longrightarrow> drv_reachable x \<Longrightarrow> drv_reachable y"
  by (induction es arbitrary: x) (auto intro: drv_stepped split: option.splits)

lemma drv_example_eval:
  "drv_run drv_events_example drv_start = Some drv_example" "map fst (toks drv_example) = [(0, 1), (0, 0)]"
  "map_option (map fst) (batch drv_example) = Some [0]" "rstates (entry_of drv_example (0, 0)) = [SWaiting]"
proof -
  have "map_option (\<lambda>x. (map fst (toks x), map_option (map fst) (batch x), rstates (entry_of x (0, 0)))) (drv_run drv_events_example drv_start) =
    Some ([(0, 1), (0, 0)], Some [0], [SWaiting])" by code_simp
  note e = map_option_the [OF this]
  from e show "drv_run drv_events_example drv_start = Some drv_example" "map fst (toks drv_example) = [(0, 1), (0, 0)]"
    "map_option (map fst) (batch drv_example) = Some [0]" "rstates (entry_of drv_example (0, 0)) = [SWaiting]"
    by (simp_all add: drv_example_def)
qed

lemma drv_example_reachable: "drv_reachable drv_example"
  using drv_run_reachable [OF drv_example_eval(1) drv_created] .


text \<open>
  C26: a token leads back to the source it was made for. The token of a new source is none of the
  two fixed ones; dispatching it adds the readiness to that source with the tick of
  the driver, and no other source changes. A token made for the previous use of the
  same slot is refused: it changes nothing.
\<close>

theorem token_dispatch:
  assumes "drv_reachable x" "register_source (\<lambda>_. True) (drv_resources (drv x)) = Some (Inr (r, tok), s)"
  shows "tok \<noteq> WAKE_TOKEN \<and> tok \<noteq> SIGNAL_TOKEN \<and>
    (\<exists>d. dispatch tok rdy ((drv x)\<lparr>drv_resources := s\<rparr>) = Some d \<and>
      status_ready (status (slab_value (drv_resources d) r)) = take_bit 4 (status_ready (status (slab_value s r)) OR rdy) \<and>
      status_tick (status (slab_value (drv_resources d) r)) = drv_tick (drv x) \<and>
      (\<forall>q \<in> fst ` set (toks x). q \<noteq> r \<and> slab_value (drv_resources d) q = entry_of x q)) \<and>
    (\<forall>old t. slot_exists (drv_resources (drv x)) r \<and> status_generation old = status_generation (status (entry_of x r)) \<longrightarrow>
      dispatch_io old t rdy (slab_value s r) = slab_value s r)"
proof -
  note inv = drv_reachable_inv [OF assms(1)]
  note so = drv_invD(1) [OF inv]
  obtain a where al: "slab_allocate sio_default sio_reset (slab_of x) = (Some (a, r), s)"
    and tok: "tok = token_new (status_generation (status (slab_value s r))) a"
    using assms(2) by (auto simp: register_source_def allocate_schedule_io_pair_def split: prod.splits option.splits sum.splits)
  have n: "r \<notin> live x" "r \<in> all_refs" "a = ref_addr r" "slab_ok s (insert r (live x))" "\<And>q. q \<in> live x \<Longrightarrow> slab_value s q = slab_value (slab_of x) q"
    using slab_allocate_some [OF so, of sio_default sio_reset a "fst r" "snd r" s] al by auto
  note sl = alloc_slots [OF so al]
  have ta: "token_address tok = ref_addr r" using token_fields(1) ref_addr_bound [OF n(2)] n(3) tok by simp
  have tg: "status_generation tok = status_generation (status (slab_value s r))"
    unfolding tok by (simp only: token_fields(2) status_generation_take)
  let ?io = "slab_value s r" and ?d = "(drv x)\<lparr>drv_resources := slab_put (ref_addr r) (dispatch_io tok (drv_tick (drv x)) rdy (slab_value s r)) s\<rparr>"
  have put: "slab_value (slab_put (ref_addr r) v s) q = (if q = r then v else slab_value s q)" for v q
    using slab_put_ok(2) [OF n(4) sl(2)] .
  have "dispatch tok rdy ((drv x)\<lparr>drv_resources := s\<rparr>) = Some ?d"
    using slot_in_all(2) [OF n(4) sl(2)] by (simp add: dispatch_def Let_def ta)
  moreover have "status (dispatch_io tok t rdy ?io) = new_status (status ?io) t (status_ready (status ?io) OR rdy)" for t
    using tg by (simp add: dispatch_io_def driver_set_def set_readiness_result [folded status_generation_def] sio_wake_def Let_def)
  then have "status_ready (status (dispatch_io tok t rdy ?io)) = take_bit 4 (status_ready (status ?io) OR rdy)"
    "status_tick (status (dispatch_io tok t rdy ?io)) = t" for t
    by (simp_all only: new_status_fields)
  moreover have "dispatch_io old t rdy ?io = ?io" if "slot_exists (slab_of x) r" "status_generation old = status_generation (status (entry_of x r))" for old t
  proof -
    let ?g = "status_generation (status (entry_of x r))"
    have "pending ?io = None" using that(1) drv_invD(3) [OF inv that(1)] by (simp add: sl(4) entry_ok_def sio_reset_def)
    moreover have "status_generation (status ?io) = take_bit 7 (?g + 1)"
      using that(1) by (simp add: sl(4) sio_reset_def entry_reset_generation entry_of_def)
    moreover have "bit (take_bit 7 (?g + 1)) 0 \<noteq> bit ?g 0" by (simp add: bit_0)
    then have "take_bit 7 (?g + 1) \<noteq> ?g" by metis
    ultimately show ?thesis
      using that(2) by (simp add: dispatch_io_def driver_set_def set_readiness_result [folded status_generation_def])
  qed
  ultimately show ?thesis
    using n(1,5) token_fields(3,4) [of "status_generation (status ?io)" a] unfolding tok [symmetric]
    by (auto simp: put entry_of_def live_def)
qed

theorem token_dispatch_witness:
  "\<exists>r tok s d. register_source (\<lambda>_. True) (drv_resources (drv drv_example)) = Some (Inr (r, tok), s) \<and>
     dispatch tok R_WRITABLE ((drv drv_example)\<lparr>drv_resources := s\<rparr>) = Some d \<and> status_tick (status (slab_value (drv_resources d) r)) = 1"
proof -
  have "map_option (\<lambda>x. (case register_source (\<lambda>_. True) (drv_resources (drv x)) of Some (Inr (r, tok), s) \<Rightarrow> True | _ \<Rightarrow> False, drv_tick (drv x)))
      (drv_run drv_events_example drv_start) = Some (True, 1)" by code_simp
  then have "(case register_source (\<lambda>_. True) (drv_resources (drv drv_example)) of Some (Inr (r, tok), s) \<Rightarrow> True | _ \<Rightarrow> False) \<and>
      drv_tick (drv drv_example) = 1" using drv_example_eval(1) by simp
  moreover then obtain r tok s where r: "register_source (\<lambda>_. True) (drv_resources (drv drv_example)) = Some (Inr (r, tok), s)"
    by (auto split: option.splits prod.splits sum.splits)
  ultimately show ?thesis using token_dispatch [OF drv_example_reachable r, of R_WRITABLE] by auto
qed

text \<open>
  C27: a failed poll is final. After it no call of \<open>drive\<close> polls or dispatches again: each one
  reports that the event store is missing, whatever the poller would have answered.
\<close>

theorem drive_failure_is_final:
  assumes "drv_events d"
  shows "\<exists>d1. drive busy Poll_Failed d = Some (Inl Poll_Error, d1) \<and> \<not> drv_events d1 \<and>
    (\<forall>d2 busy' answer. \<not> drv_events d2 \<longrightarrow>
      (\<exists>d3. drive busy' answer d2 = Some (Inl Event_Store_Missing, d3) \<and> \<not> drv_events d3 \<and> drv_signal_pending d3 = drv_signal_pending d2))"
  using assms by (auto simp: drive_def drive_start_def Let_def)

theorem drive_failure_is_final_witness:
  "\<exists>d1. drive (\<lambda>_. False) Poll_Failed drv_initialize = Some (Inl Poll_Error, d1) \<and> \<not> drv_events d1"
  using drive_failure_is_final [of drv_initialize "\<lambda>_. False"] by (auto simp: drv_initialize_def)

end
