(* ===== verification/Timer_Wheel.thy ===== *)
theory Timer_Wheel
  imports Prelude
begin

text \<open>
  The hierarchical timing wheel, \<open>ylong_runtime/src/time/wheel.rs\<close>. A clock is known by its
  address; the fields of all clocks are the memory \<open>w_clocks\<close>. The linked lists of the slots are
  sequences, the front first, as \<open>Linked_List\<close> shows the pointer operations to be; the node of a clock
  is in at most one list, so unlinking it removes it wherever it is. Times are milliseconds; they
  stay below \<open>2\<^sup>6\<^sup>4\<close>, so that \<open>u64\<close> is a natural number.
\<close>

definition SLOTS_NUM :: nat where "SLOTS_NUM = 64"
definition LEVELS_NUM :: nat where "LEVELS_NUM = 6"
definition MAX_DURATION :: nat where "MAX_DURATION = push_bit (6 * LEVELS_NUM) 1 - 1"

section \<open>Clocks and levels\<close>

record clock =
  c_expiration :: nat
  c_level :: nat
  c_duration :: nat
  c_result :: bool
  c_waker :: "nat option"

definition clock_new :: clock where
  "clock_new = \<lparr>c_expiration = 0, c_level = 0, c_duration = 0, c_result = False, c_waker = None\<rparr>"

record lvl =
  lv_level :: nat
  lv_occupied :: u64
  lv_slots :: "nat list list"

definition level_new :: "nat \<Rightarrow> lvl" where
  "level_new l = \<lparr>lv_level = l, lv_occupied = 0, lv_slots = replicate SLOTS_NUM []\<rparr>"

definition slot_range :: "nat \<Rightarrow> nat" where
  "slot_range l = SLOTS_NUM ^ l"

text \<open>The slot of a time, as \<open>insert\<close> and \<open>cancel\<close> compute it.\<close>

definition slot_of :: "nat \<Rightarrow> nat \<Rightarrow> nat" where
  "slot_of l duration = drop_bit (l * LEVELS_NUM) duration mod SLOTS_NUM"

definition level_insert :: "nat \<Rightarrow> lvl \<Rightarrow> (nat \<Rightarrow> clock) \<Rightarrow> lvl \<times> (nat \<Rightarrow> clock)" where
  "level_insert c l m =
     (let duration = c_expiration (m c); m' = m(c := (m c)\<lparr>c_duration := duration\<rparr>); s = slot_of (lv_level l) duration in
      (l\<lparr>lv_slots := (lv_slots l)[s := c # lv_slots l ! s], lv_occupied := lv_occupied l OR push_bit s 1\<rparr>, m'))"

definition trailing_zeros :: "u64 \<Rightarrow> nat" where
  "trailing_zeros w = length (takeWhile (\<lambda>i. \<not> bit w i) [0..<64])"

definition next_occupied_slot :: "nat \<Rightarrow> lvl \<Rightarrow> nat option" where
  "next_occupied_slot now l =
     (if lv_occupied l = 0 then None
      else let now_slot = now div slot_range (lv_level l);
               zeros = trailing_zeros (word_rotr now_slot (lv_occupied l))
           in Some ((zeros + now_slot) mod SLOTS_NUM))"

text \<open>\<open>level_start\<close> clears the bits of \<open>now\<close> below the range of the level, a power of two.\<close>

definition calculate_deadline :: "nat \<Rightarrow> nat \<Rightarrow> nat \<Rightarrow> nat" where
  "calculate_deadline s l now =
     (let level_range = slot_range l * SLOTS_NUM;
          level_start = now div level_range * level_range;
          deadline = level_start + s * slot_range l
      in if deadline \<le> now then deadline + level_range else deadline)"

record expiration =
  ex_level :: nat
  ex_slot :: nat
  ex_deadline :: nat

definition level_next_expiration :: "nat \<Rightarrow> lvl \<Rightarrow> expiration option" where
  "level_next_expiration now l =
     (case next_occupied_slot now l of
        None \<Rightarrow> None
      | Some s \<Rightarrow> Some \<lparr>ex_level = lv_level l, ex_slot = s, ex_deadline = calculate_deadline s (lv_level l) now\<rparr>)"

definition take_slot :: "nat \<Rightarrow> lvl \<Rightarrow> nat list \<times> lvl" where
  "take_slot s l = (lv_slots l ! s, l\<lparr>lv_occupied := lv_occupied l AND NOT (push_bit s 1), lv_slots := (lv_slots l)[s := []]\<rparr>)"

section \<open>The wheel\<close>

record wheel =
  w_elapsed :: nat
  w_levels :: "lvl list"
  w_trigger :: "nat list"
  w_clocks :: "nat \<Rightarrow> clock"

definition wheel_new :: wheel where
  "wheel_new = \<lparr>w_elapsed = 0, w_levels = map level_new [0..<LEVELS_NUM], w_trigger = [], w_clocks = (\<lambda>_. clock_new)\<rparr>"

definition find_level :: "nat \<Rightarrow> nat \<Rightarrow> nat" where
  "find_level expiration elapsed =
     (let masked = (expiration XOR elapsed) OR 63;
          masked = (if masked \<ge> MAX_DURATION then MAX_DURATION - 1 else masked);
          leading_zeros = 64 - digits masked;
          significant = 63 - leading_zeros
      in significant div 6)"

text \<open>The clock is told its level and put there.\<close>

definition insert_at :: "nat \<Rightarrow> nat \<Rightarrow> wheel \<Rightarrow> wheel" where
  "insert_at l c w =
     (let m = (w_clocks w)(c := (w_clocks w c)\<lparr>c_level := l\<rparr>); (lv, m') = level_insert c (w_levels w ! l) m in
      w\<lparr>w_levels := (w_levels w)[l := lv], w_clocks := m'\<rparr>)"

datatype wheel_error = Wheel_Error

definition wheel_insert :: "nat \<Rightarrow> wheel \<Rightarrow> (wheel_error + nat) \<times> wheel" where
  "wheel_insert c w =
     (let e = c_expiration (w_clocks w c) in
      if e \<le> w_elapsed w then (Inl Wheel_Error, w) else (Inr e, insert_at (find_level e (w_elapsed w)) c w))"

text \<open>\<open>LinkedList::remove\<close> of the node of a clock.\<close>

definition unlink :: "nat \<Rightarrow> wheel \<Rightarrow> wheel" where
  "unlink c w = w\<lparr>w_levels := map (\<lambda>l. l\<lparr>lv_slots := map (remove1 c) (lv_slots l)\<rparr>) (w_levels w), w_trigger := remove1 c (w_trigger w)\<rparr>"

definition wheel_cancel :: "nat \<Rightarrow> wheel \<Rightarrow> wheel" where
  "wheel_cancel c w =
     (let l = c_level (w_clocks w c); w1 = unlink c w; lv = w_levels w1 ! l; s = slot_of (lv_level lv) (c_duration (w_clocks w c)) in
      if lv_slots lv ! s = [] then w1\<lparr>w_levels := (w_levels w1)[l := lv\<lparr>lv_occupied := lv_occupied lv AND NOT (push_bit s 1)\<rparr>]\<rparr> else w1)"

fun first_expiration :: "nat \<Rightarrow> lvl list \<Rightarrow> expiration option" where
  "first_expiration now [] = None"
| "first_expiration now (l # ls) =
     (case level_next_expiration now l of Some e \<Rightarrow> Some e | None \<Rightarrow> first_expiration now ls)"

definition next_expiration :: "wheel \<Rightarrow> expiration option" where
  "next_expiration w = first_expiration (w_elapsed w) (w_levels w)"

text \<open>The loop of \<open>process_expiration\<close>; the last of the list is popped first.\<close>

definition process_item :: "nat \<Rightarrow> nat \<Rightarrow> wheel \<Rightarrow> wheel" where
  "process_item deadline c w =
     (let e = c_expiration (w_clocks w c) in
      if e > deadline then insert_at (find_level e deadline) c w else w\<lparr>w_trigger := c # w_trigger w\<rparr>)"

definition process_expiration :: "expiration \<Rightarrow> wheel \<Rightarrow> wheel" where
  "process_expiration ex w =
     (let (handles, lv) = take_slot (ex_slot ex) (w_levels w ! ex_level ex) in
      fold (process_item (ex_deadline ex)) (rev handles) (w\<lparr>w_levels := (w_levels w)[ex_level ex := lv]\<rparr>))"

datatype time_out = ClockEntry nat | Duration nat | NoTimeOut

definition pop_trigger :: "wheel \<Rightarrow> nat option \<times> wheel" where
  "pop_trigger w = (if w_trigger w = [] then (None, w) else (Some (last (w_trigger w)), w\<lparr>w_trigger := butlast (w_trigger w)\<rparr>))"

lemma deadline_later: "calculate_deadline s l now > now"
proof -
  let ?r = "slot_range l * SLOTS_NUM"
  have "0 < ?r" by (simp add: slot_range_def SLOTS_NUM_def)
  then have "now < now div ?r * ?r + ?r" using mod_less_divisor [of ?r now] div_mult_mod_eq [of now ?r] by linarith
  then show ?thesis by (simp add: calculate_deadline_def Let_def)
qed

lemma first_expiration_later: "first_expiration now ls = Some ex \<Longrightarrow> ex_deadline ex > now"
  by (induction ls) (auto simp: level_next_expiration_def deadline_later split: option.splits)

text \<open>\<open>poll\<close>. Every round moves \<open>elapsed\<close> forward, at most to \<open>now\<close>.\<close>

function wheel_poll :: "nat \<Rightarrow> wheel \<Rightarrow> time_out \<times> wheel" where
  "wheel_poll now w =
     (case pop_trigger w of
        (Some c, w') \<Rightarrow> (ClockEntry c, w')
      | (None, _) \<Rightarrow>
          (case next_expiration w of
             Some ex \<Rightarrow>
               if ex_deadline ex > now then (Duration (ex_deadline ex - now), w)
               else wheel_poll now ((process_expiration ex w)\<lparr>w_elapsed := ex_deadline ex\<rparr>)
           | None \<Rightarrow>
               (case pop_trigger (w\<lparr>w_elapsed := now\<rparr>) of
                  (None, w') \<Rightarrow> (NoTimeOut, w')
                | (Some c, w') \<Rightarrow> (ClockEntry c, w'))))"
  by pat_completeness auto
termination
  by (relation "measure (\<lambda>(now, w). now - w_elapsed w)") (auto simp: next_expiration_def dest!: first_expiration_later)

declare wheel_poll.simps [simp del]

section \<open>Levels\<close>

lemma xor_below: "((a::nat) XOR b) < 2 ^ k \<longleftrightarrow> a div 2 ^ k = b div 2 ^ k"
proof -
  have "(a XOR b) < 2 ^ k \<longleftrightarrow> drop_bit k (a XOR b) = 0" by (simp add: drop_bit_eq_div div_eq_0_iff)
  also have "\<dots> \<longleftrightarrow> drop_bit k a XOR drop_bit k b = 0" by simp
  also have "\<dots> \<longleftrightarrow> drop_bit k a = drop_bit k b" by (auto simp: bit_eq_iff bit_xor_iff)
  finally show ?thesis by (simp add: drop_bit_eq_div)
qed

lemma or_low_below: "6 \<le> k \<Longrightarrow> ((a::nat) OR 63) < 2 ^ k \<longleftrightarrow> a < 2 ^ k"
proof -
  assume k: "6 \<le> k"
  then have "(64::nat) \<le> 2 ^ k" using power_increasing [of 6 k "2::nat"] by simp
  then have z: "drop_bit k (63::nat) = 0" by (simp add: drop_bit_eq_div div_eq_0_iff)
  have "(a OR 63) < 2 ^ k \<longleftrightarrow> drop_bit k (a OR 63) = 0" by (simp add: drop_bit_eq_div div_eq_0_iff)
  also have "\<dots> \<longleftrightarrow> drop_bit k a = 0" by (simp only: drop_bit_or z or.right_neutral)
  finally show ?thesis by (simp add: drop_bit_eq_div div_eq_0_iff)
qed

lemma digits_bounds: "0 < n \<Longrightarrow> \<exists>k. digits n = Suc k \<and> 2 ^ k \<le> n \<and> n < 2 ^ Suc k"
proof (induction n rule: digits.induct)
  case (1 n)
  show ?case
  proof (cases "n div 2 = 0")
    case True
    with 1 have "n = 1" by (cases n) (auto simp: div_eq_0_iff)
    then show ?thesis by (auto simp: digits.simps)
  next
    case False
    with 1 obtain k where "digits (n div 2) = Suc k" "2 ^ k \<le> n div 2" "n div 2 < 2 ^ Suc k" by auto
    with 1(2) show ?thesis by (subst digits.simps) auto
  qed
qed

definition horizon :: nat where "horizon = 2 ^ 36"

lemma MAX_DURATION_horizon: "MAX_DURATION = horizon - 1"
  by (simp add: MAX_DURATION_def horizon_def LEVELS_NUM_def)

lemma pow64: "(64::nat) ^ k = 2 ^ (6 * k)"
  by (simp add: power_mult)

lemma find_level_spec:
  assumes "e < horizon" "t < horizon"
  shows "find_level e t < LEVELS_NUM" "e div 64 ^ Suc (find_level e t) = t div 64 ^ Suc (find_level e t)"
    "find_level e t \<noteq> 0 \<Longrightarrow> e div 64 ^ find_level e t \<noteq> t div 64 ^ find_level e t"
proof -
  let ?m = "(e XOR t) OR 63"
  have "(e XOR t) < 2 ^ 36" unfolding xor_below using assms by (simp add: horizon_def)
  then have m: "?m < 2 ^ 36" by (subst or_low_below) simp_all
  have m63: "?m \<noteq> 0" by (simp add: or_eq_0_iff)
  obtain k where k: "digits ?m = Suc k" "2 ^ k \<le> ?m" "?m < 2 ^ Suc k" using digits_bounds m63 by blast
  have "(2::nat) ^ k < 2 ^ 36" using k(2) m by (rule le_less_trans)
  then have k36: "k < 36" by (rule power_less_imp_less_exp [rotated]) simp
  have "find_level e t = k div 6"
  proof (cases "?m \<ge> MAX_DURATION")
    case True
    then have e: "?m = horizon - 1" using m by (simp add: MAX_DURATION_horizon horizon_def)
    have "digits (horizon - 1) = Suc 35" by (rule digits_range) (simp_all add: horizon_def)
    then have "k = 35" using k(1) e by simp
    moreover have "digits (horizon - 1 - 1) = Suc 35" by (rule digits_range) (simp_all add: horizon_def)
    ultimately show ?thesis using True by (simp add: find_level_def Let_def MAX_DURATION_horizon)
  next
    case False
    then show ?thesis using k(1) k36 by (simp add: find_level_def Let_def)
  qed
  note fl = this
  show "find_level e t < LEVELS_NUM" using k36 by (simp add: fl LEVELS_NUM_def)
  have "?m < 2 ^ (6 * Suc (k div 6))" by (rule less_le_trans [OF k(3)]) (rule power_increasing; simp)
  then show "e div 64 ^ Suc (find_level e t) = t div 64 ^ Suc (find_level e t)"
    unfolding fl pow64 by (simp only: xor_below [symmetric]) (subst (asm) or_low_below; simp)
  show "e div 64 ^ find_level e t \<noteq> t div 64 ^ find_level e t" if "find_level e t \<noteq> 0"
  proof -
    have l: "6 \<le> 6 * (k div 6)" using that fl by simp
    have "(2::nat) ^ (6 * (k div 6)) \<le> 2 ^ k" by (rule power_increasing) simp_all
    then have "\<not> ?m < 2 ^ (6 * (k div 6))" using k(2) by linarith
    then have "\<not> (e XOR t) < 2 ^ (6 * (k div 6))" using or_low_below [OF l] by blast
    then show ?thesis unfolding fl pow64 xor_below .
  qed
qed

section \<open>Slots\<close>

lemma slot_of_mod: "slot_of l e = e div 64 ^ l mod 64"
  by (simp add: slot_of_def LEVELS_NUM_def SLOTS_NUM_def drop_bit_eq_div pow64 mult.commute)

lemma trailing_zeros_least:
  assumes "bit w i" "i < 64"
  shows "trailing_zeros w \<le> i" "bit w (trailing_zeros w)"
proof -
  let ?P = "\<lambda>i. \<not> bit w i"
  show le: "trailing_zeros w \<le> i"
  proof (rule ccontr)
    assume "\<not> trailing_zeros w \<le> i"
    then have "i < length (takeWhile ?P [0..<64])" by (simp add: trailing_zeros_def)
    note nth_mem [OF this] takeWhile_nth [OF this]
    then have "\<not> bit w ([0..<64] ! i)" by (metis set_takeWhileD)
    with assms show False by simp
  qed
  then have "length (takeWhile ?P [0..<64]) < length [0..<64::nat]" using assms(2) by (simp add: trailing_zeros_def)
  from nth_length_takeWhile [OF this] le assms(2) show "bit w (trailing_zeros w)" by (simp add: trailing_zeros_def)
qed

lemma next_slot_spec:
  assumes later: "\<And>s. s < 64 \<Longrightarrow> bit (lv_occupied l) s \<Longrightarrow> now div slot_range (lv_level l) mod 64 < s"
    and some: "next_occupied_slot now l = Some s"
  shows "s < 64" "bit (lv_occupied l) s" "\<And>s'. s' < 64 \<Longrightarrow> bit (lv_occupied l) s' \<Longrightarrow> s \<le> s'"
proof -
  let ?w = "lv_occupied l" and ?n = "now div slot_range (lv_level l)"
  define z where "z = trailing_zeros (word_rotr ?n ?w)"
  have nz: "?w \<noteq> 0" and s: "s = (z + ?n) mod 64"
    using some by (auto simp: next_occupied_slot_def Let_def z_def SLOTS_NUM_def split: if_splits)
  have rot: "bit (word_rotr ?n ?w) i = bit ?w ((i + ?n) mod 64)" if "i < 64" for i
    using that by (simp add: bit_word_rotr_iff)
  have idx: "((s' - ?n mod 64) + ?n) mod 64 = s'" "s' - ?n mod 64 < 64" if "s' < 64" "?n mod 64 < s'" for s'
  proof -
    have "((s' - ?n mod 64) + ?n) mod 64 = ((s' - ?n mod 64) + ?n mod 64) mod 64" by (simp add: mod_add_right_eq)
    then show "((s' - ?n mod 64) + ?n) mod 64 = s'" using that by simp
  qed (use that in simp)
  have hit: "bit (word_rotr ?n ?w) (s' - ?n mod 64)" if "s' < 64" "bit ?w s'" for s'
    using rot idx [OF that(1) later [OF that]] that by simp
  have "\<exists>i<64. bit ?w i"
  proof (rule ccontr)
    assume "\<not> (\<exists>i<64. bit ?w i)"
    then have "?w = 0" by (intro bit_word_eqI) simp
    with nz show False by contradiction
  qed
  then obtain s0 where s0: "s0 < 64" "bit ?w s0" by blast
  note tz = trailing_zeros_least [OF hit [OF s0] idx(2) [OF s0(1) later [OF s0]]]
  have z64: "z < 64" using tz(1) s0(1) by (simp add: z_def)
  show b: "bit ?w s" using tz(2) rot [OF z64] by (simp add: s z_def)
  show l: "s < 64" by (simp add: s)
  have "?n mod 64 < s" by (rule later [OF l b])
  moreover have sm: "s = (z + ?n mod 64) mod 64" by (simp only: s mod_add_right_eq)
  moreover have "?n mod 64 < 64" by simp
  ultimately have "z + ?n mod 64 < 64" using z64 by (cases "z + ?n mod 64 < 64") (simp_all add: le_mod_geq)
  with sm have e: "s = z + ?n mod 64" by simp
  show "s \<le> s'" if "s' < 64" "bit ?w s'" for s'
    using trailing_zeros_least(1) [OF hit [OF that] idx(2) [OF that(1) later [OF that]]] later [OF that] by (simp add: e z_def [symmetric])
qed

section \<open>Invariant\<close>

text \<open>A clock in slot \<open>s\<close> of level \<open>l\<close> when the wheel is at time \<open>t\<close>.\<close>

definition clock_at :: "nat \<Rightarrow> nat \<Rightarrow> nat \<Rightarrow> clock \<Rightarrow> bool" where
  "clock_at t l s k \<longleftrightarrow> c_level k = l \<and> c_duration k = c_expiration k \<and> c_expiration k < horizon \<and> s = slot_of l (c_expiration k) \<and>
     t div 64 ^ l < c_expiration k div 64 ^ l \<and> t div 64 ^ Suc l = c_expiration k div 64 ^ Suc l"

definition slot_list :: "wheel \<Rightarrow> nat \<Rightarrow> nat \<Rightarrow> nat list" where
  "slot_list w l s = lv_slots (w_levels w ! l) ! s"

definition members :: "wheel \<Rightarrow> nat set" where
  "members w = {c. \<exists>l<6. \<exists>s<64. c \<in> set (slot_list w l s)}"

definition exp_of :: "wheel \<Rightarrow> nat \<Rightarrow> nat" where
  "exp_of w c = c_expiration (w_clocks w c)"

definition shape_ok :: "wheel \<Rightarrow> bool" where
  "shape_ok w \<longleftrightarrow> length (w_levels w) = 6 \<and> (\<forall>l<6. lv_level (w_levels w ! l) = l \<and> length (lv_slots (w_levels w ! l)) = 64 \<and>
     (\<forall>s<64. bit (lv_occupied (w_levels w ! l)) s \<longleftrightarrow> slot_list w l s \<noteq> []))"

definition slots_ok :: "nat \<Rightarrow> wheel \<Rightarrow> bool" where
  "slots_ok t w \<longleftrightarrow> shape_ok w \<and> t < horizon \<and> (\<forall>c. c_level (w_clocks w c) < 6) \<and>
     (\<forall>l<6. \<forall>s<64. distinct (slot_list w l s) \<and> (\<forall>c \<in> set (slot_list w l s). clock_at t l s (w_clocks w c)))"

definition wheel_inv :: "wheel \<Rightarrow> bool" where
  "wheel_inv w \<longleftrightarrow> slots_ok (w_elapsed w) w \<and> distinct (w_trigger w) \<and> (\<forall>c \<in> set (w_trigger w). exp_of w c \<le> w_elapsed w)"

lemma clock_at_later: "clock_at t l s k \<Longrightarrow> t < c_expiration k"
  unfolding clock_at_def by (meson div_le_mono leD not_le_imp_less)

lemma clock_at_unique: "clock_at t l s k \<Longrightarrow> clock_at t l' s' k \<Longrightarrow> l' = l \<and> s' = s"
  by (simp add: clock_at_def)

lemma slots_okD:
  assumes "slots_ok t w"
  shows "length (w_levels w) = 6" "t < horizon" "\<And>l. l < 6 \<Longrightarrow> lv_level (w_levels w ! l) = l" "\<And>l. l < 6 \<Longrightarrow> length (lv_slots (w_levels w ! l)) = 64"
    "\<And>l s. l < 6 \<Longrightarrow> s < 64 \<Longrightarrow> bit (lv_occupied (w_levels w ! l)) s \<longleftrightarrow> slot_list w l s \<noteq> []"
    "\<And>l s. l < 6 \<Longrightarrow> s < 64 \<Longrightarrow> distinct (slot_list w l s)"
    "\<And>l s c. l < 6 \<Longrightarrow> s < 64 \<Longrightarrow> c \<in> set (slot_list w l s) \<Longrightarrow> clock_at t l s (w_clocks w c)"
    "\<And>c. c_level (w_clocks w c) < 6"
  using assms by (auto simp: slots_ok_def shape_ok_def)

lemma membersD: "slots_ok t w \<Longrightarrow> c \<in> members w \<Longrightarrow> clock_at t (c_level (w_clocks w c)) (slot_of (c_level (w_clocks w c)) (exp_of w c)) (w_clocks w c) \<and>
   c_level (w_clocks w c) < 6 \<and> c \<in> set (slot_list w (c_level (w_clocks w c)) (slot_of (c_level (w_clocks w c)) (exp_of w c)))"
proof -
  assume ok: "slots_ok t w" and "c \<in> members w"
  then obtain l s where l: "l < 6" "s < 64" "c \<in> set (slot_list w l s)" by (auto simp: members_def)
  with slots_okD(7) [OF ok l] show ?thesis by (auto simp: clock_at_def exp_of_def)
qed

lemma slot_of_bound: "slot_of l e < 64"
  by (simp add: slot_of_mod)

text \<open>Two wheels that differ in one slot.\<close>

lemma insert_at_eq:
  fixes c :: nat
  assumes "slots_ok t w" "l < 6"
  defines "e \<equiv> exp_of w c"
  shows "slot_list (insert_at l c w) l' s = (if l' = l \<and> s = slot_of l e then c # slot_list w l s else slot_list w l' s)"
    "w_clocks (insert_at l c w) = (w_clocks w)(c := (w_clocks w c)\<lparr>c_level := l, c_duration := e\<rparr>)"
    "exp_of (insert_at l c w) = exp_of w" "shape_ok (insert_at l c w)" "w_trigger (insert_at l c w) = w_trigger w" "w_elapsed (insert_at l c w) = w_elapsed w"
proof -
  let ?s = "slot_of l e" and ?lv = "w_levels w ! l"
  note d = slots_okD [OF assms(1)]
  have ll: "lv_level ?lv = l" "length (lv_slots ?lv) = 64" "l < length (w_levels w)" using d assms(2) by simp_all
  have lev: "w_levels (insert_at l c w) =
      (w_levels w)[l := ?lv\<lparr>lv_slots := (lv_slots ?lv)[?s := c # lv_slots ?lv ! ?s], lv_occupied := lv_occupied ?lv OR push_bit ?s 1\<rparr>]"
    and clk: "w_clocks (insert_at l c w) = (w_clocks w)(c := (w_clocks w c)\<lparr>c_level := l, c_duration := e\<rparr>)"
    using ll by (simp_all add: insert_at_def Let_def level_insert_def e_def exp_of_def)
  show "w_clocks (insert_at l c w) = (w_clocks w)(c := (w_clocks w c)\<lparr>c_level := l, c_duration := e\<rparr>)" by (rule clk)
  show "exp_of (insert_at l c w) = exp_of w" by (auto simp: exp_of_def clk)
  show sl: "slot_list (insert_at l c w) l' s = (if l' = l \<and> s = slot_of l e then c # slot_list w l s else slot_list w l' s)" for l' s
    using ll slot_of_bound [of l e] by (auto simp: slot_list_def lev nth_list_update)
  have "lv_level (w_levels (insert_at l c w) ! l') = l' \<and> length (lv_slots (w_levels (insert_at l c w) ! l')) = 64 \<and>
     (\<forall>s<64. bit (lv_occupied (w_levels (insert_at l c w) ! l')) s \<longleftrightarrow> slot_list (insert_at l c w) l' s \<noteq> [])" if "l' < 6" for l'
    using d(3-5) [OF that] ll slot_of_bound [of l e] unfolding sl
    by (cases "l' = l") (auto simp: lev bit_or_iff bit_exp_iff)
  then show "shape_ok (insert_at l c w)" using d(1) by (auto simp: shape_ok_def lev)
  show "w_trigger (insert_at l c w) = w_trigger w" "w_elapsed (insert_at l c w) = w_elapsed w"
    by (simp_all add: insert_at_def Let_def split: prod.splits)
qed

lemma insert_at_ok:
  assumes ok: "slots_ok t w" and c: "c \<notin> members w" and e: "t < exp_of w c" "exp_of w c < horizon"
  defines "l \<equiv> find_level (exp_of w c) t"
  shows "slots_ok t (insert_at l c w)" "members (insert_at l c w) = insert c (members w)"
proof -
  have t: "t < horizon" using e by simp
  note fl = find_level_spec [OF e(2) t, folded l_def]
  have l: "l < 6" using fl(1) by (simp add: LEVELS_NUM_def)
  note ia = insert_at_eq [OF ok l, of c]
  have "t div 64 ^ l \<le> exp_of w c div 64 ^ l" using e(1) by (simp add: div_le_mono)
  moreover have "t div 64 ^ l \<noteq> exp_of w c div 64 ^ l"
    using fl(3) e(1) by (cases "l = 0") auto
  ultimately have "t div 64 ^ l < exp_of w c div 64 ^ l" by simp
  then have at: "clock_at t l (slot_of l (exp_of w c)) (w_clocks (insert_at l c w) c)"
    using fl(2) e(2) by (simp add: clock_at_def ia(2) exp_of_def [of w c, symmetric])
  have nc: "c \<notin> set (slot_list w l' s)" if "l' < 6" "s < 64" for l' s using c that by (auto simp: members_def)
  have "distinct (slot_list (insert_at l c w) l' s) \<and> (\<forall>k \<in> set (slot_list (insert_at l c w) l' s). clock_at t l' s (w_clocks (insert_at l c w) k))"
    if "l' < 6" "s < 64" for l' s
    using slots_okD(6,7) [OF ok that] nc [OF that] at unfolding ia(1) by (auto simp: ia(2))
  then show "slots_ok t (insert_at l c w)" using ia(4) t l slots_okD(8) [OF ok] by (simp add: slots_ok_def ia(2))
  have sl: "set (slot_list (insert_at l c w) l' s) = (if l' = l \<and> s = slot_of l (exp_of w c) then insert c (set (slot_list w l' s)) else set (slot_list w l' s))" for l' s
    by (simp add: ia(1))
  show "members (insert_at l c w) = insert c (members w)"
  proof (intro set_eqI iffI)
    fix x assume "x \<in> members (insert_at l c w)"
    then show "x \<in> insert c (members w)" unfolding members_def mem_Collect_eq sl by (auto split: if_splits)
  next
    fix x assume "x \<in> insert c (members w)"
    then consider "x = c" | l' s where "l' < 6" "s < 64" "x \<in> set (slot_list w l' s)" by (auto simp: members_def)
    then show "x \<in> members (insert_at l c w)"
    proof cases
      case 1
      then have "x \<in> set (slot_list (insert_at l c w) l (slot_of l (exp_of w c)))" by (simp add: sl)
      then show ?thesis using l slot_of_bound unfolding members_def by blast
    next
      case 2
      then have "x \<in> set (slot_list (insert_at l c w) l' s)" unfolding sl by auto
      then show ?thesis using 2 unfolding members_def by blast
    qed
  qed
qed

text \<open>The wheel moves to a later time that no clock has passed.\<close>

lemma first_level:
  "first_expiration now ls = Some ex \<Longrightarrow> \<exists>l<length ls. level_next_expiration now (ls ! l) = Some ex \<and> (\<forall>l'<l. level_next_expiration now (ls ! l') = None)"
proof (induction ls)
  case (Cons lv ls)
  show ?case
  proof (cases "level_next_expiration now lv")
    case None
    with Cons obtain l where "l < length ls" "level_next_expiration now (ls ! l) = Some ex" "\<forall>l'<l. level_next_expiration now (ls ! l') = None" by auto
    with None show ?thesis by (intro exI [of _ "Suc l"]) (auto simp: less_Suc_eq_0_disj)
  qed (use Cons.prems in \<open>auto intro!: exI [of _ 0]\<close>)
qed simp

lemma level_none: "level_next_expiration now lv = None \<longleftrightarrow> lv_occupied lv = 0"
  by (simp add: level_next_expiration_def next_occupied_slot_def Let_def split: option.splits)

lemma occupied_zero:
  assumes "slots_ok t w" "l < 6" "lv_occupied (w_levels w ! l) = 0" "s < 64"
  shows "slot_list w l s = []"
  using slots_okD(5) [OF assms(1,2,4)] assms(3) by simp

lemma div_pow_Suc: "(x::nat) div 64 ^ Suc l = x div 64 ^ l div 64"
  by (simp only: power_Suc2 div_mult2_eq)

lemma slot_after_now:
  assumes "clock_at t l s k"
  shows "t div 64 ^ l mod 64 < s" "c_expiration k div 64 ^ l = t div 64 ^ Suc l * 64 + s"
proof -
  let ?e = "c_expiration k div 64 ^ l" and ?t = "t div 64 ^ l"
  have k: "?t < ?e" "?t div 64 = ?e div 64" "s = ?e mod 64"
    using assms unfolding clock_at_def slot_of_mod div_pow_Suc by auto
  then show "?t mod 64 < s" by (metis div_mult_mod_eq nat_add_left_cancel_less)
  show "?e = t div 64 ^ Suc l * 64 + s" unfolding div_pow_Suc k(2) k(3) by simp
qed

lemma next_expiration_spec:
  assumes ok: "slots_ok (w_elapsed w) w" and ex: "next_expiration w = Some ex"
  defines "t \<equiv> w_elapsed w" and "l \<equiv> ex_level ex" and "s \<equiv> ex_slot ex" and "D \<equiv> ex_deadline ex"
  shows "l < 6" "s < 64" "slot_list w l s \<noteq> []" "\<And>l' s'. l' < l \<Longrightarrow> s' < 64 \<Longrightarrow> slot_list w l' s' = []"
    "D = (t div 64 ^ Suc l * 64 + s) * 64 ^ l" "\<And>s'. s' < 64 \<Longrightarrow> slot_list w l s' \<noteq> [] \<Longrightarrow> s \<le> s'"
proof -
  note d = slots_okD [OF ok, folded t_def]
  obtain l0 where l0: "l0 < 6" "level_next_expiration t (w_levels w ! l0) = Some ex" "\<And>l'. l' < l0 \<Longrightarrow> lv_occupied (w_levels w ! l') = 0"
    using first_level [of t "w_levels w" ex] ex d(1) by (auto simp: next_expiration_def t_def level_none)
  then obtain s0 where s0: "next_occupied_slot t (w_levels w ! l0) = Some s0" "l0 = l" "s0 = s" "D = calculate_deadline s0 l0 t"
    using d(3) [OF l0(1)] by (auto simp: level_next_expiration_def l_def s_def D_def split: option.splits)
  show l: "l < 6" using l0(1) s0(2) by simp
  have later: "t div slot_range (lv_level (w_levels w ! l)) mod 64 < s'" if s': "s' < 64" and b: "bit (lv_occupied (w_levels w ! l)) s'" for s'
  proof -
    obtain c where "c \<in> set (slot_list w l s')" using d(5) [OF l s'] b by (metis last_in_set)
    from slot_after_now(1) [OF d(7) [OF l s' this]] show ?thesis by (simp add: slot_range_def SLOTS_NUM_def d(3) [OF l])
  qed
  have ns: "s < 64" "bit (lv_occupied (w_levels w ! l)) s" "\<And>s'. s' < 64 \<Longrightarrow> bit (lv_occupied (w_levels w ! l)) s' \<Longrightarrow> s \<le> s'"
    using next_slot_spec [of "w_levels w ! l" t s] later s0(1) [unfolded s0(2,3)] by blast+
  show s: "s < 64" by (rule ns(1))
  show "slot_list w l s \<noteq> []" using d(5) [OF l s] ns(2) by simp
  show "slot_list w l' s' = []" if "l' < l" "s' < 64" for l' s'
    using occupied_zero [OF ok _ l0(3) that(2)] that(1) s0(2) l by simp
  show "s \<le> s'" if "s' < 64" "slot_list w l s' \<noteq> []" for s' using ns(3) [OF that(1)] d(5) [OF l that(1)] that(2) by simp
  have "t div 64 ^ l mod 64 < s" using later [OF s ns(2)] by (simp add: slot_range_def SLOTS_NUM_def d(3) [OF l])
  then have "t div 64 ^ l < t div 64 ^ Suc l * 64 + s"
    unfolding div_pow_Suc by (metis add_less_cancel_left div_mult_mod_eq)
  then have "t < (t div 64 ^ Suc l * 64 + s) * 64 ^ l" by (simp add: div_less_iff_less_mult)
  then show "D = (t div 64 ^ Suc l * 64 + s) * 64 ^ l"
    unfolding s0(4) by (simp add: calculate_deadline_def slot_range_def SLOTS_NUM_def s0(2,3) Let_def algebra_simps)
qed

text \<open>The clocks of the slot that is due next share its deadline; all other clocks are where they belong also at that time.\<close>

lemma deadline_facts:
  assumes ok: "slots_ok (w_elapsed w) w" and ex: "next_expiration w = Some ex"
  defines "t \<equiv> w_elapsed w" and "l \<equiv> ex_level ex" and "s \<equiv> ex_slot ex" and "D \<equiv> ex_deadline ex"
  shows "t < D" "D < horizon" "\<And>c. c \<in> members w \<Longrightarrow> D \<le> exp_of w c"
    "\<And>l' s' c. l' < 6 \<Longrightarrow> s' < 64 \<Longrightarrow> c \<in> set (slot_list w l' s') \<Longrightarrow> (l', s') \<noteq> (l, s) \<Longrightarrow> clock_at D l' s' (w_clocks w c)"
proof -
  note n = next_expiration_spec [OF ok ex, folded t_def l_def s_def D_def]
  note d = slots_okD [OF ok, folded t_def]
  show tD: "t < D" using first_expiration_later ex by (simp add: next_expiration_def t_def D_def)
  have DL: "D div 64 ^ l = t div 64 ^ Suc l * 64 + s" by (simp add: n(5))
  have DS: "D div 64 ^ Suc l = t div 64 ^ Suc l" unfolding div_pow_Suc [of D] DL using n(2) by simp
  have le: "D \<le> e" if "D div 64 ^ l \<le> e div 64 ^ l" for e
  proof -
    have "D = D div 64 ^ l * 64 ^ l" by (simp add: n(5))
    also have "\<dots> \<le> e div 64 ^ l * 64 ^ l" using that by (rule mult_le_mono1)
    also have "\<dots> \<le> e" by simp
    finally show ?thesis .
  qed
  have above: "D div 64 ^ l' = t div 64 ^ l'" if gt: "l < l'" for l'
  proof -
    obtain k where "l' = Suc l + k" using less_imp_Suc_add [OF gt] by auto
    then show ?thesis using DS by (simp only: power_add div_mult2_eq)
  qed
  have at: "D \<le> c_expiration k \<and> ((l', s') \<noteq> (l, s) \<longrightarrow> clock_at D l' s' k)" if l': "l' < 6" "s' < 64" and k: "clock_at t l' s' k" and ne: "slot_list w l' s' \<noteq> []" for l' s' k
  proof -
    consider "l' < l" | "l' = l" | "l < l'" by linarith
    then show ?thesis
    proof cases
      case 1
      with n(4) l' ne show ?thesis by simp
    next
      case 2
      have "s \<le> s'" using n(6) l'(2) ne 2 by simp
      moreover have e: "c_expiration k div 64 ^ l = t div 64 ^ Suc l * 64 + s'" using slot_after_now(2) [OF k] 2 by simp
      ultimately show ?thesis using k DS le [of "c_expiration k"] by (auto simp: clock_at_def 2 DL)
    next
      case 3
      have "t div 64 ^ l' < c_expiration k div 64 ^ l'" using k by (simp add: clock_at_def)
      then have "D div 64 ^ l' < c_expiration k div 64 ^ l'" using above [OF 3] by simp
      moreover then have "D \<le> c_expiration k" by (meson div_le_mono leD le_cases)
      ultimately show ?thesis using k above [of "Suc l'"] 3 by (simp add: clock_at_def del: power_Suc)
    qed
  qed
  show D: "D \<le> exp_of w c" if "c \<in> members w" for c
    using that at d(7) by (fastforce simp: members_def exp_of_def)
  show "clock_at D l' s' (w_clocks w c)" if "l' < 6" "s' < 64" "c \<in> set (slot_list w l' s')" "(l', s') \<noteq> (l, s)" for l' s' c
    using at [OF that(1,2) d(7) [OF that(1-3)]] that(3,4) length_pos_if_in_set [OF that(3)] by auto
  obtain c where c: "c \<in> set (slot_list w l s)" using n(3) by (metis last_in_set)
  then have "c \<in> members w" using n(1,2) by (auto simp: members_def)
  moreover have "exp_of w c < horizon" using d(7) [OF n(1,2) c] by (simp add: clock_at_def exp_of_def)
  ultimately show "D < horizon" using D by fastforce
qed

text \<open>Taking the slot out.\<close>

lemma take_slot_ok:
  assumes ok: "slots_ok (w_elapsed w) w" and ex: "next_expiration w = Some ex"
  defines "w1 \<equiv> w\<lparr>w_levels := (w_levels w)[ex_level ex := snd (take_slot (ex_slot ex) (w_levels w ! ex_level ex))]\<rparr>"
  shows "slots_ok (ex_deadline ex) w1" "members w1 = members w - set (slot_list w (ex_level ex) (ex_slot ex))"
proof -
  let ?l = "ex_level ex" and ?s = "ex_slot ex"
  note n = next_expiration_spec [OF ok ex] and f = deadline_facts [OF ok ex]
  note d = slots_okD [OF ok]
  have lev: "w_levels w1 ! l = (if l = ?l then snd (take_slot ?s (w_levels w ! ?l)) else w_levels w ! l)" if "l < 6" for l
    using that d(1) by (simp add: w1_def nth_list_update)
  have sl: "slot_list w1 l s = (if l = ?l \<and> s = ?s then [] else slot_list w l s)" if "l < 6" "s < 64" for l s
    using that n(1,2) d(4) by (simp add: slot_list_def lev take_slot_def nth_list_update)
  have "lv_level (w_levels w1 ! l) = l \<and> length (lv_slots (w_levels w1 ! l)) = 64 \<and>
     (\<forall>s<64. bit (lv_occupied (w_levels w1 ! l)) s \<longleftrightarrow> slot_list w1 l s \<noteq> [])" if "l < 6" for l
    using d(3-5) [OF that] n(1,2) that sl [OF that]
    by (cases "l = ?l") (auto simp: lev take_slot_def bit_and_iff bit_not_iff bit_exp_iff)
  then have "shape_ok w1" using d(1) by (simp add: shape_ok_def w1_def)
  moreover have "distinct (slot_list w1 l s) \<and> (\<forall>c \<in> set (slot_list w1 l s). clock_at (ex_deadline ex) l s (w_clocks w1 c))" if "l < 6" "s < 64" for l s
    using d(6) [OF that] f(4) [OF that] unfolding sl [OF that] by (auto simp: w1_def)
  ultimately show "slots_ok (ex_deadline ex) w1" using f(2) d(8) by (simp add: slots_ok_def w1_def)
  have "c \<notin> set (slot_list w ?l ?s)" if "l < 6" "s < 64" "c \<in> set (slot_list w l s)" "\<not> (l = ?l \<and> s = ?s)" for c l s
  proof
    assume "c \<in> set (slot_list w ?l ?s)"
    from clock_at_unique [OF d(7) [OF that(1-3)] d(7) [OF n(1,2) this]] that(4) show False by auto
  qed
  note uni = this
  show "members w1 = members w - set (slot_list w ?l ?s)"
  proof (intro set_eqI iffI)
    fix c assume "c \<in> members w1"
    then obtain l s where c: "l < 6" "s < 64" "c \<in> set (slot_list w1 l s)" unfolding members_def by blast
    then have "c \<in> set (slot_list w l s)" "\<not> (l = ?l \<and> s = ?s)" using sl [OF c(1,2)] by (auto split: if_splits)
    with uni [OF c(1,2)] c(1,2) show "c \<in> members w - set (slot_list w ?l ?s)" unfolding members_def by blast
  next
    fix c assume "c \<in> members w - set (slot_list w ?l ?s)"
    then obtain l s where c: "l < 6" "s < 64" "c \<in> set (slot_list w l s)" "c \<notin> set (slot_list w ?l ?s)" unfolding members_def by blast
    then have "c \<in> set (slot_list w1 l s)" using sl [OF c(1,2)] by auto
    with c(1,2) show "c \<in> members w1" unfolding members_def by blast
  qed
qed

text \<open>The loop of \<open>process_expiration\<close>.\<close>

lemma process_items_ok:
  assumes "slots_ok D w" "distinct xs" "set xs \<inter> members w = {}" "\<And>c. c \<in> set xs \<Longrightarrow> D \<le> exp_of w c \<and> exp_of w c < horizon"
    "distinct (w_trigger w)" "set xs \<inter> set (w_trigger w) = {}"
  defines "w' \<equiv> fold (process_item D) xs w"
  shows "slots_ok D w' \<and> members w' = members w \<union> {c \<in> set xs. exp_of w c > D} \<and> set (w_trigger w') = set (w_trigger w) \<union> {c \<in> set xs. exp_of w c \<le> D} \<and>
    distinct (w_trigger w') \<and> exp_of w' = exp_of w \<and> (\<forall>c. c_waker (w_clocks w' c) = c_waker (w_clocks w c) \<and> c_result (w_clocks w' c) = c_result (w_clocks w c))"
  using assms(1-6) unfolding w'_def
proof (induction xs arbitrary: w)
  case (Cons c xs)
  let ?w = "process_item D c w"
  have x: "exp_of w c < horizon" "D \<le> exp_of w c" "c \<notin> members w" "c \<notin> set xs" "c \<notin> set (w_trigger w)"
    using Cons.prems by auto
  have step: "slots_ok D ?w \<and> members ?w = members w \<union> (if exp_of w c > D then {c} else {}) \<and>
     w_trigger ?w = (if exp_of w c > D then w_trigger w else c # w_trigger w) \<and> exp_of ?w = exp_of w \<and>
     (\<forall>k. c_waker (w_clocks ?w k) = c_waker (w_clocks w k) \<and> c_result (w_clocks ?w k) = c_result (w_clocks w k))"
  proof (cases "exp_of w c > D")
    case True
    have l: "find_level (exp_of w c) D < 6"
      using find_level_spec(1) [OF x(1)] slots_okD(2) [OF Cons.prems(1)] by (simp add: LEVELS_NUM_def)
    have "?w = insert_at (find_level (exp_of w c) D) c w" using True by (simp add: process_item_def exp_of_def Let_def)
    with insert_at_ok [OF Cons.prems(1) x(3) True x(1)] insert_at_eq [OF Cons.prems(1) l, of c] True show ?thesis by auto
  next
    case False
    then have "?w = w\<lparr>w_trigger := c # w_trigger w\<rparr>" by (simp add: process_item_def exp_of_def Let_def)
    moreover have "slot_list (w\<lparr>w_trigger := y\<rparr>) = slot_list w" for y by (simp add: slot_list_def fun_eq_iff)
    ultimately show ?thesis using False Cons.prems(1) by (simp add: slots_ok_def shape_ok_def members_def exp_of_def fun_eq_iff)
  qed
  have "set xs \<inter> members ?w = {}" "set xs \<inter> set (w_trigger ?w) = {}" "distinct (w_trigger ?w)" "distinct xs"
    "\<And>k. k \<in> set xs \<Longrightarrow> D \<le> exp_of ?w k \<and> exp_of ?w k < horizon"
    using step Cons.prems x by auto
  from Cons.IH [OF _ this(4) this(1) this(5) this(3) this(2)] step x show ?case
    by (cases "exp_of w c > D") auto
qed auto

lemma process_expiration_ok:
  assumes inv: "wheel_inv w" and ex: "next_expiration w = Some ex" and tr: "w_trigger w = []"
  defines "w' \<equiv> (process_expiration ex w)\<lparr>w_elapsed := ex_deadline ex\<rparr>"
  shows "wheel_inv w'" "members w' \<union> set (w_trigger w') = members w" "members w' \<inter> set (w_trigger w') = {}" "exp_of w' = exp_of w"
    "\<And>c. c_waker (w_clocks w' c) = c_waker (w_clocks w c) \<and> c_result (w_clocks w' c) = c_result (w_clocks w c)"
proof -
  let ?l = "ex_level ex" and ?s = "ex_slot ex" and ?D = "ex_deadline ex"
  let ?w1 = "w\<lparr>w_levels := (w_levels w)[?l := snd (take_slot ?s (w_levels w ! ?l))]\<rparr>" and ?xs = "slot_list w ?l ?s"
  have ok: "slots_ok (w_elapsed w) w" using inv by (simp add: wheel_inv_def)
  note n = next_expiration_spec [OF ok ex] and f = deadline_facts [OF ok ex] and ts = take_slot_ok [OF ok ex]
  have xs: "set ?xs \<subseteq> members w" using n(1,2) by (auto simp: members_def)
  have pe: "process_expiration ex w = fold (process_item ?D) (rev ?xs) ?w1"
    by (simp add: process_expiration_def take_slot_def slot_list_def Let_def)
  have e1: "exp_of ?w1 = exp_of w" by (simp add: exp_of_def fun_eq_iff)
  have h: "exp_of w c < horizon" if "c \<in> set ?xs" for c
    using slots_okD(7) [OF ok n(1,2) that] by (simp add: clock_at_def exp_of_def)
  have p: "slots_ok ?D (process_expiration ex w) \<and> members (process_expiration ex w) = members ?w1 \<union> {c \<in> set (rev ?xs). exp_of ?w1 c > ?D} \<and>
    set (w_trigger (process_expiration ex w)) = set (w_trigger ?w1) \<union> {c \<in> set (rev ?xs). exp_of ?w1 c \<le> ?D} \<and>
    distinct (w_trigger (process_expiration ex w)) \<and> exp_of (process_expiration ex w) = exp_of ?w1 \<and>
    (\<forall>c. c_waker (w_clocks (process_expiration ex w) c) = c_waker (w_clocks ?w1 c) \<and> c_result (w_clocks (process_expiration ex w) c) = c_result (w_clocks ?w1 c))"
    unfolding pe by (rule process_items_ok [OF ts(1)])
      (use ts(2) f(3) xs h slots_okD(6) [OF ok n(1,2)] tr in \<open>auto simp: e1\<close>)
  have same: "slot_list w' = slot_list (process_expiration ex w)" "exp_of w' = exp_of (process_expiration ex w)" "w_trigger w' = w_trigger (process_expiration ex w)"
    "members w' = members (process_expiration ex w)" "shape_ok w' = shape_ok (process_expiration ex w)" "w_clocks w' = w_clocks (process_expiration ex w)" "w_elapsed w' = ?D"
    by (simp_all add: w'_def slot_list_def exp_of_def members_def shape_ok_def fun_eq_iff)
  have "slots_ok ?D w'" using p by (simp add: slots_ok_def same)
  then show "wheel_inv w'" using p tr by (auto simp: wheel_inv_def same e1)
  show "members w' \<union> set (w_trigger w') = members w" using p ts(2) xs tr by (auto simp: same e1)
  show "members w' \<inter> set (w_trigger w') = {}" using p ts(2) tr by (auto simp: same e1)
  show "exp_of w' = exp_of w" "\<And>c. c_waker (w_clocks w' c) = c_waker (w_clocks w c) \<and> c_result (w_clocks w' c) = c_result (w_clocks w c)"
    using p by (simp_all add: same e1)
qed

definition all_clocks :: "wheel \<Rightarrow> nat set" where
  "all_clocks w = members w \<union> set (w_trigger w)"

lemma wheel_invD:
  assumes "wheel_inv w"
  shows "slots_ok (w_elapsed w) w" "distinct (w_trigger w)" "\<And>c. c \<in> set (w_trigger w) \<Longrightarrow> exp_of w c \<le> w_elapsed w"
    "\<And>c. c \<in> members w \<Longrightarrow> w_elapsed w < exp_of w c \<and> exp_of w c < horizon" "members w \<inter> set (w_trigger w) = {}"
proof -
  show ok: "slots_ok (w_elapsed w) w" and t: "distinct (w_trigger w)" "\<And>c. c \<in> set (w_trigger w) \<Longrightarrow> exp_of w c \<le> w_elapsed w"
    using assms by (auto simp: wheel_inv_def)
  show m: "w_elapsed w < exp_of w c \<and> exp_of w c < horizon" if "c \<in> members w" for c
    using membersD [OF ok that] clock_at_later by (auto simp: clock_at_def exp_of_def)
  show "members w \<inter> set (w_trigger w) = {}" using t(2) m by fastforce
qed

text \<open>Changes of the trigger list and of the time only.\<close>

lemma members_upd [simp]: "members (w\<lparr>w_trigger := x\<rparr>) = members w" "members (w\<lparr>w_elapsed := t\<rparr>) = members w"
  "exp_of (w\<lparr>w_trigger := x\<rparr>) = exp_of w" "exp_of (w\<lparr>w_elapsed := t\<rparr>) = exp_of w"
  "slots_ok t' (w\<lparr>w_trigger := x\<rparr>) = slots_ok t' w" "slots_ok t' (w\<lparr>w_elapsed := t\<rparr>) = slots_ok t' w"
  by (simp_all add: members_def exp_of_def slots_ok_def shape_ok_def slot_list_def fun_eq_iff)

lemma no_expiration:
  assumes "slots_ok (w_elapsed w) w" "next_expiration w = None"
  shows "members w = {}"
proof -
  have "lv_occupied lv = 0" if "first_expiration now ls = None" "lv \<in> set ls" for now ls lv
    using that by (induction ls) (auto simp: level_none split: option.splits)
  then have "lv_occupied (w_levels w ! l) = 0" if "l < 6" for l
    using that assms(2) slots_okD(1) [OF assms(1)] by (simp add: next_expiration_def)
  then show ?thesis using occupied_zero [OF assms(1)] by (fastforce simp: members_def)
qed

lemma slots_ok_empty: "slots_ok t w \<Longrightarrow> members w = {} \<Longrightarrow> t' < horizon \<Longrightarrow> slots_ok t' w"
  by (auto simp: slots_ok_def members_def)

definition poll_ok :: "nat \<Rightarrow> wheel \<Rightarrow> time_out \<times> wheel \<Rightarrow> bool" where
  "poll_ok now w x = (case x of (r, w') \<Rightarrow> wheel_inv w' \<and> w_elapsed w' \<le> now \<and> exp_of w' = exp_of w \<and>
     (\<forall>c. c_waker (w_clocks w' c) = c_waker (w_clocks w c) \<and> c_result (w_clocks w' c) = c_result (w_clocks w c)) \<and>
     (case r of
        ClockEntry c \<Rightarrow> c \<in> all_clocks w \<and> exp_of w c \<le> now \<and> all_clocks w' = all_clocks w - {c}
      | Duration d \<Rightarrow> all_clocks w' = all_clocks w \<and> 0 < d \<and> (\<forall>c \<in> all_clocks w. now + d \<le> exp_of w c)
      | NoTimeOut \<Rightarrow> all_clocks w = {} \<and> all_clocks w' = {}))"

lemma wheel_poll_ok:
  assumes "wheel_inv w" "w_elapsed w \<le> now" "now < horizon"
  shows "poll_ok now w (wheel_poll now w)"
  using assms
proof (induction now w rule: wheel_poll.induct)
  case (1 now w)
  note inv = wheel_invD [OF 1(2)]
  show ?case
  proof (cases "w_trigger w = []")
    case False
    let ?w = "w\<lparr>w_trigger := butlast (w_trigger w)\<rparr>" and ?c = "last (w_trigger w)"
    have p: "wheel_poll now w = (ClockEntry ?c, ?w)" using False by (simp add: wheel_poll.simps pop_trigger_def)
    have tr: "w_trigger w = butlast (w_trigger w) @ [?c]" using False by simp
    have "distinct (butlast (w_trigger w))" "set (butlast (w_trigger w)) = set (w_trigger w) - {?c}"
      using inv(2) tr by (metis distinct_append, metis (no_types, lifting) Diff_insert_absorb Un_insert_right distinct.simps(2) distinct_append disjoint_iff list.set(1) list.set(2) list.simps(15) set_append singletonI sup_bot.right_neutral)
    moreover have "?c \<in> set (w_trigger w)" using False by simp
    moreover have "?c \<notin> members w" using inv(5) calculation(3) by auto
    moreover have "exp_of w ?c \<le> now" using inv(3) calculation(3) 1(3) by fastforce
    ultimately show ?thesis
      using inv 1(3) by (auto simp: p poll_ok_def all_clocks_def wheel_inv_def)
  next
    case tr: True
    show ?thesis
    proof (cases "next_expiration w")
      case None
      have p: "wheel_poll now w = (NoTimeOut, w\<lparr>w_elapsed := now\<rparr>)" using tr None by (simp add: wheel_poll.simps [of now w] pop_trigger_def)
      have "members w = {}" using no_expiration [OF inv(1) None] .
      then show ?thesis using slots_ok_empty [OF inv(1)] tr 1(4) by (simp add: p poll_ok_def all_clocks_def wheel_inv_def)
    next
      case (Some ex)
      note f = deadline_facts [OF inv(1) Some]
      show ?thesis
      proof (cases "ex_deadline ex > now")
        case True
        then have "wheel_poll now w = (Duration (ex_deadline ex - now), w)" using tr Some by (simp add: wheel_poll.simps [of now w] pop_trigger_def)
        then show ?thesis using 1(2,3) f(3) True tr by (simp add: poll_ok_def all_clocks_def)
      next
        case False
        let ?w = "(process_expiration ex w)\<lparr>w_elapsed := ex_deadline ex\<rparr>"
        have p: "wheel_poll now w = wheel_poll now ?w" using tr Some False by (subst wheel_poll.simps) (simp add: pop_trigger_def)
        note pe = process_expiration_ok [OF 1(2) Some tr]
        have "poll_ok now ?w (wheel_poll now ?w)"
          by (rule 1(1)) (use tr Some False pe(1) 1(4) in \<open>simp_all add: pop_trigger_def\<close>)
        moreover have "all_clocks ?w = all_clocks w" using pe(2) tr by (simp add: all_clocks_def)
        ultimately show ?thesis using pe(4,5) unfolding p by (auto simp: poll_ok_def split: prod.splits time_out.splits)
      qed
    qed
  qed
qed

section \<open>The operations of the wheel\<close>

lemma wheel_new_inv: "wheel_inv wheel_new" "all_clocks wheel_new = {}"
proof -
  have l: "w_levels wheel_new ! l = level_new l" if "l < 6" for l using that by (simp add: wheel_new_def LEVELS_NUM_def)
  have s: "slot_list wheel_new l s = []" if "l < 6" "s < 64" for l s
    using that by (simp add: slot_list_def l level_new_def SLOTS_NUM_def)
  have "shape_ok wheel_new" unfolding shape_ok_def using s by (auto simp: l level_new_def SLOTS_NUM_def) (simp add: wheel_new_def LEVELS_NUM_def)
  then show "wheel_inv wheel_new" using s by (simp add: wheel_inv_def slots_ok_def) (simp add: wheel_new_def clock_new_def horizon_def)
  show "all_clocks wheel_new = {}" using s by (auto simp: all_clocks_def members_def) (simp add: wheel_new_def)
qed

lemma wheel_insert_ok:
  assumes inv: "wheel_inv w" and c: "c \<notin> all_clocks w" and h: "exp_of w c < horizon"
  shows "case wheel_insert c w of
      (Inl _, w') \<Rightarrow> exp_of w c \<le> w_elapsed w \<and> w' = w
    | (Inr e, w') \<Rightarrow> w_elapsed w < exp_of w c \<and> e = exp_of w c \<and> wheel_inv w' \<and> all_clocks w' = insert c (all_clocks w) \<and> exp_of w' = exp_of w \<and>
        w_elapsed w' = w_elapsed w \<and> (\<forall>k. c_waker (w_clocks w' k) = c_waker (w_clocks w k) \<and> c_result (w_clocks w' k) = c_result (w_clocks w k))"
proof (cases "exp_of w c \<le> w_elapsed w")
  case True
  then show ?thesis by (simp add: wheel_insert_def exp_of_def Let_def)
next
  case False
  note i = wheel_invD [OF inv]
  let ?l = "find_level (exp_of w c) (w_elapsed w)"
  have l: "?l < 6" using find_level_spec(1) [OF h] slots_okD(2) [OF i(1)] by (simp add: LEVELS_NUM_def)
  have m: "c \<notin> members w" "w_elapsed w < exp_of w c" using c False by (simp_all add: all_clocks_def)
  note ok = insert_at_ok [OF i(1) m h] and eq = insert_at_eq [OF i(1) l, of c]
  have "wheel_insert c w = (Inr (exp_of w c), insert_at ?l c w)" using False by (simp add: wheel_insert_def exp_of_def Let_def)
  then show ?thesis using ok i False by (auto simp: wheel_inv_def eq all_clocks_def)
qed

lemma unlink_slots: "l < length (w_levels w) \<Longrightarrow> s < length (lv_slots (w_levels w ! l)) \<Longrightarrow> slot_list (unlink c w) l s = remove1 c (slot_list w l s)"
  by (simp add: slot_list_def unlink_def)

lemma wheel_cancel_ok:
  assumes inv: "wheel_inv w"
  shows "wheel_inv (wheel_cancel c w)" "all_clocks (wheel_cancel c w) = all_clocks w - {c}" "w_clocks (wheel_cancel c w) = w_clocks w"
    "w_elapsed (wheel_cancel c w) = w_elapsed w"
proof -
  note i = wheel_invD [OF inv] and d = slots_okD [OF wheel_invD(1) [OF inv]]
  let ?l = "c_level (w_clocks w c)" and ?w = "wheel_cancel c w"
  let ?s = "slot_of ?l (c_duration (w_clocks w c))"
  have ls: "?l < 6" "?s < 64" using d(8) slot_of_bound by simp_all
  have u: "w_levels (unlink c w) = map (\<lambda>l. l\<lparr>lv_slots := map (remove1 c) (lv_slots l)\<rparr>) (w_levels w)" "w_clocks (unlink c w) = w_clocks w"
    "w_elapsed (unlink c w) = w_elapsed w" "w_trigger (unlink c w) = remove1 c (w_trigger w)" by (simp_all add: unlink_def)
  have lvl: "lv_level (w_levels (unlink c w) ! ?l) = ?l" using ls d by (simp add: u)
  show clk: "w_clocks ?w = w_clocks w" and el: "w_elapsed ?w = w_elapsed w" by (simp_all add: wheel_cancel_def Let_def u)
  have tr: "w_trigger ?w = remove1 c (w_trigger w)" by (simp add: wheel_cancel_def Let_def u)
  have lev: "w_levels ?w ! l = (let lv = w_levels (unlink c w) ! l in
      if l = ?l \<and> remove1 c (slot_list w ?l ?s) = [] then lv\<lparr>lv_occupied := lv_occupied lv AND NOT (push_bit ?s 1)\<rparr> else lv)" if "l < 6" for l
    using that ls d(1,4) unlink_slots [of ?l w ?s c] lvl by (simp add: wheel_cancel_def Let_def slot_list_def u(1) nth_list_update)
  have sl: "slot_list ?w l s = remove1 c (slot_list w l s)" if "l < 6" "s < 64" for l s
    using that d(1,4) by (simp add: slot_list_def lev Let_def u(1))
  have where_c: "c \<in> set (slot_list w l s) \<Longrightarrow> l = ?l \<and> s = ?s" if "l < 6" "s < 64" for l s
    using d(7) [OF that] by (auto simp: clock_at_def)
  have occ: "bit (lv_occupied (w_levels ?w ! l)) s \<longleftrightarrow> bit (lv_occupied (w_levels w ! l)) s \<and> \<not> (l = ?l \<and> s = ?s \<and> remove1 c (slot_list w ?l ?s) = [])"
    if "l < 6" "s < 64" for l s
    unfolding lev [OF that(1)] using that d(1) by (auto simp: Let_def u(1) bit_and_iff bit_not_iff bit_exp_iff)
  have "bit (lv_occupied (w_levels ?w ! l)) s \<longleftrightarrow> slot_list ?w l s \<noteq> []" if l: "l < 6" "s < 64" for l s
  proof (cases "l = ?l \<and> s = ?s")
    case True
    then show ?thesis using d(5) [OF l] unfolding sl [OF l] occ [OF l] by (cases "slot_list w l s") auto
  next
    case False
    then have "remove1 c (slot_list w l s) = slot_list w l s" using where_c [OF l] by (intro remove1_idem) blast
    then show ?thesis using d(5) [OF l] False unfolding sl [OF l] occ [OF l] by auto
  qed
  moreover have "lv_level (w_levels ?w ! l) = l \<and> length (lv_slots (w_levels ?w ! l)) = 64" if "l < 6" for l
    unfolding lev [OF that] using d(1,3,4) that by (simp add: Let_def u(1))
  ultimately have "shape_ok ?w" using d(1) by (simp add: shape_ok_def) (simp add: wheel_cancel_def Let_def u(1))
  moreover have "distinct (slot_list ?w l s) \<and> (\<forall>k \<in> set (slot_list ?w l s). clock_at (w_elapsed w) l s (w_clocks ?w k))" if "l < 6" "s < 64" for l s
    using d(6,7) [OF that] unfolding sl [OF that] clk by (auto dest: notin_set_remove1)
  ultimately have "slots_ok (w_elapsed w) ?w" using d(2,8) by (simp add: slots_ok_def clk)
  then show "wheel_inv ?w" using i(2,3) by (auto simp: wheel_inv_def el tr exp_of_def clk)
  have "set (slot_list ?w l s) = set (slot_list w l s) - {c}" if "l < 6" "s < 64" for l s
    using d(6) [OF that] by (simp add: sl [OF that])
  then have "members ?w = members w - {c}" unfolding members_def by (auto; fastforce)
  then show "all_clocks ?w = all_clocks w - {c}" using i(2) by (auto simp: all_clocks_def tr)
qed

end
