(* ===== verification/Time_Driver.thy ===== *)
theory Time_Driver
  imports Timer_Wheel "HOL-Library.Multiset"
begin

text \<open>
  Timers on the wheel: \<open>ylong_runtime/src/time/driver.rs\<close>, \<open>sleep.rs\<close>, \<open>timer.rs\<close> and
  \<open>timeout.rs\<close> in the build without \<open>ffrt\<close>. Instants are nanoseconds; the largest instant of
  the platform is the argument \<open>mx\<close> where the code checks for overflow. The wheel is behind a
  mutex, so registration, cancellation and one run of the driver are single steps.
\<close>

section \<open>The driver\<close>

text \<open>Wakers collected so far, wakers called, and whether an \<open>expect\<close> failed.\<close>

record run_state =
  rs_wheel :: wheel
  rs_list :: "nat option list"
  rs_woken :: "nat list"
  rs_panic :: bool
  rs_is_wake :: bool
  rs_timeout :: "nat option"

definition WAKERS :: nat where "WAKERS = 32"

text \<open>Waking the collected wakers; \<open>expect\<close> fails on one that is missing.\<close>

definition wake_list :: "run_state \<Rightarrow> run_state" where
  "wake_list s =
     (if None \<in> set (rs_list s)
      then s\<lparr>rs_panic := True, rs_woken := rs_woken s @ map the (takeWhile (\<lambda>x. x \<noteq> None) (rs_list s)), rs_list := []\<rparr>
      else s\<lparr>rs_woken := rs_woken s @ map the (rs_list s), rs_list := []\<rparr>)"

definition handle_entry :: "nat \<Rightarrow> run_state \<Rightarrow> run_state" where
  "handle_entry c s =
     (let k = w_clocks (rs_wheel s) c;
          s1 = s\<lparr>rs_list := rs_list s @ [c_waker k],
                 rs_wheel := (rs_wheel s)\<lparr>w_clocks := (w_clocks (rs_wheel s))(c := k\<lparr>c_waker := None, c_result := True\<rparr>)\<rparr>\<rparr>
      in if length (rs_list s1) = WAKERS then wake_list s1 else s1)"

text \<open>A failed \<open>expect\<close> unwinds out of the loop.\<close>

partial_function (option) run_loop :: "nat \<Rightarrow> run_state \<Rightarrow> run_state option" where
  "run_loop now s =
     (case wheel_poll now (rs_wheel s) of
        (ClockEntry c, w) \<Rightarrow>
          let s1 = handle_entry c (s\<lparr>rs_wheel := w, rs_is_wake := True\<rparr>) in if rs_panic s1 then Some s1 else run_loop now s1
      | (Duration d, w) \<Rightarrow> Some (s\<lparr>rs_wheel := w, rs_timeout := Some d\<rparr>)
      | (NoTimeOut, w) \<Rightarrow> Some (s\<lparr>rs_wheel := w\<rparr>))"

definition run_start :: "wheel \<Rightarrow> run_state" where
  "run_start w = \<lparr>rs_wheel = w, rs_list = [], rs_woken = [], rs_panic = False, rs_is_wake = False, rs_timeout = None\<rparr>"

text \<open>\<open>checked_duration_since\<close> in milliseconds, cut to a \<open>u64\<close>.\<close>

definition checked_millis_since :: "nat \<Rightarrow> nat \<Rightarrow> nat option" where
  "checked_millis_since start t = (if t < start then None else Some (min ((t - start) div 1000000) (2 ^ 64 - 1)))"

definition time_run :: "nat \<Rightarrow> nat \<Rightarrow> wheel \<Rightarrow> run_state option" where
  "time_run start_time instant w =
     (case checked_millis_since start_time instant of
        None \<Rightarrow> Some ((run_start w)\<lparr>rs_panic := True\<rparr>)
      | Some now \<Rightarrow>
          (case run_loop now (run_start w) of
             None \<Rightarrow> None
           | Some s \<Rightarrow>
               if rs_panic s then Some s
               else let s1 = wake_list s in Some (if rs_is_wake s1 then s1\<lparr>rs_timeout := Some 0\<rparr> else s1)))"

definition timer_register :: "nat \<Rightarrow> wheel \<Rightarrow> (wheel_error + nat) \<times> wheel" where
  "timer_register c w = wheel_insert c w"

definition timer_cancel :: "nat \<Rightarrow> wheel \<Rightarrow> wheel" where
  "timer_cancel c w = wheel_cancel c w"

section \<open>Sleep\<close>

record sleep =
  need_insert :: bool
  deadline :: nat

text \<open>Taken inside a runtime, where \<open>Handle::get_handle\<close> answers a handle.\<close>

definition new_timeout :: "nat \<Rightarrow> nat \<Rightarrow> sleep" where
  "new_timeout start_time d = \<lparr>need_insert = True, deadline = max d start_time\<rparr>"

definition TEN_YEARS :: nat where "TEN_YEARS = 86400 * 365 * 10 * 1000000000"

definition checked_add :: "nat \<Rightarrow> nat \<Rightarrow> nat \<Rightarrow> nat option" where
  "checked_add mx a b = (if a + b \<le> mx then Some (a + b) else None)"

definition sleep_until :: "nat \<Rightarrow> nat \<Rightarrow> sleep" where
  "sleep_until start_time instant = new_timeout start_time instant"

text \<open>\<open>deadline + TEN_YEARS\<close> panics when it overflows as well.\<close>

definition add_or_ten_years :: "nat \<Rightarrow> nat \<Rightarrow> nat \<Rightarrow> nat option" where
  "add_or_ten_years mx now duration =
     (case checked_add mx now duration of Some d \<Rightarrow> Some d | None \<Rightarrow> checked_add mx now TEN_YEARS)"

definition sleep_for :: "nat \<Rightarrow> nat \<Rightarrow> nat \<Rightarrow> nat \<Rightarrow> sleep option" where
  "sleep_for mx start_time now duration = map_option (new_timeout start_time) (add_or_ten_years mx now duration)"

text \<open>The clock of a sleep is the clock \<open>c\<close> of the wheel's memory.\<close>

definition set_clock :: "nat \<Rightarrow> clock \<Rightarrow> wheel \<Rightarrow> wheel" where
  "set_clock c k w = w\<lparr>w_clocks := (w_clocks w)(c := k)\<rparr>"

text \<open>None is a panic of \<open>unwrap\<close>: a deadline before the start of the driver.\<close>

definition sleep_poll :: "nat \<Rightarrow> nat \<Rightarrow> nat \<Rightarrow> sleep \<Rightarrow> wheel \<Rightarrow> (unit poll \<times> sleep \<times> wheel) option" where
  "sleep_poll start_time c waker sl w =
     (case (if need_insert sl
            then case checked_millis_since start_time (deadline sl) of
                   None \<Rightarrow> None
                 | Some ms \<Rightarrow>
                     let w1 = set_clock c ((w_clocks w c)\<lparr>c_expiration := ms, c_waker := Some waker\<rparr>) w in
                     (case timer_register c w1 of
                        (Inr _, w2) \<Rightarrow> Some (sl\<lparr>need_insert := False\<rparr>, w2)
                      | (Inl _, w2) \<Rightarrow> Some (sl\<lparr>need_insert := False\<rparr>, set_clock c ((w_clocks w2 c)\<lparr>c_result := True\<rparr>) w2))
            else Some (sl, w)) of
        None \<Rightarrow> None
      | Some (sl', w') \<Rightarrow> Some (if c_result (w_clocks w' c) then Ready () else Pending, sl', w'))"

definition sleep_reset :: "nat \<Rightarrow> nat \<Rightarrow> sleep \<Rightarrow> wheel \<Rightarrow> sleep \<times> wheel" where
  "sleep_reset c new_deadline sl w =
     (sl\<lparr>need_insert := True, deadline := new_deadline\<rparr>, set_clock c ((w_clocks w c)\<lparr>c_result := False\<rparr>) w)"

definition sleep_drop :: "nat \<Rightarrow> wheel \<Rightarrow> wheel" where
  "sleep_drop c w = timer_cancel c w"

section \<open>Timer and timeout\<close>

record timer =
  start_sleep :: sleep
  period :: nat

definition timer_at :: "nat \<Rightarrow> nat \<Rightarrow> nat \<Rightarrow> timer" where
  "timer_at start_time start p = \<lparr>start_sleep = sleep_until start_time start, period = p\<rparr>"

definition timer_now :: "nat \<Rightarrow> nat \<Rightarrow> nat \<Rightarrow> timer" where
  "timer_now start_time now p = timer_at start_time now p"

definition poll_next_period :: "nat \<Rightarrow> nat \<Rightarrow> nat \<Rightarrow> nat \<Rightarrow> timer \<Rightarrow> wheel \<Rightarrow> (nat poll \<times> timer \<times> wheel) option" where
  "poll_next_period mx start_time c waker t w =
     (case sleep_poll start_time c waker (start_sleep t) w of
        None \<Rightarrow> None
      | Some (Pending, sl, w1) \<Rightarrow> Some (Pending, t\<lparr>start_sleep := sl\<rparr>, w1)
      | Some (Ready _, sl, w1) \<Rightarrow>
          (case add_or_ten_years mx (deadline sl) (period t) of
             None \<Rightarrow> None
           | Some nxt \<Rightarrow> let (sl2, w2) = sleep_reset c nxt sl w1 in Some (Ready nxt, t\<lparr>start_sleep := sl2\<rparr>, w2)))"

definition timer_reset :: "nat \<Rightarrow> nat \<Rightarrow> nat \<Rightarrow> timer \<Rightarrow> wheel \<Rightarrow> (timer \<times> wheel) option" where
  "timer_reset mx c now t w =
     (case checked_add mx now (period t) of
        None \<Rightarrow> None
      | Some d \<Rightarrow> let (sl, w') = sleep_reset c d (start_sleep t) w in Some (t\<lparr>start_sleep := sl\<rparr>, w'))"

datatype timer_error = Elapsed

text \<open>\<open>v\<close> is what the inner future answers to this poll.\<close>

definition timeout_poll :: "'a poll \<Rightarrow> nat \<Rightarrow> nat \<Rightarrow> nat \<Rightarrow> sleep \<Rightarrow> wheel \<Rightarrow> ((timer_error + 'a) poll \<times> sleep \<times> wheel) option" where
  "timeout_poll v start_time c waker sl w =
     (case v of
        Ready r \<Rightarrow> Some (Ready (Inr r), sl, w)
      | Pending \<Rightarrow>
          (case sleep_poll start_time c waker sl w of
             None \<Rightarrow> None
           | Some (Ready _, sl', w') \<Rightarrow> Some (Ready (Inl Elapsed), sl', w')
           | Some (Pending, sl', w') \<Rightarrow> Some (Pending, sl', w')))"

section \<open>Sleeps, timers and the driver together\<close>

text \<open>The sleeps that exist, by their clock, and the instant of the latest run.\<close>

record time_sys =
  ts_wheel :: wheel
  ts_sleeps :: "nat \<Rightarrow> sleep option"
  ts_last :: nat

definition time_init :: "nat \<Rightarrow> time_sys" where
  "time_init start_time = \<lparr>ts_wheel = wheel_new, ts_sleeps = (\<lambda>_. None), ts_last = start_time\<rparr>"

definition linked :: "nat \<Rightarrow> wheel \<Rightarrow> bool" where
  "linked c w \<longleftrightarrow> c \<in> set (w_trigger w) \<or> (\<exists>lv \<in> set (w_levels w). \<exists>xs \<in> set (lv_slots lv). c \<in> set xs)"

datatype time_event =
    NewSleep nat nat
  | PollSleep nat nat
  | NextPeriod nat nat nat
  | ResetTimer nat nat nat
  | DropSleep nat
  | RunDriver nat

text \<open>Where the wheel reaches: about two years from the start of the driver.\<close>

definition in_reach :: "nat \<Rightarrow> nat \<Rightarrow> bool" where
  "in_reach start_time t = (case checked_millis_since start_time t of None \<Rightarrow> True | Some ms \<Rightarrow> ms < horizon)"

text \<open>
  One step, None when it cannot be taken. Deadlines stay in reach of the wheel, time does not run
  backwards, and a timer is reset only while its clock is not in the wheel.
\<close>

fun time_step :: "nat \<Rightarrow> nat \<Rightarrow> time_event \<Rightarrow> time_sys \<Rightarrow> time_sys option" where
  "time_step mx st (NewSleep c instant) s =
     (if ts_sleeps s c = None \<and> in_reach st instant
      then Some (s\<lparr>ts_wheel := set_clock c clock_new (ts_wheel s), ts_sleeps := (ts_sleeps s)(c := Some (sleep_until st instant))\<rparr>)
      else None)"
| "time_step mx st (PollSleep c wk) s =
     (case ts_sleeps s c of
        None \<Rightarrow> None
      | Some sl \<Rightarrow>
          (case sleep_poll st c wk sl (ts_wheel s) of
             None \<Rightarrow> None
           | Some (r, sl', w') \<Rightarrow> Some (s\<lparr>ts_wheel := w', ts_sleeps := (ts_sleeps s)(c := Some sl')\<rparr>)))"
| "time_step mx st (NextPeriod c wk p) s =
     (case ts_sleeps s c of
        None \<Rightarrow> None
      | Some sl \<Rightarrow>
          (case poll_next_period mx st c wk \<lparr>start_sleep = sl, period = p\<rparr> (ts_wheel s) of
             None \<Rightarrow> None
           | Some (r, t, w') \<Rightarrow>
               if in_reach st (deadline (start_sleep t))
               then Some (s\<lparr>ts_wheel := w', ts_sleeps := (ts_sleeps s)(c := Some (start_sleep t))\<rparr>) else None))"
| "time_step mx st (ResetTimer c now p) s =
     (case ts_sleeps s c of
        None \<Rightarrow> None
      | Some sl \<Rightarrow>
          (case timer_reset mx c now \<lparr>start_sleep = sl, period = p\<rparr> (ts_wheel s) of
             None \<Rightarrow> None
           | Some (t, w') \<Rightarrow>
               if \<not> linked c (ts_wheel s) \<and> st \<le> now \<and> in_reach st (deadline (start_sleep t))
               then Some (s\<lparr>ts_wheel := w', ts_sleeps := (ts_sleeps s)(c := Some (start_sleep t))\<rparr>) else None))"
| "time_step mx st (DropSleep c) s =
     (if ts_sleeps s c = None then None
      else Some (s\<lparr>ts_wheel := sleep_drop c (ts_wheel s), ts_sleeps := (ts_sleeps s)(c := None)\<rparr>))"
| "time_step mx st (RunDriver now) s =
     (if ts_last s \<le> now \<and> in_reach st now
      then map_option (\<lambda>r. s\<lparr>ts_wheel := rs_wheel r, ts_last := now\<rparr>) (time_run st now (ts_wheel s)) else None)"

inductive time_reach :: "nat \<Rightarrow> nat \<Rightarrow> time_sys \<Rightarrow> bool" for mx st where
  time_start: "time_reach mx st (time_init st)"
| time_next: "time_reach mx st s \<Longrightarrow> time_step mx st e s = Some s' \<Longrightarrow> time_reach mx st s'"

primrec time_events :: "nat \<Rightarrow> nat \<Rightarrow> time_event list \<Rightarrow> time_sys \<Rightarrow> time_sys option" where
  "time_events mx st [] s = Some s"
| "time_events mx st (e # es) s = (case time_step mx st e s of None \<Rightarrow> None | Some s' \<Rightarrow> time_events mx st es s')"

section \<open>Memory of the clocks\<close>

lemma set_clock_ok:
  assumes inv: "wheel_inv w" and k: "c_level k < 6" "c \<in> all_clocks w \<Longrightarrow> c_expiration k = exp_of w c \<and> c_level k = c_level (w_clocks w c) \<and> c_duration k = c_duration (w_clocks w c)"
  shows "wheel_inv (set_clock c k w)" "all_clocks (set_clock c k w) = all_clocks w"
proof -
  have sl: "slot_list (set_clock c k w) = slot_list w" by (simp add: slot_list_def set_clock_def fun_eq_iff)
  have mem: "members (set_clock c k w) = members w" by (simp add: members_def sl)
  have tr: "w_trigger (set_clock c k w) = w_trigger w" "w_elapsed (set_clock c k w) = w_elapsed w" by (simp_all add: set_clock_def)
  show "all_clocks (set_clock c k w) = all_clocks w" by (simp add: all_clocks_def mem tr)
  note d = slots_okD [OF wheel_invD(1) [OF inv]]
  have "shape_ok (set_clock c k w)" using wheel_invD(1) [OF inv] by (simp add: slots_ok_def shape_ok_def sl) (simp add: set_clock_def)
  moreover have "clock_at (w_elapsed w) l s (w_clocks (set_clock c k w) x)" if "l < 6" "s < 64" "x \<in> set (slot_list w l s)" for l s x
  proof -
    have "x \<in> all_clocks w" using that by (auto simp: all_clocks_def members_def)
    then show ?thesis using d(7) [OF that] k(2) by (auto simp: set_clock_def clock_at_def exp_of_def)
  qed
  ultimately have "slots_ok (w_elapsed w) (set_clock c k w)"
    using d(2,6,8) k(1) by (auto simp: slots_ok_def sl) (simp add: set_clock_def)
  moreover have "exp_of (set_clock c k w) x \<le> w_elapsed w" if "x \<in> set (w_trigger w)" for x
    using wheel_invD(3) [OF inv that] k(2) that by (auto simp: set_clock_def exp_of_def all_clocks_def)
  ultimately show "wheel_inv (set_clock c k w)" using wheel_invD(2) [OF inv] by (simp add: wheel_inv_def tr)
qed

lemma finite_all_clocks: "finite (all_clocks w)"
proof -
  have "members w = (\<Union>l<6. \<Union>s<64. set (slot_list w l s))" by (auto simp: members_def)
  then show ?thesis by (simp add: all_clocks_def)
qed

section \<open>One run of the driver\<close>

definition due :: "nat \<Rightarrow> wheel \<Rightarrow> nat set" where
  "due now w = {c \<in> all_clocks w. exp_of w c \<le> now}"

definition run_inv :: "nat \<Rightarrow> wheel \<Rightarrow> run_state \<Rightarrow> bool" where
  "run_inv now w0 s \<longleftrightarrow>
     (let w = rs_wheel s; gone = all_clocks w0 - all_clocks w in
      wheel_inv w \<and> w_elapsed w \<le> now \<and> exp_of w = exp_of w0 \<and> all_clocks w \<subseteq> all_clocks w0 \<and> gone \<subseteq> due now w0 \<and>
      (\<forall>c. c_result (w_clocks w c) \<longleftrightarrow> c \<in> gone \<or> c_result (w_clocks w0 c)) \<and>
      (\<forall>c. c \<notin> gone \<longrightarrow> c_waker (w_clocks w c) = c_waker (w_clocks w0 c)) \<and>
      None \<notin> set (rs_list s) \<and> mset (rs_woken s) + mset (map the (rs_list s)) = image_mset (\<lambda>c. the (c_waker (w_clocks w0 c))) (mset_set gone) \<and>
      \<not> rs_panic s \<and> (rs_is_wake s \<longleftrightarrow> gone \<noteq> {}) \<and> rs_timeout s = None)"

lemma wake_list_ok: "None \<notin> set (rs_list s) \<Longrightarrow> wake_list s = s\<lparr>rs_woken := rs_woken s @ map the (rs_list s), rs_list := []\<rparr>"
  by (simp add: wake_list_def)

lemma run_step_inv:
  assumes inv: "run_inv now w0 s" and wk: "\<And>c. c \<in> all_clocks w0 \<Longrightarrow> c_waker (w_clocks w0 c) \<noteq> None"
    and now: "now < horizon" and p: "wheel_poll now (rs_wheel s) = (ClockEntry c, w)"
  shows "run_inv now w0 (handle_entry c (s\<lparr>rs_wheel := w, rs_is_wake := True\<rparr>))"
    "all_clocks (rs_wheel (handle_entry c (s\<lparr>rs_wheel := w, rs_is_wake := True\<rparr>))) \<subset> all_clocks (rs_wheel s)"
proof -
  let ?ws = "rs_wheel s"
  have i: "wheel_inv ?ws" "w_elapsed ?ws \<le> now" "exp_of ?ws = exp_of w0" "all_clocks ?ws \<subseteq> all_clocks w0" "None \<notin> set (rs_list s)"
    "all_clocks w0 - all_clocks ?ws \<subseteq> due now w0" "\<not> rs_panic s" "rs_timeout s = None"
    "\<And>k. c_result (w_clocks ?ws k) \<longleftrightarrow> k \<in> all_clocks w0 - all_clocks ?ws \<or> c_result (w_clocks w0 k)"
    "\<And>k. k \<notin> all_clocks w0 - all_clocks ?ws \<Longrightarrow> c_waker (w_clocks ?ws k) = c_waker (w_clocks w0 k)"
    "mset (rs_woken s) + mset (map the (rs_list s)) = image_mset (\<lambda>c. the (c_waker (w_clocks w0 c))) (mset_set (all_clocks w0 - all_clocks ?ws))"
    using inv by (simp_all add: run_inv_def Let_def)
  have "poll_ok now ?ws (ClockEntry c, w)" using wheel_poll_ok [OF i(1,2) now] p by simp
  then have q: "wheel_inv w" "w_elapsed w \<le> now" "exp_of w = exp_of ?ws" "c \<in> all_clocks ?ws" "exp_of ?ws c \<le> now" "all_clocks w = all_clocks ?ws - {c}"
    "\<And>k. c_waker (w_clocks w k) = c_waker (w_clocks ?ws k) \<and> c_result (w_clocks w k) = c_result (w_clocks ?ws k)"
    by (simp_all add: poll_ok_def)
  let ?k = "(w_clocks w c)\<lparr>c_waker := None, c_result := True\<rparr>"
  define w' where "w' = set_clock c ?k w"
  have lv: "c_level ?k < 6" using slots_okD(8) [OF wheel_invD(1) [OF q(1)]] by simp
  have sc: "wheel_inv w'" "all_clocks w' = all_clocks w"
    unfolding w'_def by (rule set_clock_ok [OF q(1)]; use lv q(6) in auto)+
  have f: "w_elapsed w' = w_elapsed w" "exp_of w' = exp_of w" "\<And>k. w_clocks w' k = (if k = c then ?k else w_clocks w k)"
    by (auto simp: w'_def set_clock_def exp_of_def)
  obtain x where x: "c_waker (w_clocks w c) = Some x" "c_waker (w_clocks w0 c) = Some x"
    using wk [of c] q(4,7) i(4) i(10) [of c] by auto
  define s1 where "s1 = s\<lparr>rs_wheel := w, rs_is_wake := True, rs_list := rs_list s @ [Some x], rs_wheel := w'\<rparr>"
  have he: "handle_entry c (s\<lparr>rs_wheel := w, rs_is_wake := True\<rparr>) = (if length (rs_list s1) = WAKERS then wake_list s1 else s1)"
    by (simp add: handle_entry_def Let_def s1_def w'_def set_clock_def x(1))
  have g: "all_clocks w0 - all_clocks w' = insert c (all_clocks w0 - all_clocks ?ws)" "c \<notin> all_clocks w0 - all_clocks ?ws"
    using q(4,6) sc(2) i(4) by auto
  have "run_inv now w0 s1"
    unfolding run_inv_def Let_def
    using i q sc f x g finite_all_clocks [of w0]
    by (auto simp: s1_def due_def ac_simps)
  moreover have "run_inv now w0 (wake_list s1)" using calculation by (simp add: run_inv_def Let_def wake_list_ok)
  ultimately show "run_inv now w0 (handle_entry c (s\<lparr>rs_wheel := w, rs_is_wake := True\<rparr>))" by (simp add: he)
  have "rs_wheel (wake_list s1) = rs_wheel s1" by (simp add: wake_list_def)
  then show "all_clocks (rs_wheel (handle_entry c (s\<lparr>rs_wheel := w, rs_is_wake := True\<rparr>))) \<subset> all_clocks ?ws"
    using sc(2) q(4,6) by (auto simp: he s1_def)
qed


lemma run_loop_ok:
  assumes "run_inv now w0 s" "\<And>c. c \<in> all_clocks w0 \<Longrightarrow> c_waker (w_clocks w0 c) \<noteq> None" "now < horizon"
  shows "\<exists>s'. run_loop now s = Some s' \<and> run_inv now w0 (s'\<lparr>rs_timeout := None\<rparr>) \<and>
    (case rs_timeout s' of None \<Rightarrow> all_clocks (rs_wheel s') = {} | Some d \<Rightarrow> 0 < d \<and> (\<forall>c \<in> all_clocks (rs_wheel s'). now + d \<le> exp_of w0 c))"
  using assms
proof (induction "card (all_clocks (rs_wheel s))" arbitrary: s rule: less_induct)
  case less
  let ?w = "rs_wheel s"
  have i: "wheel_inv ?w" "w_elapsed ?w \<le> now" "exp_of ?w = exp_of w0" "rs_timeout s = None" using less(2) by (simp_all add: run_inv_def Let_def)
  obtain r w where p: "wheel_poll now ?w = (r, w)" by force
  have ok: "poll_ok now ?w (r, w)" using wheel_poll_ok [OF i(1,2) less(4)] p by simp
  show ?case
  proof (cases r)
    case (ClockEntry c)
    note st = run_step_inv [OF less(2,3,4) p [unfolded ClockEntry]]
    have "card (all_clocks (rs_wheel (handle_entry c (s\<lparr>rs_wheel := w, rs_is_wake := True\<rparr>)))) < card (all_clocks ?w)"
      using st(2) finite_all_clocks by (simp add: psubset_card_mono)
    moreover have "\<not> rs_panic (handle_entry c (s\<lparr>rs_wheel := w, rs_is_wake := True\<rparr>))" using st(1) by (simp add: run_inv_def Let_def)
    ultimately show ?thesis using less(1) [OF _ st(1) less(3,4)] p ClockEntry by (simp add: run_loop.simps [of now s])
  next
    case (Duration d)
    then have "run_loop now s = Some (s\<lparr>rs_wheel := w, rs_timeout := Some d\<rparr>)" using p by (simp add: run_loop.simps)
    moreover have "run_inv now w0 (s\<lparr>rs_wheel := w, rs_timeout := None\<rparr>)"
      using less(2) ok Duration by (auto simp: run_inv_def Let_def poll_ok_def)
    ultimately show ?thesis using ok Duration i(3) by (auto simp: poll_ok_def)
  next
    case NoTimeOut
    then have "run_loop now s = Some (s\<lparr>rs_wheel := w\<rparr>)" using p by (simp add: run_loop.simps)
    moreover have "run_inv now w0 (s\<lparr>rs_wheel := w, rs_timeout := None\<rparr>)"
      using less(2) ok NoTimeOut by (auto simp: run_inv_def Let_def poll_ok_def)
    ultimately show ?thesis using ok NoTimeOut i(4) by (auto simp: poll_ok_def)
  qed
qed

definition run_result :: "nat \<Rightarrow> wheel \<Rightarrow> run_state \<Rightarrow> bool" where
  "run_result now w s \<longleftrightarrow>
     (let w' = rs_wheel s in
      wheel_inv w' \<and> w_elapsed w' \<le> now \<and> exp_of w' = exp_of w \<and> all_clocks w' = all_clocks w - due now w \<and>
      (\<forall>c. c_result (w_clocks w' c) \<longleftrightarrow> c \<in> due now w \<or> c_result (w_clocks w c)) \<and>
      (\<forall>c. c \<notin> due now w \<longrightarrow> c_waker (w_clocks w' c) = c_waker (w_clocks w c)) \<and>
      mset (rs_woken s) = image_mset (\<lambda>c. the (c_waker (w_clocks w c))) (mset_set (due now w)) \<and> \<not> rs_panic s \<and>
      (case rs_timeout s of
         None \<Rightarrow> all_clocks w = {}
       | Some d \<Rightarrow> (if due now w \<noteq> {} then d = 0 else 0 < d \<and> (\<forall>c \<in> all_clocks w'. now + d \<le> exp_of w c))))"

lemma time_run_ok:
  assumes inv: "wheel_inv w" "w_elapsed w \<le> now" "now < horizon" and ms: "checked_millis_since st t = Some now" and wk: "\<And>c. c \<in> all_clocks w \<Longrightarrow> c_waker (w_clocks w c) \<noteq> None"
  shows "\<exists>s. time_run st t w = Some s \<and> run_result now w s"
proof -
  have "run_inv now w (run_start w)" using inv by (simp add: run_inv_def run_start_def Let_def)
  from run_loop_ok [OF this wk inv(3)] obtain s where s: "run_loop now (run_start w) = Some s" "run_inv now w (s\<lparr>rs_timeout := None\<rparr>)"
    "case rs_timeout s of None \<Rightarrow> all_clocks (rs_wheel s) = {} | Some d \<Rightarrow> 0 < d \<and> (\<forall>c \<in> all_clocks (rs_wheel s). now + d \<le> exp_of w c)" by blast
  let ?w = "rs_wheel s"
  have i: "wheel_inv ?w" "w_elapsed ?w \<le> now" "exp_of ?w = exp_of w" "all_clocks ?w \<subseteq> all_clocks w" "None \<notin> set (rs_list s)"
    "all_clocks w - all_clocks ?w \<subseteq> due now w" "\<not> rs_panic s" "rs_is_wake s \<longleftrightarrow> all_clocks w - all_clocks ?w \<noteq> {}"
    "\<forall>k. c_result (w_clocks ?w k) \<longleftrightarrow> k \<in> all_clocks w - all_clocks ?w \<or> c_result (w_clocks w k)"
    "\<forall>k. k \<notin> all_clocks w - all_clocks ?w \<longrightarrow> c_waker (w_clocks ?w k) = c_waker (w_clocks w k)"
    "mset (rs_woken s) + mset (map the (rs_list s)) = image_mset (\<lambda>c. the (c_waker (w_clocks w c))) (mset_set (all_clocks w - all_clocks ?w))"
    using s(2) by (simp_all add: run_inv_def Let_def)
  have later: "now < exp_of w c" if "c \<in> all_clocks ?w" for c using s(3) that by (force split: option.splits)
  have gone: "all_clocks w - all_clocks ?w = due now w" using i(6) later by (fastforce simp: due_def)
  have rest: "all_clocks ?w = all_clocks w - due now w" using gone i(4) by blast
  let ?s = "if rs_is_wake s then (wake_list s)\<lparr>rs_timeout := Some 0\<rparr> else wake_list s"
  have "time_run st t w = Some ?s" by (simp add: time_run_def ms i(7) s(1) Let_def wake_list_ok [OF i(5)])
  moreover have "run_result now w ?s"
    using i(1-3,7-) s(3) rest unfolding gone run_result_def Let_def
    by (cases "due now w = {}") (auto simp: wake_list_ok [OF i(5)] split: option.splits)
  ultimately show ?thesis by blast
qed


section \<open>Invariant of the sleeps\<close>

definition sleep_inv :: "nat \<Rightarrow> nat \<Rightarrow> wheel \<Rightarrow> nat \<Rightarrow> sleep option \<Rightarrow> bool" where
  "sleep_inv st now w c x \<longleftrightarrow>
     (case x of
        None \<Rightarrow> c \<notin> all_clocks w
      | Some sl \<Rightarrow>
          \<exists>ms. checked_millis_since st (deadline sl) = Some ms \<and> ms < horizon \<and>
            (if need_insert sl then c \<notin> all_clocks w \<and> \<not> c_result (w_clocks w c)
             else if c \<in> all_clocks w then exp_of w c = ms \<and> c_waker (w_clocks w c) \<noteq> None \<and> \<not> c_result (w_clocks w c)
             else c_result (w_clocks w c) \<and> ms \<le> now))"

definition time_inv :: "nat \<Rightarrow> time_sys \<Rightarrow> bool" where
  "time_inv st s \<longleftrightarrow>
     (\<exists>now. checked_millis_since st (ts_last s) = Some now \<and> now < horizon \<and> wheel_inv (ts_wheel s) \<and> w_elapsed (ts_wheel s) \<le> now \<and>
       (\<forall>c. sleep_inv st now (ts_wheel s) c (ts_sleeps s c)))"

lemma linked_iff: "wheel_inv w \<Longrightarrow> linked c w \<longleftrightarrow> c \<in> all_clocks w"
proof -
  assume "wheel_inv w"
  note d = slots_okD [OF wheel_invD(1) [OF this]]
  have "(\<exists>lv \<in> set (w_levels w). \<exists>xs \<in> set (lv_slots lv). c \<in> set xs) \<longleftrightarrow> c \<in> members w"
  proof
    assume "c \<in> members w"
    then obtain l s where "l < 6" "s < 64" "c \<in> set (lv_slots (w_levels w ! l) ! s)" by (auto simp: members_def slot_list_def)
    then show "\<exists>lv \<in> set (w_levels w). \<exists>xs \<in> set (lv_slots lv). c \<in> set xs" using d(1,4) by (metis nth_mem)
  next
    assume "\<exists>lv \<in> set (w_levels w). \<exists>xs \<in> set (lv_slots lv). c \<in> set xs"
    then obtain l s where "l < length (w_levels w)" "s < length (lv_slots (w_levels w ! l))" "c \<in> set (lv_slots (w_levels w ! l) ! s)"
      by (metis in_set_conv_nth)
    then show "c \<in> members w" using d(1,4) by (auto simp: members_def slot_list_def)
  qed
  then show ?thesis by (auto simp: linked_def all_clocks_def)
qed

lemma time_invD:
  assumes "time_inv st s" "checked_millis_since st (ts_last s) = Some now"
  shows "now < horizon" "wheel_inv (ts_wheel s)" "w_elapsed (ts_wheel s) \<le> now" "sleep_inv st now (ts_wheel s) c (ts_sleeps s c)"
  using assms by (auto simp: time_inv_def)

lemma time_invE:
  assumes "time_inv st s" obtains now where "checked_millis_since st (ts_last s) = Some now"
  using assms by (auto simp: time_inv_def)

text \<open>What a change of the wheel on behalf of one clock has to leave alone.\<close>

definition only_clock :: "nat \<Rightarrow> wheel \<Rightarrow> wheel \<Rightarrow> bool" where
  "only_clock c w w' \<longleftrightarrow> wheel_inv w' \<and> w_elapsed w' = w_elapsed w \<and> all_clocks w' - {c} = all_clocks w - {c} \<and>
     (\<forall>k. k \<noteq> c \<longrightarrow> exp_of w' k = exp_of w k \<and> c_waker (w_clocks w' k) = c_waker (w_clocks w k) \<and> c_result (w_clocks w' k) = c_result (w_clocks w k))"

lemma only_clock_trans: "only_clock c w w1 \<Longrightarrow> only_clock c w1 w2 \<Longrightarrow> only_clock c w w2"
  by (auto simp: only_clock_def)

lemma only_clock_sleep:
  assumes "only_clock c w w'" "k \<noteq> c" shows "sleep_inv st now w' k x \<longleftrightarrow> sleep_inv st now w k x"
proof -
  have "k \<in> all_clocks w' \<longleftrightarrow> k \<in> all_clocks w" using assms by (auto simp: only_clock_def)
  then show ?thesis using assms by (simp add: sleep_inv_def only_clock_def split: option.splits)
qed

lemma time_inv_upd:
  assumes inv: "time_inv st s" and now: "checked_millis_since st (ts_last s) = Some now"
    and o: "only_clock c (ts_wheel s) w'" and c: "sleep_inv st now w' c x"
  shows "time_inv st (s\<lparr>ts_wheel := w', ts_sleeps := (ts_sleeps s)(c := x)\<rparr>)"
proof -
  note i = time_invD [OF inv now]
  have "sleep_inv st now w' k (((ts_sleeps s)(c := x)) k)" for k using only_clock_sleep [OF o] c i(4) [of k] by auto
  then show ?thesis unfolding time_inv_def using now i(1,3) o by (simp add: only_clock_def)
qed

lemma set_clock_only:
  assumes "wheel_inv w" "c_level k < 6" "c \<notin> all_clocks w"
  shows "only_clock c w (set_clock c k w)" "all_clocks (set_clock c k w) = all_clocks w" "w_clocks (set_clock c k w) c = k"
proof -
  have "c \<in> all_clocks w \<Longrightarrow> False" using assms(3) by simp
  note sc = set_clock_ok [OF assms(1,2)]
  show a: "all_clocks (set_clock c k w) = all_clocks w" using sc(2) assms(3) by blast
  show "only_clock c w (set_clock c k w)" using sc(1) assms(3) a by (auto simp: only_clock_def) (simp_all add: set_clock_def exp_of_def)
  show "w_clocks (set_clock c k w) c = k" by (simp add: set_clock_def)
qed

lemma insert_only:
  assumes "wheel_inv w" "c \<notin> all_clocks w" "exp_of w c < horizon" "timer_register c w = (Inr e, w')"
  shows "only_clock c w w'" "c \<in> all_clocks w'" "exp_of w' = exp_of w"
    "c_waker (w_clocks w' c) = c_waker (w_clocks w c)" "c_result (w_clocks w' c) = c_result (w_clocks w c)"
  using wheel_insert_ok [OF assms(1-3)] assms(4) by (auto simp: only_clock_def timer_register_def)

lemma sleep_poll_ok:
  assumes inv: "time_inv st s" and sl: "ts_sleeps s c = Some sl"
  shows "\<exists>r w'. sleep_poll st c wk sl (ts_wheel s) = Some (r, sl\<lparr>need_insert := False\<rparr>, w') \<and>
     time_inv st (s\<lparr>ts_wheel := w', ts_sleeps := (ts_sleeps s)(c := Some (sl\<lparr>need_insert := False\<rparr>))\<rparr>) \<and>
     (r = Ready () \<longleftrightarrow> c \<notin> all_clocks w') \<and> (need_insert sl \<and> c \<in> all_clocks w' \<longrightarrow> c_waker (w_clocks w' c) = Some wk)"
proof -
  obtain now where now: "checked_millis_since st (ts_last s) = Some now" using time_invE [OF inv] .
  let ?w = "ts_wheel s" and ?sl = "sl\<lparr>need_insert := False\<rparr>"
  note i = time_invD [OF inv now]
  obtain ms where ms: "checked_millis_since st (deadline sl) = Some ms" "ms < horizon" using i(4) [of c] sl by (auto simp: sleep_inv_def)
  show ?thesis
  proof (cases "need_insert sl")
    case False
    then have e: "?sl = sl" by simp
    have "c_result (w_clocks ?w c) \<longleftrightarrow> c \<notin> all_clocks ?w" using i(4) [of c] sl False by (auto simp: sleep_inv_def split: if_splits)
    moreover have "s\<lparr>ts_wheel := ?w, ts_sleeps := (ts_sleeps s)(c := Some sl)\<rparr> = s" using sl by (simp add: fun_upd_idem)
    ultimately show ?thesis unfolding e using inv False by (auto simp: sleep_poll_def)
  next
    case True
    have c: "c \<notin> all_clocks ?w" "\<not> c_result (w_clocks ?w c)" using i(4) [of c] sl True by (auto simp: sleep_inv_def)
    let ?k = "(w_clocks ?w c)\<lparr>c_expiration := ms, c_waker := Some wk\<rparr>"
    define w1 where "w1 = set_clock c ?k ?w"
    have "c_level ?k < 6" using slots_okD(8) [OF wheel_invD(1) [OF i(2)]] by simp
    note s1 = set_clock_only [OF i(2) this c(1), folded w1_def]
    have w1: "wheel_inv w1" "w_elapsed w1 = w_elapsed ?w" "c \<notin> all_clocks w1" "exp_of w1 c = ms" using s1 c(1) by (simp_all add: only_clock_def exp_of_def)
    obtain r w2 where reg: "timer_register c w1 = (r, w2)" by force
    show ?thesis
    proof (cases r)
      case (Inr e)
      note n = insert_only [OF w1(1,3) _ reg [unfolded Inr]]
      have o: "only_clock c ?w w2" using only_clock_trans [OF s1(1)] n w1 ms(2) by blast
      have cl: "c \<in> all_clocks w2" "exp_of w2 c = ms" "c_waker (w_clocks w2 c) = Some wk" "\<not> c_result (w_clocks w2 c)" using n w1(4) ms(2) s1(3) c(2) by simp_all
      then have "sleep_inv st now w2 c (Some ?sl)" using ms by (simp add: sleep_inv_def)
      then show ?thesis using time_inv_upd [OF inv now o] cl True ms(1) reg Inr by (simp add: sleep_poll_def w1_def [symmetric])
    next
      case (Inl x)
      have e: "ms \<le> w_elapsed w1" "w2 = w1" using wheel_insert_ok [OF w1(1,3)] reg Inl ms(2) w1(4) by (simp_all add: timer_register_def)
      let ?k2 = "(w_clocks w1 c)\<lparr>c_result := True\<rparr>"
      have "c_level ?k2 < 6" using slots_okD(8) [OF wheel_invD(1) [OF w1(1)]] by simp
      note s2 = set_clock_only [OF w1(1) this w1(3)]
      have "sleep_inv st now (set_clock c ?k2 w1) c (Some ?sl)" using ms e w1(2,3) i(3) s2(2,3) by (simp add: sleep_inv_def)
      then show ?thesis using time_inv_upd [OF inv now only_clock_trans [OF s1(1) s2(1)]] True ms(1) reg Inl e s2(2,3) w1(3)
        by (simp add: sleep_poll_def w1_def [symmetric])
    qed
  qed
qed

lemma sleep_reset_ok:
  assumes inv: "time_inv st s" and sl: "ts_sleeps s c = Some sl" and c: "c \<notin> all_clocks (ts_wheel s)"
    and d: "st \<le> d" "in_reach st d" and r: "sleep_reset c d sl (ts_wheel s) = (sl', w')"
  shows "time_inv st (s\<lparr>ts_wheel := w', ts_sleeps := (ts_sleeps s)(c := Some sl')\<rparr>)"
proof -
  obtain now where now: "checked_millis_since st (ts_last s) = Some now" using time_invE [OF inv] .
  note i = time_invD [OF inv now]
  let ?k = "(w_clocks (ts_wheel s) c)\<lparr>c_result := False\<rparr>"
  have "c_level ?k < 6" using slots_okD(8) [OF wheel_invD(1) [OF i(2)]] by simp
  note s1 = set_clock_only [OF i(2) this c]
  obtain ms where "checked_millis_since st d = Some ms" "ms < horizon" using d by (auto simp: in_reach_def checked_millis_since_def)
  then have "sleep_inv st now w' c (Some sl')" using r s1(2,3) c by (auto simp: sleep_reset_def sleep_inv_def)
  moreover have "w' = set_clock c ?k (ts_wheel s)" using r by (simp add: sleep_reset_def)
  ultimately show ?thesis using time_inv_upd [OF inv now] s1(1) by blast
qed


lemma millis_mono: "checked_millis_since st a = Some x \<Longrightarrow> a \<le> b \<Longrightarrow> checked_millis_since st b = Some y \<Longrightarrow> x \<le> y"
  by (auto simp: checked_millis_since_def split: if_splits intro: div_le_mono min.mono)

lemma run_result_inv:
  assumes inv: "time_inv st s" and t: "ts_last s \<le> t" "in_reach st t"
  shows "\<exists>r. time_run st t (ts_wheel s) = Some r \<and> time_inv st (s\<lparr>ts_wheel := rs_wheel r, ts_last := t\<rparr>) \<and>
    (\<exists>now. checked_millis_since st t = Some now \<and> run_result now (ts_wheel s) r)"
proof -
  let ?w = "ts_wheel s"
  obtain last where last: "checked_millis_since st (ts_last s) = Some last" using time_invE [OF inv] .
  then have "st \<le> t" using t(1) by (auto simp: checked_millis_since_def split: if_splits)
  then obtain now where now: "checked_millis_since st t = Some now" by (simp add: checked_millis_since_def)
  then have h: "now < horizon" and le: "last \<le> now" using t millis_mono [OF last t(1) now] by (simp_all add: in_reach_def)
  note i = time_invD [OF inv last]
  have wk: "c_waker (w_clocks ?w c) \<noteq> None" if "c \<in> all_clocks ?w" for c
    using i(4) [of c] that by (auto simp: sleep_inv_def split: option.splits if_splits)
  obtain r where r: "time_run st t ?w = Some r" "run_result now ?w r" using time_run_ok [OF i(2) le_trans [OF i(3) le] h now wk] by blast
  let ?v = "rs_wheel r"
  have v: "wheel_inv ?v" "w_elapsed ?v \<le> now" "exp_of ?v = exp_of ?w" "all_clocks ?v = all_clocks ?w - due now ?w"
    "\<And>c. c_result (w_clocks ?v c) \<longleftrightarrow> c \<in> due now ?w \<or> c_result (w_clocks ?w c)"
    "\<And>c. c \<notin> due now ?w \<Longrightarrow> c_waker (w_clocks ?v c) = c_waker (w_clocks ?w c)" using r(2) by (simp_all add: run_result_def Let_def)
  have "sleep_inv st now ?v c (ts_sleeps s c)" for c
    using i(4) [of c] v(3,4) v(5,6) [of c] le by (auto simp: sleep_inv_def due_def split: option.splits if_splits)
  then have "time_inv st (s\<lparr>ts_wheel := ?v, ts_last := t\<rparr>)" unfolding time_inv_def using now h v(1,2) by simp
  then show ?thesis using r now by blast
qed

lemma new_sleep_ok:
  assumes inv: "time_inv st s" and c: "ts_sleeps s c = None" and d: "in_reach st d"
  shows "time_inv st (s\<lparr>ts_wheel := set_clock c clock_new (ts_wheel s), ts_sleeps := (ts_sleeps s)(c := Some (sleep_until st d))\<rparr>)"
proof -
  obtain now where now: "checked_millis_since st (ts_last s) = Some now" using time_invE [OF inv] .
  note i = time_invD [OF inv now]
  have nl: "c \<notin> all_clocks (ts_wheel s)" using i(4) [of c] c by (simp add: sleep_inv_def)
  have "c_level clock_new < 6" by (simp add: clock_new_def)
  note s1 = set_clock_only [OF i(2) this nl]
  have "\<exists>ms < horizon. checked_millis_since st (max d st) = Some ms"
    using d by (cases "d < st") (auto simp: in_reach_def checked_millis_since_def horizon_def max_def)
  then have "sleep_inv st now (set_clock c clock_new (ts_wheel s)) c (Some (sleep_until st d))"
    using s1(2,3) nl by (auto simp: sleep_inv_def sleep_until_def new_timeout_def clock_new_def)
  then show ?thesis using time_inv_upd [OF inv now s1(1)] by blast
qed

lemma drop_sleep_ok:
  assumes inv: "time_inv st s"
  shows "time_inv st (s\<lparr>ts_wheel := sleep_drop c (ts_wheel s), ts_sleeps := (ts_sleeps s)(c := None)\<rparr>)"
proof -
  obtain now where now: "checked_millis_since st (ts_last s) = Some now" using time_invE [OF inv] .
  note w = wheel_cancel_ok [OF time_invD(2) [OF inv now], of c]
  have "only_clock c (ts_wheel s) (sleep_drop c (ts_wheel s))"
    unfolding only_clock_def sleep_drop_def timer_cancel_def using w by (simp add: exp_of_def)
  moreover have "sleep_inv st now (sleep_drop c (ts_wheel s)) c None" using w(2) by (simp add: sleep_inv_def sleep_drop_def timer_cancel_def)
  ultimately show ?thesis using time_inv_upd [OF inv now] by blast
qed

lemma next_period_ok:
  assumes inv: "time_inv st s" and sl: "ts_sleeps s c = Some sl"
    and p: "poll_next_period mx st c wk \<lparr>start_sleep = sl, period = p\<rparr> (ts_wheel s) = Some (r, t, w')" and d: "in_reach st (deadline (start_sleep t))"
  shows "time_inv st (s\<lparr>ts_wheel := w', ts_sleeps := (ts_sleeps s)(c := Some (start_sleep t))\<rparr>)"
proof -
  let ?sl = "sl\<lparr>need_insert := False\<rparr>"
  obtain q w1 where q: "sleep_poll st c wk sl (ts_wheel s) = Some (q, ?sl, w1)"
    "time_inv st (s\<lparr>ts_wheel := w1, ts_sleeps := (ts_sleeps s)(c := Some ?sl)\<rparr>)" "q = Ready () \<longleftrightarrow> c \<notin> all_clocks w1"
    using sleep_poll_ok [OF inv sl] by blast
  show ?thesis
  proof (cases q)
    case Pending
    then show ?thesis using p q by (auto simp: poll_next_period_def)
  next
    case (Ready u)
    then obtain nxt where n: "add_or_ten_years mx (deadline sl) p = Some nxt" "(start_sleep t, w') = sleep_reset c nxt ?sl w1"
      using p q(1) by (auto simp: poll_next_period_def split: option.splits prod.splits)
    have "st \<le> deadline sl" using q(2) by (auto simp: time_inv_def sleep_inv_def checked_millis_since_def dest: spec [of _ c] split: if_splits)
    then have "st \<le> nxt" using n(1) by (auto simp: add_or_ten_years_def checked_add_def split: option.splits if_splits)
    moreover have "deadline (start_sleep t) = nxt" using n(2) by (simp add: sleep_reset_def)
    ultimately show ?thesis
      using sleep_reset_ok [OF q(2), where c = c and d = nxt and sl = ?sl and sl' = "start_sleep t" and w' = w'] q(3) Ready n(2) d by simp
  qed
qed

lemma time_step_inv: "time_inv st s \<Longrightarrow> time_step mx st e s = Some s' \<Longrightarrow> time_inv st s'"
proof (induction mx st e s rule: time_step.induct)
  case (1 mx st c d s)
  then show ?case using new_sleep_ok by (auto split: if_splits)
next
  case (2 mx st c wk s)
  then show ?case using sleep_poll_ok [OF 2(1), of c _ wk] by (fastforce split: option.splits)
next
  case (3 mx st c wk p s)
  then show ?case using next_period_ok [OF 3(1)] by (auto split: option.splits prod.splits if_splits)
next
  case (4 mx st c now p s)
  then obtain sl t w' where r: "ts_sleeps s c = Some sl" "timer_reset mx c now \<lparr>start_sleep = sl, period = p\<rparr> (ts_wheel s) = Some (t, w')"
    "\<not> linked c (ts_wheel s)" "st \<le> now" "in_reach st (deadline (start_sleep t))" "s' = s\<lparr>ts_wheel := w', ts_sleeps := (ts_sleeps s)(c := Some (start_sleep t))\<rparr>"
    by (auto split: option.splits prod.splits if_splits)
  then have "(start_sleep t, w') = sleep_reset c (now + p) sl (ts_wheel s)" "deadline (start_sleep t) = now + p"
    by (auto simp: timer_reset_def sleep_reset_def checked_add_def split: if_splits)
  moreover have "c \<notin> all_clocks (ts_wheel s)" using r(3) 4(1) linked_iff by (auto simp: time_inv_def)
  ultimately show ?case using sleep_reset_ok [OF 4(1) r(1), where d = "now + p" and sl' = "start_sleep t" and w' = w'] r(4-6) by simp
next
  case (5 mx st c s)
  then show ?case using drop_sleep_ok by (auto split: if_splits)
next
  case (6 mx st now s)
  then show ?case using run_result_inv [OF 6(1), of now] by (auto split: if_splits)
qed

lemma time_reach_inv: "time_reach mx st s \<Longrightarrow> time_inv st s"
proof (induction rule: time_reach.induct)
  case time_start
  then show ?case using wheel_new_inv
    by (auto simp: time_inv_def time_init_def checked_millis_since_def horizon_def sleep_inv_def) (simp add: wheel_new_def)
qed (rule time_step_inv)

lemma time_events_reach: "time_reach mx st s \<Longrightarrow> time_events mx st es s = Some s' \<Longrightarrow> time_reach mx st s'"
  by (induction es arbitrary: s) (auto split: option.splits intro: time_next)


section \<open>Properties\<close>

text \<open>
  An example: three sleeps, two of them polled, the last period of a timer, and the wheel run once.
  Times are in nanoseconds.
\<close>

definition time_example :: "time_event list" where
  "time_example = [NewSleep 0 5000000, PollSleep 0 70, NewSleep 1 100900000, PollSleep 1 71, NewSleep 2 0,
     NextPeriod 2 72 300000000, RunDriver 4999999]"

definition time_example_sys :: time_sys where
  "time_example_sys = the (time_events (2 ^ 80) 1000 time_example (time_init 1000))"

declare run_loop.simps [code]

lemma time_example_reach: "time_reach (2 ^ 80) 1000 time_example_sys"
proof -
  have "time_events (2 ^ 80) 1000 time_example (time_init 1000) \<noteq> None" by code_simp
  then show ?thesis unfolding time_example_sys_def using time_events_reach [OF time_start] by fastforce
qed

text \<open>
  C28: In every state the sleeps, timers and runs of the driver can reach, a run at a later instant
  \<open>t\<close> ends without a panic. It takes out of the wheel exactly the clocks that have expired at the millisecond
  of \<open>t\<close>, sets their result, and wakes the waker each of them holds, once. The answer is a zero
  duration when something was woken; otherwise a positive time that does not pass the next expiration;
  and nothing exactly when the wheel is empty.
\<close>

theorem driver_run_wakes_due:
  assumes "time_reach mx st s" "ts_last s \<le> t" "in_reach st t"
  shows "\<exists>r now. checked_millis_since st t = Some now \<and> time_run st t (ts_wheel s) = Some r \<and> \<not> rs_panic r \<and>
    all_clocks (rs_wheel r) = {c \<in> all_clocks (ts_wheel s). now < exp_of (ts_wheel s) c} \<and> exp_of (rs_wheel r) = exp_of (ts_wheel s) \<and>
    (\<forall>c. c_result (w_clocks (rs_wheel r) c) \<longleftrightarrow> c \<in> due now (ts_wheel s) \<or> c_result (w_clocks (ts_wheel s) c)) \<and>
    mset (map Some (rs_woken r)) = image_mset (\<lambda>c. c_waker (w_clocks (ts_wheel s) c)) (mset_set (due now (ts_wheel s))) \<and>
    (case rs_timeout r of
       None \<Rightarrow> all_clocks (ts_wheel s) = {}
     | Some d \<Rightarrow> if due now (ts_wheel s) \<noteq> {} then d = 0 else 0 < d \<and> (\<forall>c \<in> all_clocks (rs_wheel r). now + d \<le> exp_of (ts_wheel s) c))"
proof -
  note inv = time_reach_inv [OF assms(1)]
  from run_result_inv [OF inv assms(2,3)] obtain r now
    where r: "time_run st t (ts_wheel s) = Some r" "checked_millis_since st t = Some now" "run_result now (ts_wheel s) r" by blast
  obtain l where l: "checked_millis_since st (ts_last s) = Some l" using time_invE [OF inv] .
  have wk: "\<exists>x. c_waker (w_clocks (ts_wheel s) c) = Some x" if "c \<in> all_clocks (ts_wheel s)" for c
    using time_invD(4) [OF inv l, of c] that by (auto simp: sleep_inv_def split: option.splits if_splits)
  have "mset (map Some (rs_woken r)) = image_mset (Some \<circ> (\<lambda>c. the (c_waker (w_clocks (ts_wheel s) c)))) (mset_set (due now (ts_wheel s)))"
    using r(3) by (simp add: run_result_def Let_def multiset.map_comp)
  also have "\<dots> = image_mset (\<lambda>c. c_waker (w_clocks (ts_wheel s) c)) (mset_set (due now (ts_wheel s)))"
  proof (rule image_mset_cong)
    fix c assume "c \<in># mset_set (due now (ts_wheel s))"
    then have "c \<in> all_clocks (ts_wheel s)" using finite_subset [OF _ finite_all_clocks, of "due now (ts_wheel s)" "ts_wheel s"] by (auto simp: due_def)
    then show "(Some \<circ> (\<lambda>c. the (c_waker (w_clocks (ts_wheel s) c)))) c = c_waker (w_clocks (ts_wheel s) c)" using wk by fastforce
  qed
  finally have m: "mset (map Some (rs_woken r)) = \<dots>" .
  have d: "all_clocks (ts_wheel s) - due now (ts_wheel s) = {c \<in> all_clocks (ts_wheel s). now < exp_of (ts_wheel s) c}" by (auto simp: due_def)
  show ?thesis using r(3) m d unfolding run_result_def Let_def by (intro exI [of _ r] exI [of _ now] conjI r(1,2)) (simp_all del: mset_map)
qed

theorem driver_run_wakes_due_witness:
  "\<exists>r. time_run 1000 200000000 (ts_wheel time_example_sys) = Some r \<and> \<not> rs_panic r"
proof -
  have "ts_last time_example_sys \<le> 200000000" "in_reach 1000 200000000" by code_simp+
  then show ?thesis using driver_run_wakes_due [OF time_example_reach] by blast
qed

text \<open>
  C29: Polling a sleep never panics. It is ready only when the latest run of the driver is at most one
  millisecond before its deadline or later; otherwise its clock is in the wheel, at the millisecond of the
  deadline, with a waker, which is the waker of this poll when the poll put the clock there.
\<close>

theorem sleep_contract:
  assumes "time_reach mx st s" "ts_sleeps s c = Some sl"
  shows "\<exists>r w'. sleep_poll st c wk sl (ts_wheel s) = Some (r, sl\<lparr>need_insert := False\<rparr>, w') \<and>
    (case r of
       Ready _ \<Rightarrow> deadline sl < ts_last s + 1000000
     | Pending \<Rightarrow> c \<in> all_clocks w' \<and> checked_millis_since st (deadline sl) = Some (exp_of w' c) \<and>
         c_waker (w_clocks w' c) \<noteq> None \<and> (need_insert sl \<longrightarrow> c_waker (w_clocks w' c) = Some wk))"
proof -
  from sleep_poll_ok [OF time_reach_inv [OF assms(1)] assms(2)] obtain r w'
    where r: "sleep_poll st c wk sl (ts_wheel s) = Some (r, sl\<lparr>need_insert := False\<rparr>, w')"
      "time_inv st (s\<lparr>ts_wheel := w', ts_sleeps := (ts_sleeps s)(c := Some (sl\<lparr>need_insert := False\<rparr>))\<rparr>)"
      "r = Ready () \<longleftrightarrow> c \<notin> all_clocks w'" "need_insert sl \<and> c \<in> all_clocks w' \<longrightarrow> c_waker (w_clocks w' c) = Some wk" by blast
  obtain now where now: "checked_millis_since st (ts_last s) = Some now" using time_invE [OF time_reach_inv [OF assms(1)]] .
  note d = time_invD [OF r(2), simplified, OF now]
  then obtain ms where i: "checked_millis_since st (ts_last s) = Some now" "now < horizon" "checked_millis_since st (deadline sl) = Some ms"
    "if c \<in> all_clocks w' then exp_of w' c = ms \<and> c_waker (w_clocks w' c) \<noteq> None else ms \<le> now"
    using d(4) [of c] now by (auto simp: sleep_inv_def split: if_splits)
  show ?thesis
  proof (cases r)
    case (Ready u)
    then have "ms \<le> now" using r(3) i(4) by simp
    then have "(deadline sl - st) div 1000000 \<le> (ts_last s - st) div 1000000" "st \<le> ts_last s"
      using i(1-3) by (auto simp: checked_millis_since_def horizon_def min_def split: if_splits)
    then have "deadline sl < ts_last s + 1000000" by linarith
    then show ?thesis using Ready r(1) by auto
  next
    case Pending
    then show ?thesis using r i by auto
  qed
qed

theorem sleep_contract_witness:
  "\<exists>r w'. sleep_poll 1000 1 80 \<lparr>need_insert = False, deadline = 100900000\<rparr> (ts_wheel time_example_sys) = Some (r, \<lparr>need_insert = False, deadline = 100900000\<rparr>, w') \<and>
    r = Pending \<and> c_waker (w_clocks w' 1) \<noteq> None"
proof -
  have "ts_sleeps time_example_sys 1 = Some \<lparr>need_insert = False, deadline = 100900000\<rparr>"
    "\<not> 100900000 < ts_last time_example_sys + 1000000" by code_simp+
  then show ?thesis using sleep_contract [OF time_example_reach, of 1 _ 80] by (fastforce split: poll.splits)
qed

text \<open>
  C30: A sleep that has been polled completes: once the driver runs at or after its deadline, the next poll is
  ready, and if the sleep was pending until then, the waker its clock held has been woken.
\<close>

theorem sleep_completes:
  assumes "time_reach mx st s" "ts_sleeps s c = Some sl" "\<not> need_insert sl" "ts_last s \<le> t" "in_reach st t" "deadline sl \<le> t"
  shows "\<exists>r w'. time_run st t (ts_wheel s) = Some r \<and> sleep_poll st c wk sl (rs_wheel r) = Some (Ready (), sl, w') \<and>
    (\<forall>x. c \<in> all_clocks (ts_wheel s) \<and> c_waker (w_clocks (ts_wheel s) c) = Some x \<longrightarrow> x \<in> set (rs_woken r))"
proof -
  let ?w = "ts_wheel s"
  note inv = time_reach_inv [OF assms(1)]
  from run_result_inv [OF inv assms(4,5)] obtain r now where r: "time_run st t ?w = Some r" "checked_millis_since st t = Some now" "run_result now ?w r" by blast
  obtain l where l: "checked_millis_since st (ts_last s) = Some l" using time_invE [OF inv] .
  obtain ms where ms: "checked_millis_since st (deadline sl) = Some ms" "c \<in> all_clocks ?w \<Longrightarrow> exp_of ?w c = ms" "c \<notin> all_clocks ?w \<Longrightarrow> c_result (w_clocks ?w c)"
    using time_invD(4) [OF inv l, of c] assms(2,3) by (auto simp: sleep_inv_def split: if_splits)
  have due: "c \<in> due now ?w" if "c \<in> all_clocks ?w" using that ms(2) millis_mono [OF ms(1) assms(6) r(2)] by (simp add: due_def)
  have v: "c_result (w_clocks (rs_wheel r) c)" "set_mset (mset (rs_woken r)) = (\<lambda>c. the (c_waker (w_clocks ?w c))) ` due now ?w"
    using r(3) due ms(3) finite_subset [OF _ finite_all_clocks, of "due now ?w" ?w] by (auto simp: run_result_def Let_def due_def)
  have "x \<in> set (rs_woken r)" if "c \<in> all_clocks ?w" "c_waker (w_clocks ?w c) = Some x" for x using v(2) due that by force
  then show ?thesis using r(1) v(1) assms(3) by (auto simp: sleep_poll_def)
qed

theorem sleep_completes_witness:
  "\<exists>r w'. time_run 1000 100900000 (ts_wheel time_example_sys) = Some r \<and>
    sleep_poll 1000 1 80 \<lparr>need_insert = False, deadline = 100900000\<rparr> (rs_wheel r) = Some (Ready (), \<lparr>need_insert = False, deadline = 100900000\<rparr>, w')"
proof -
  have "ts_sleeps time_example_sys 1 = Some \<lparr>need_insert = False, deadline = 100900000\<rparr>" "\<not> need_insert \<lparr>need_insert = False, deadline = 100900000\<rparr>"
    "ts_last time_example_sys \<le> 100900000" "in_reach 1000 100900000" by code_simp+
  then show ?thesis using sleep_completes [OF time_example_reach, of 1 _ 100900000 80] by fastforce
qed

text \<open>
  Resetting a timer whose clock is in the wheel leaves the clock there, at its old expiration, and
  asks for it to be put in again; the steps above therefore reset only clocks that are not in the wheel.
\<close>

lemma reset_keeps_clock_linked:
  "case timer_reset (2 ^ 80) 1 5000000 \<lparr>start_sleep = the (ts_sleeps time_example_sys 1), period = 1000000\<rparr> (ts_wheel time_example_sys) of
     None \<Rightarrow> False
   | Some (t, w) \<Rightarrow> linked 1 w \<and> need_insert (start_sleep t) \<and> deadline (start_sleep t) = 6000000"
  by code_simp

text \<open>A sleep is ready before its deadline when the deadline is not a whole number of milliseconds.\<close>

lemma sleep_ready_early:
  "case time_events (2 ^ 80) 0 [NewSleep 0 1900000, PollSleep 0 70, RunDriver 1000000] (time_init 0) of
     None \<Rightarrow> False
   | Some s \<Rightarrow> c_result (w_clocks (ts_wheel s) 0) \<and> ts_last s < deadline (the (ts_sleeps s 0))"
  by code_simp

end
