(* ===== verification/Oneshot.thy ===== *)
theory Oneshot
  imports Prelude
begin

text \<open>
  The channel for one value, \<open>ylong_runtime/src/sync/oneshot.rs\<close>, on the waker cell of
  \<open>sync/atomic_waker.rs\<close>. Sender and receiver are two threads; every access to the state word, to the state of the
  waker cell, to the value and to the stored waker is a step of its own. The two cells are \<open>RefCell\<close>s that
  both threads reach, so that accesses at the same time would be a data race. Freeing the channel after both
  ends are gone is not modelled.
\<close>

datatype os_state = INIT | SENT | CLOSED

text \<open>The sender. In the steps of \<open>wake\<close> the flag tells whether \<open>send\<close> or \<open>drop\<close> called it.\<close>

datatype 'v spc =
    SIdle
  | SStore 'v
  | SLoad 'v
  | SCas 'v
  | STakeBack
  | SWake bool
  | SWakeTake bool
  | SWakeClear bool "nat option"
  | SWakeCall bool "nat option"
  | SDrop
  | SGone

text \<open>The receiver, in \<open>poll\<close> with a waker and in \<open>try_recv\<close>.\<close>

datatype 'v rpc =
    RIdle
  | RLoad nat
  | RReg nat
  | RStore nat
  | RUnreg nat
  | RTakeWaker nat
  | RSetIdle nat nat
  | RWakeSelf nat nat
  | RLoadAgain nat
  | RTake
  | RSetClosed 'v
  | RTry
  | RGone

text \<open>
  The channel: state, value, the bits REGISTERING and WAKING of the waker cell, its waker. The rest is kept
  for the properties: what \<open>send\<close> answered, the values received, the wakers called since the last poll began, the
  waker of the last poll if it was pending, and whether an \<open>unwrap\<close> or \<open>unreachable!\<close> was hit.
\<close>

record 'v oneshot =
  o_state :: os_state
  o_value :: "'v option"
  o_registering :: bool
  o_waking :: bool
  o_waker :: "nat option"
  o_spc :: "'v spc"
  o_rpc :: "'v rpc"
  o_sent :: "('v + 'v) option"
  o_received :: "'v list"
  o_woken :: "nat list"
  o_waiting :: "nat option"
  o_panic :: bool

definition channel :: "'v oneshot" where
  "channel = \<lparr>o_state = INIT, o_value = None, o_registering = False, o_waking = False, o_waker = None, o_spc = SIdle, o_rpc = RIdle,
     o_sent = None, o_received = [], o_woken = [], o_waiting = None, o_panic = False\<rparr>"

section \<open>Steps of the sender\<close>

text \<open>\<open>AtomicWaker::wake\<close> and \<open>take_waker\<close>; afterwards \<open>send\<close> returns and the sender is dropped, or the drop is done.\<close>

definition after_wake :: "bool \<Rightarrow> 'v spc" where
  "after_wake in_send = (if in_send then SDrop else SGone)"

definition wake_fetch_or :: "bool \<Rightarrow> 'v oneshot \<Rightarrow> 'v oneshot" where
  "wake_fetch_or k s = s\<lparr>o_waking := True, o_spc := (if \<not> o_registering s \<and> \<not> o_waking s then SWakeTake k else after_wake k)\<rparr>"

definition wake_take :: "bool \<Rightarrow> 'v oneshot \<Rightarrow> 'v oneshot" where
  "wake_take k s = s\<lparr>o_waker := None, o_spc := SWakeClear k (o_waker s)\<rparr>"

definition wake_clear :: "bool \<Rightarrow> nat option \<Rightarrow> 'v oneshot \<Rightarrow> 'v oneshot" where
  "wake_clear k w s = s\<lparr>o_waking := False, o_spc := SWakeCall k w\<rparr>"

definition wake_call :: "bool \<Rightarrow> nat option \<Rightarrow> 'v oneshot \<Rightarrow> 'v oneshot" where
  "wake_call k w s = s\<lparr>o_woken := (case w of None \<Rightarrow> o_woken s | Some x \<Rightarrow> x # o_woken s), o_spc := after_wake k\<rparr>"

definition send_store :: "'v \<Rightarrow> 'v oneshot \<Rightarrow> 'v oneshot" where
  "send_store v s = s\<lparr>o_value := Some v, o_spc := SLoad v\<rparr>"

definition send_load :: "'v \<Rightarrow> 'v oneshot \<Rightarrow> 'v oneshot" where
  "send_load v s = (case o_state s of
      INIT \<Rightarrow> s\<lparr>o_spc := SCas v\<rparr>
    | CLOSED \<Rightarrow> s\<lparr>o_spc := STakeBack\<rparr>
    | SENT \<Rightarrow> s\<lparr>o_panic := True\<rparr>)"

definition send_cas :: "'v \<Rightarrow> 'v oneshot \<Rightarrow> 'v oneshot" where
  "send_cas v s = (if o_state s = INIT then s\<lparr>o_state := SENT, o_sent := Some (Inr v), o_spc := SWake True\<rparr> else s\<lparr>o_spc := SLoad v\<rparr>)"

definition send_take_back :: "'v oneshot \<Rightarrow> 'v oneshot" where
  "send_take_back s = (case o_value s of
      Some v \<Rightarrow> s\<lparr>o_value := None, o_sent := Some (Inl v), o_spc := SDrop\<rparr>
    | None \<Rightarrow> s\<lparr>o_panic := True\<rparr>)"

definition sender_drop :: "'v oneshot \<Rightarrow> 'v oneshot" where
  "sender_drop s = s\<lparr>o_state := SENT, o_spc := (if o_state s = INIT then SWake False else SGone)\<rparr>"

fun sender_step :: "'v spc \<Rightarrow> 'v oneshot \<Rightarrow> 'v oneshot option" where
  "sender_step SIdle s = None"
| "sender_step (SStore v) s = Some (send_store v s)"
| "sender_step (SLoad v) s = Some (send_load v s)"
| "sender_step (SCas v) s = Some (send_cas v s)"
| "sender_step STakeBack s = Some (send_take_back s)"
| "sender_step (SWake k) s = Some (wake_fetch_or k s)"
| "sender_step (SWakeTake k) s = Some (wake_take k s)"
| "sender_step (SWakeClear k w) s = Some (wake_clear k w s)"
| "sender_step (SWakeCall k w) s = Some (wake_call k w s)"
| "sender_step SDrop s = Some (sender_drop s)"
| "sender_step SGone s = None"

section \<open>Steps of the receiver\<close>

text \<open>\<open>AtomicWaker::register_by_ref\<close>.\<close>

definition register_cas :: "nat \<Rightarrow> 'v oneshot \<Rightarrow> 'v oneshot" where
  "register_cas w s =
     (if \<not> o_registering s \<and> \<not> o_waking s then s\<lparr>o_registering := True, o_rpc := RStore w\<rparr>
      else if o_waking s \<and> \<not> o_registering s then s\<lparr>o_woken := w # o_woken s, o_rpc := RLoadAgain w\<rparr>
      else s\<lparr>o_rpc := RLoadAgain w\<rparr>)"

definition register_store :: "nat \<Rightarrow> 'v oneshot \<Rightarrow> 'v oneshot" where
  "register_store w s = s\<lparr>o_waker := Some w, o_rpc := RUnreg w\<rparr>"

definition register_done :: "nat \<Rightarrow> 'v oneshot \<Rightarrow> 'v oneshot" where
  "register_done w s =
     (if o_registering s \<and> \<not> o_waking s then s\<lparr>o_registering := False, o_rpc := RLoadAgain w\<rparr> else s\<lparr>o_rpc := RTakeWaker w\<rparr>)"

definition register_take :: "nat \<Rightarrow> 'v oneshot \<Rightarrow> 'v oneshot" where
  "register_take w s = (case o_waker s of Some x \<Rightarrow> s\<lparr>o_waker := None, o_rpc := RSetIdle x w\<rparr> | None \<Rightarrow> s\<lparr>o_panic := True\<rparr>)"

definition register_idle :: "nat \<Rightarrow> nat \<Rightarrow> 'v oneshot \<Rightarrow> 'v oneshot" where
  "register_idle x w s = s\<lparr>o_registering := False, o_waking := False, o_rpc := RWakeSelf x w\<rparr>"

definition register_wake :: "nat \<Rightarrow> nat \<Rightarrow> 'v oneshot \<Rightarrow> 'v oneshot" where
  "register_wake x w s = s\<lparr>o_woken := x # o_woken s, o_rpc := RLoadAgain w\<rparr>"

text \<open>\<open>poll\<close>; a value that is taken is received when the state has been set to CLOSED.\<close>

definition poll_load :: "nat \<Rightarrow> 'v oneshot \<Rightarrow> 'v oneshot" where
  "poll_load w s = s\<lparr>o_rpc := (case o_state s of INIT \<Rightarrow> RReg w | SENT \<Rightarrow> RTake | CLOSED \<Rightarrow> RIdle)\<rparr>"

definition poll_load_again :: "nat \<Rightarrow> 'v oneshot \<Rightarrow> 'v oneshot" where
  "poll_load_again w s = (if o_state s = SENT then s\<lparr>o_rpc := RTake\<rparr> else s\<lparr>o_waiting := Some w, o_rpc := RIdle\<rparr>)"

definition take_value :: "'v oneshot \<Rightarrow> 'v oneshot" where
  "take_value s = (case o_value s of Some v \<Rightarrow> s\<lparr>o_value := None, o_rpc := RSetClosed v\<rparr> | None \<Rightarrow> s\<lparr>o_rpc := RIdle\<rparr>)"

definition take_value_closed :: "'v \<Rightarrow> 'v oneshot \<Rightarrow> 'v oneshot" where
  "take_value_closed v s = s\<lparr>o_state := CLOSED, o_received := o_received s @ [v], o_rpc := RIdle\<rparr>"

definition try_load :: "'v oneshot \<Rightarrow> 'v oneshot" where
  "try_load s = s\<lparr>o_rpc := (case o_state s of SENT \<Rightarrow> RTake | _ \<Rightarrow> RIdle)\<rparr>"

definition close :: "'v oneshot \<Rightarrow> 'v oneshot" where
  "close s = (if o_state s = INIT then s\<lparr>o_state := CLOSED\<rparr> else s)"

fun receiver_step :: "'v rpc \<Rightarrow> 'v oneshot \<Rightarrow> 'v oneshot option" where
  "receiver_step RIdle s = None"
| "receiver_step (RLoad w) s = Some (poll_load w s)"
| "receiver_step (RReg w) s = Some (register_cas w s)"
| "receiver_step (RStore w) s = Some (register_store w s)"
| "receiver_step (RUnreg w) s = Some (register_done w s)"
| "receiver_step (RTakeWaker w) s = Some (register_take w s)"
| "receiver_step (RSetIdle x w) s = Some (register_idle x w s)"
| "receiver_step (RWakeSelf x w) s = Some (register_wake x w s)"
| "receiver_step (RLoadAgain w) s = Some (poll_load_again w s)"
| "receiver_step RTake s = Some (take_value s)"
| "receiver_step (RSetClosed v) s = Some (take_value_closed v s)"
| "receiver_step RTry s = Some (try_load s)"
| "receiver_step RGone s = None"

section \<open>The system\<close>

text \<open>A thread begins a call, or takes its next step. Closing forgets a pending poll: the receiver gave up waiting.\<close>

datatype 'v os_event =
    Send 'v
  | DropSender
  | SenderStep
  | Poll nat
  | TryRecv
  | Close
  | DropReceiver
  | ReceiverStep

fun os_step :: "'v os_event \<Rightarrow> 'v oneshot \<Rightarrow> 'v oneshot option" where
  "os_step (Send v) s = (if o_spc s = SIdle then Some (s\<lparr>o_spc := SStore v\<rparr>) else None)"
| "os_step DropSender s = (if o_spc s = SIdle then Some (s\<lparr>o_spc := SDrop\<rparr>) else None)"
| "os_step SenderStep s = sender_step (o_spc s) s"
| "os_step (Poll w) s = (if o_rpc s = RIdle then Some (s\<lparr>o_rpc := RLoad w, o_waiting := None, o_woken := []\<rparr>) else None)"
| "os_step TryRecv s = (if o_rpc s = RIdle then Some (s\<lparr>o_rpc := RTry\<rparr>) else None)"
| "os_step Close s = (if o_rpc s = RIdle then Some ((close s)\<lparr>o_waiting := None\<rparr>) else None)"
| "os_step DropReceiver s = (if o_rpc s = RIdle then Some ((close s)\<lparr>o_waiting := None, o_rpc := RGone\<rparr>) else None)"
| "os_step ReceiverStep s = receiver_step (o_rpc s) s"

inductive os_reach :: "'v oneshot \<Rightarrow> bool" where
  os_start: "os_reach channel"
| os_next: "os_reach s \<Longrightarrow> os_step e s = Some s' \<Longrightarrow> os_reach s'"

primrec os_events :: "'v os_event list \<Rightarrow> 'v oneshot \<Rightarrow> 'v oneshot option" where
  "os_events [] s = Some s"
| "os_events (e # es) s = (case os_step e s of None \<Rightarrow> None | Some s' \<Rightarrow> os_events es s')"

lemma os_events_reach: "os_reach s \<Longrightarrow> os_events es s = Some s' \<Longrightarrow> os_reach s'"
  by (induction es arbitrary: s) (auto split: option.splits intro: os_next)

section \<open>Invariant\<close>

fun in_wake :: "'v spc \<Rightarrow> bool" where
  "in_wake (SWake k) = True"
| "in_wake (SWakeTake k) = True"
| "in_wake (SWakeClear k w) = True"
| "in_wake (SWakeCall k w) = True"
| "in_wake _ = False"

fun holds_waking :: "'v spc \<Rightarrow> bool" where
  "holds_waking (SWakeTake k) = True"
| "holds_waking (SWakeClear k w) = True"
| "holds_waking _ = False"

fun holds_registering :: "'v rpc \<Rightarrow> bool" where
  "holds_registering (RStore w) = True"
| "holds_registering (RUnreg w) = True"
| "holds_registering (RTakeWaker w) = True"
| "holds_registering (RSetIdle x w) = True"
| "holds_registering _ = False"

fun registers :: "'v rpc \<Rightarrow> bool" where
  "registers (RReg w) = True"
| "registers (RWakeSelf x w) = True"
| "registers (RLoadAgain w) = True"
| "registers r = holds_registering r"

text \<open>The sender may still store or take back a value.\<close>

fun owns_value :: "'v spc \<Rightarrow> bool" where
  "owns_value SIdle = True"
| "owns_value (SStore v) = True"
| "owns_value (SLoad v) = True"
| "owns_value (SCas v) = True"
| "owns_value STakeBack = True"
| "owns_value _ = False"

definition value_inv :: "'v oneshot \<Rightarrow> bool" where
  "value_inv s \<longleftrightarrow>
     (case o_spc s of
        SIdle \<Rightarrow> o_value s = None
      | SStore v \<Rightarrow> o_value s = None
      | SLoad v \<Rightarrow> o_value s = Some v
      | SCas v \<Rightarrow> o_value s = Some v
      | STakeBack \<Rightarrow> o_value s \<noteq> None \<and> o_state s = CLOSED
      | _ \<Rightarrow> True) \<and>
     (owns_value (o_spc s) \<longrightarrow> o_state s \<noteq> SENT \<and> o_received s = [] \<and> o_sent s = None) \<and>
     (case o_rpc s of RTake \<Rightarrow> o_state s = SENT | RSetClosed v \<Rightarrow> o_state s = SENT \<and> o_value s = None \<and> o_sent s = Some (Inr v) \<and> o_received s = [] | _ \<Rightarrow> True) \<and>
     (\<forall>v. o_sent s = Some (Inr v) \<longrightarrow> o_state s \<noteq> INIT \<and> (o_value s = Some v \<and> o_received s = [] \<and> o_state s = SENT \<or> o_value s = None \<and> o_received s = [v] \<or> o_rpc s = RSetClosed v)) \<and>
     (\<forall>v. o_sent s = Some (Inl v) \<longrightarrow> o_state s \<noteq> INIT \<and> o_value s = None \<and> o_received s = []) \<and>
     (o_sent s = None \<and> \<not> owns_value (o_spc s) \<longrightarrow> o_value s = None \<and> o_received s = [])"

definition waker_inv :: "'v oneshot \<Rightarrow> bool" where
  "waker_inv s \<longleftrightarrow>
     (o_registering s \<longleftrightarrow> holds_registering (o_rpc s)) \<and>
     (holds_waking (o_spc s) \<longrightarrow> o_waking s \<and> \<not> o_registering s) \<and>
     (o_waking s \<and> \<not> o_registering s \<longrightarrow> holds_waking (o_spc s)) \<and>
     (in_wake (o_spc s) \<or> o_waking s \<or> o_spc s = SGone \<longrightarrow> o_state s \<noteq> INIT) \<and>
     (case o_rpc s of
        RUnreg w \<Rightarrow> o_waker s = Some w
      | RTakeWaker w \<Rightarrow> o_waker s = Some w \<and> o_waking s
      | RSetIdle x w \<Rightarrow> o_waking s \<and> x = w
      | RWakeSelf x w \<Rightarrow> o_state s \<noteq> INIT \<and> x = w
      | RLoadAgain w \<Rightarrow> o_state s = INIT \<longrightarrow> o_waker s = Some w
      | _ \<Rightarrow> True)"

text \<open>A poll that came back pending: woken, or registered before anything was sent, or the sender is about to wake it.\<close>

definition waiting_inv :: "'v oneshot \<Rightarrow> bool" where
  "waiting_inv s \<longleftrightarrow>
     (\<forall>w. o_waiting s = Some w \<longrightarrow>
        w \<in> set (o_woken s) \<or> o_state s = INIT \<and> o_waker s = Some w \<or>
        (case o_spc s of
           SWake k \<Rightarrow> o_waker s = Some w \<and> \<not> o_registering s
         | SWakeTake k \<Rightarrow> o_waker s = Some w
         | SWakeClear k x \<Rightarrow> x = Some w
         | SWakeCall k x \<Rightarrow> x = Some w
         | _ \<Rightarrow> False)) \<and>
     (o_waiting s \<noteq> None \<longrightarrow> o_rpc s \<in> {RIdle, RTake, RTry} \<or> (\<exists>v. o_rpc s = RSetClosed v)) \<and>
     (registers (o_rpc s) \<longrightarrow> o_state s \<noteq> CLOSED)"

definition os_inv :: "'v oneshot \<Rightarrow> bool" where
  "os_inv s \<longleftrightarrow> \<not> o_panic s \<and> value_inv s \<and> waker_inv s \<and> waiting_inv s"

lemmas os_inv_defs = os_inv_def value_inv_def waker_inv_def waiting_inv_def

lemmas sender_defs =
  after_wake_def wake_fetch_or_def wake_take_def wake_clear_def wake_call_def send_store_def send_load_def send_cas_def
  send_take_back_def sender_drop_def

lemmas receiver_defs =
  register_cas_def register_store_def register_done_def register_take_def register_idle_def register_wake_def poll_load_def
  poll_load_again_def take_value_def take_value_closed_def try_load_def close_def


lemma send_store_inv: "os_inv s \<Longrightarrow> o_spc s = SStore v \<Longrightarrow> os_inv (send_store v s)"
  by (cases "o_rpc s") (auto simp: os_inv_defs sender_defs split: option.splits os_state.splits)

lemma send_load_inv: "os_inv s \<Longrightarrow> o_spc s = SLoad v \<Longrightarrow> os_inv (send_load v s)"
  by (cases "o_rpc s") (auto simp: os_inv_defs sender_defs split: option.splits os_state.splits)

lemma send_cas_inv: "os_inv s \<Longrightarrow> o_spc s = SCas v \<Longrightarrow> os_inv (send_cas v s)"
  by (cases "o_rpc s") (auto simp: os_inv_defs sender_defs split: option.splits os_state.splits)

lemma send_take_back_inv: "os_inv s \<Longrightarrow> o_spc s = STakeBack \<Longrightarrow> os_inv (send_take_back s)"
  by (cases "o_rpc s") (auto simp: os_inv_defs sender_defs split: option.splits os_state.splits)

lemma wake_fetch_or_inv: "os_inv s \<Longrightarrow> o_spc s = SWake k \<Longrightarrow> os_inv (wake_fetch_or k s)"
  by (cases "o_rpc s") (auto simp: os_inv_defs sender_defs split: option.splits os_state.splits)

lemma wake_take_inv: "os_inv s \<Longrightarrow> o_spc s = SWakeTake k \<Longrightarrow> os_inv (wake_take k s)"
  by (cases "o_rpc s") (auto simp: os_inv_defs sender_defs split: option.splits os_state.splits)

lemma wake_clear_inv: "os_inv s \<Longrightarrow> o_spc s = SWakeClear k w \<Longrightarrow> os_inv (wake_clear k w s)"
  by (cases "o_rpc s") (auto simp: os_inv_defs sender_defs split: option.splits os_state.splits)

lemma wake_call_inv: "os_inv s \<Longrightarrow> o_spc s = SWakeCall k w \<Longrightarrow> os_inv (wake_call k w s)"
  by (cases "o_rpc s") (auto simp: os_inv_defs sender_defs split: option.splits os_state.splits)

lemma sender_drop_inv: "os_inv s \<Longrightarrow> o_spc s = SDrop \<Longrightarrow> os_inv (sender_drop s)"
  by (cases "o_rpc s") (auto simp: os_inv_defs sender_defs split: option.splits os_state.splits)

lemma poll_load_inv: "os_inv s \<Longrightarrow> o_rpc s = RLoad w \<Longrightarrow> os_inv (poll_load w s)"
  by (cases "o_spc s") (auto simp: os_inv_defs receiver_defs split: option.splits os_state.splits)

lemma register_cas_inv: "os_inv s \<Longrightarrow> o_rpc s = RReg w \<Longrightarrow> os_inv (register_cas w s)"
  by (cases "o_spc s") (auto simp: os_inv_defs receiver_defs split: option.splits os_state.splits)

lemma register_store_inv: "os_inv s \<Longrightarrow> o_rpc s = RStore w \<Longrightarrow> os_inv (register_store w s)"
  by (cases "o_spc s") (auto simp: os_inv_defs receiver_defs split: option.splits os_state.splits)

lemma register_done_inv: "os_inv s \<Longrightarrow> o_rpc s = RUnreg w \<Longrightarrow> os_inv (register_done w s)"
  by (cases "o_spc s") (auto simp: os_inv_defs receiver_defs split: option.splits os_state.splits)

lemma register_take_inv: "os_inv s \<Longrightarrow> o_rpc s = RTakeWaker w \<Longrightarrow> os_inv (register_take w s)"
  by (cases "o_spc s") (auto simp: os_inv_defs receiver_defs split: option.splits os_state.splits)

lemma register_idle_inv: "os_inv s \<Longrightarrow> o_rpc s = RSetIdle x w \<Longrightarrow> os_inv (register_idle x w s)"
  by (cases "o_spc s") (auto simp: os_inv_defs receiver_defs split: option.splits os_state.splits)

lemma register_wake_inv: "os_inv s \<Longrightarrow> o_rpc s = RWakeSelf x w \<Longrightarrow> os_inv (register_wake x w s)"
  by (cases "o_spc s") (auto simp: os_inv_defs receiver_defs split: option.splits os_state.splits)

lemma take_value_closed_inv: "os_inv s \<Longrightarrow> o_rpc s = RSetClosed v \<Longrightarrow> os_inv (take_value_closed v s)"
  by (cases "o_spc s") (auto simp: os_inv_defs receiver_defs split: option.splits os_state.splits)

lemma try_load_inv: "os_inv s \<Longrightarrow> o_rpc s = RTry \<Longrightarrow> os_inv (try_load s)"
  by (cases "o_spc s") (auto simp: os_inv_defs receiver_defs split: option.splits os_state.splits)

lemma poll_load_again_inv: "os_inv s \<Longrightarrow> o_rpc s = RLoadAgain w \<Longrightarrow> os_inv (poll_load_again w s)"
  by (cases "o_state s"; cases "o_spc s"; simp add: os_inv_defs poll_load_again_def; clarsimp)

lemma owner_state: "os_inv s \<Longrightarrow> o_state s = SENT \<Longrightarrow> \<not> owns_value (o_spc s)"
  by (auto simp: os_inv_def value_inv_def)

lemma take_value_none_inv: "os_inv s \<Longrightarrow> o_rpc s = RTake \<Longrightarrow> o_value s = None \<Longrightarrow> os_inv (take_value s)"
  by (cases "o_spc s"; simp add: os_inv_defs take_value_def; clarsimp)

lemma value_there_is_sent: 
  assumes "os_inv s" "o_state s = SENT" "o_value s = Some v"
  shows "o_sent s = Some (Inr v) \<and> o_received s = []"
proof -
  have "\<not> owns_value (o_spc s)" using owner_state assms by blast
  with assms show ?thesis unfolding os_inv_def value_inv_def
    by (cases "o_sent s"; (cases "the (o_sent s)")?) (auto split: rpc.splits)
qed

lemma take_value_some_inv:
  assumes i: "os_inv s" and t: "o_rpc s = RTake" and v: "o_value s = Some v"
  shows "os_inv (take_value s)"
proof -
  have st: "o_state s = SENT" using i t by (simp add: os_inv_def value_inv_def)
  have sent: "o_sent s = Some (Inr v)" "o_received s = []" using value_there_is_sent [OF i st v] by auto
  have nown: "\<not> owns_value (o_spc s)" by (rule owner_state [OF i st])
  have "value_inv (take_value s)"
    using st sent nown v unfolding value_inv_def take_value_def by (cases "o_spc s") simp_all
  moreover have "waker_inv (take_value s)"
    using i t v by (simp add: os_inv_def waker_inv_def take_value_def)
  moreover have "waiting_inv (take_value s)"
    using i t v by (cases "o_spc s") (simp_all add: os_inv_def waiting_inv_def take_value_def)
  ultimately show ?thesis using i v by (simp add: os_inv_def take_value_def)
qed

lemma os_send_inv: "os_inv s \<Longrightarrow> o_spc s = SIdle \<Longrightarrow> os_inv (s\<lparr>o_spc := SStore v\<rparr>)"
  by (cases "o_rpc s"; simp add: os_inv_defs; clarsimp)

lemma os_drop_inv: "os_inv s \<Longrightarrow> o_spc s = SIdle \<Longrightarrow> os_inv (s\<lparr>o_spc := SDrop\<rparr>)"
  by (cases "o_rpc s"; simp add: os_inv_defs; clarsimp)

lemma os_poll_inv: "os_inv s \<Longrightarrow> o_rpc s = RIdle \<Longrightarrow> os_inv (s\<lparr>o_rpc := RLoad w, o_waiting := None, o_woken := []\<rparr>)"
  by (cases "o_spc s"; simp add: os_inv_defs; clarsimp)

lemma os_try_inv: "os_inv s \<Longrightarrow> o_rpc s = RIdle \<Longrightarrow> os_inv (s\<lparr>o_rpc := RTry\<rparr>)"
  by (cases "o_spc s"; simp add: os_inv_defs; clarsimp)

lemma os_close_inv: "os_inv s \<Longrightarrow> o_rpc s = RIdle \<Longrightarrow> r \<in> {RIdle, RGone} \<Longrightarrow> os_inv ((close s)\<lparr>o_waiting := None, o_rpc := r\<rparr>)"
  by (cases "o_spc s"; auto simp: os_inv_defs close_def)

lemma os_close_call_inv: "os_inv s \<Longrightarrow> o_rpc s = RIdle \<Longrightarrow> os_inv ((close s)\<lparr>o_waiting := None\<rparr>)"
  by (cases "o_spc s"; auto simp: os_inv_defs close_def)

lemma channel_inv: "os_inv channel"
  by (simp add: os_inv_defs channel_def)

lemma take_value_inv: "os_inv s \<Longrightarrow> o_rpc s = RTake \<Longrightarrow> os_inv (take_value s)"
  using take_value_none_inv take_value_some_inv by (cases "o_value s") auto

lemma sender_step_inv: "os_inv s \<Longrightarrow> sender_step (o_spc s) s = Some s' \<Longrightarrow> os_inv s'"
  by (cases "o_spc s")
    (auto simp: send_store_inv send_load_inv send_cas_inv send_take_back_inv wake_fetch_or_inv wake_take_inv wake_clear_inv
      wake_call_inv sender_drop_inv)

lemma receiver_step_inv: "os_inv s \<Longrightarrow> receiver_step (o_rpc s) s = Some s' \<Longrightarrow> os_inv s'"
  by (cases "o_rpc s")
    (auto simp: poll_load_inv register_cas_inv register_store_inv register_done_inv register_take_inv register_idle_inv
      register_wake_inv poll_load_again_inv take_value_inv take_value_closed_inv try_load_inv)

lemma os_step_inv:
  assumes i: "os_inv s" and "os_step e s = Some s'"
  shows "os_inv s'"
proof (cases e)
  case (Send v)
  then show ?thesis using assms os_send_inv [OF i] by (auto split: if_splits)
next
  case DropSender
  then show ?thesis using assms os_drop_inv [OF i] by (auto split: if_splits)
next
  case SenderStep
  then show ?thesis using assms sender_step_inv [OF i] by simp
next
  case (Poll w)
  then show ?thesis using assms os_poll_inv [OF i] by (auto split: if_splits)
next
  case TryRecv
  then show ?thesis using assms os_try_inv [OF i] by (auto split: if_splits)
next
  case Close
  then show ?thesis using assms os_close_call_inv [OF i] by (auto split: if_splits)
next
  case DropReceiver
  then show ?thesis using assms os_close_inv [OF i, of RGone] by (auto split: if_splits)
next
  case ReceiverStep
  then show ?thesis using assms receiver_step_inv [OF i] by simp
qed

lemma os_reach_inv: "os_reach s \<Longrightarrow> os_inv s"
  by (induction rule: os_reach.induct) (auto intro: channel_inv os_step_inv)

section \<open>What the channel promises\<close>

text \<open>The steps at which a thread is inside a \<open>RefCell\<close>: the value, or the stored waker.\<close>

fun sender_in_value :: "'v spc \<Rightarrow> bool" where
  "sender_in_value (SStore v) = True"
| "sender_in_value STakeBack = True"
| "sender_in_value _ = False"

fun receiver_in_waker :: "'v rpc \<Rightarrow> bool" where
  "receiver_in_waker (RStore w) = True"
| "receiver_in_waker (RTakeWaker w) = True"
| "receiver_in_waker _ = False"

lemma cells_exclusive:
  assumes "os_inv s"
  shows "\<not> (sender_in_value (o_spc s) \<and> o_rpc s = RTake)" "\<not> (o_spc s = SWakeTake k \<and> receiver_in_waker (o_rpc s))"
proof -
  show "\<not> (sender_in_value (o_spc s) \<and> o_rpc s = RTake)"
    using assms by (cases "o_spc s") (auto simp: os_inv_def value_inv_def)
  show "\<not> (o_spc s = SWakeTake k \<and> receiver_in_waker (o_rpc s))"
    using assms by (cases "o_rpc s") (auto simp: os_inv_def waker_inv_def)
qed

lemma received_was_sent:
  assumes "os_inv s" "o_received s \<noteq> []"
  shows "\<exists>v. o_received s = [v] \<and> o_sent s = Some (Inr v)"
proof (cases "o_sent s")
  case None
  then show ?thesis using assms by (cases "owns_value (o_spc s)") (auto simp: os_inv_def value_inv_def)
next
  case (Some r)
  then show ?thesis using assms by (cases r) (auto simp: os_inv_def value_inv_def)
qed

text \<open>The value that was sent is there for the receiver until it takes it.\<close>

lemma sent_is_there:
  assumes "os_inv s" "o_sent s = Some (Inr v)" "o_rpc s = RIdle" "o_received s = []"
  shows "o_state s = SENT \<and> o_value s = Some v"
  using assms by (auto simp: os_inv_def value_inv_def)

lemma poll_takes:
  assumes "o_rpc s = RIdle" "o_state s = SENT" "o_value s = Some v"
  shows "map_option o_received (os_events [Poll w, ReceiverStep, ReceiverStep, ReceiverStep] s) = Some (o_received s @ [v])"
  using assms by (simp add: poll_load_def take_value_def take_value_closed_def)

text \<open>How many steps the sender still has to take.\<close>

fun spc_rank :: "os_state \<Rightarrow> 'v spc \<Rightarrow> nat" where
  "spc_rank st (SStore v) = 9"
| "spc_rank st (SLoad v) = (if st = INIT then 8 else 5)"
| "spc_rank st (SCas v) = (if st = INIT then 7 else 6)"
| "spc_rank st STakeBack = 4"
| "spc_rank st (SWake k) = (if k then 6 else 4)"
| "spc_rank st (SWakeTake k) = (if k then 5 else 3)"
| "spc_rank st (SWakeClear k w) = (if k then 4 else 2)"
| "spc_rank st (SWakeCall k w) = (if k then 3 else 1)"
| "spc_rank st SDrop = (if st = INIT then 5 else 1)"
| "spc_rank st _ = 0"

lemma sender_progress:
  assumes "os_inv s" "o_spc s \<noteq> SIdle" "o_spc s \<noteq> SGone"
  shows "\<exists>s'. os_step SenderStep s = Some s' \<and> spc_rank (o_state s') (o_spc s') < spc_rank (o_state s) (o_spc s) \<and>
    o_waiting s' = o_waiting s \<and> o_spc s' \<noteq> SIdle"
proof -
  have "o_spc s = STakeBack \<Longrightarrow> o_value s \<noteq> None \<and> o_state s = CLOSED" "owns_value (o_spc s) \<Longrightarrow> o_state s \<noteq> SENT"
    "in_wake (o_spc s) \<Longrightarrow> o_state s \<noteq> INIT"
    using assms by (auto simp: os_inv_def value_inv_def waker_inv_def)
  with assms(2,3) show ?thesis
    by (cases "o_spc s"; cases "o_state s"; simp add: sender_defs; clarsimp)
qed

lemma woken_when_done:
  assumes "os_inv s" "o_waiting s = Some w" "o_state s \<noteq> INIT" "\<not> in_wake (o_spc s)"
  shows "w \<in> set (o_woken s)"
  using assms by (cases "o_spc s") (auto simp: os_inv_def waiting_inv_def)

lemma sender_finishes:
  assumes "os_inv s" "o_spc s \<noteq> SIdle"
  shows "\<exists>n s'. n \<le> spc_rank (o_state s) (o_spc s) \<and> os_events (replicate n SenderStep) s = Some s' \<and> os_inv s' \<and>
    o_spc s' = SGone \<and> o_waiting s' = o_waiting s"
  using assms
proof (induction "spc_rank (o_state s) (o_spc s)" arbitrary: s rule: less_induct)
  case less
  show ?case
  proof (cases "o_spc s = SGone")
    case True
    then show ?thesis using less.prems by (intro exI [of _ 0] exI [of _ s]) simp
  next
    case False
    obtain t where t: "os_step SenderStep s = Some t" "spc_rank (o_state t) (o_spc t) < spc_rank (o_state s) (o_spc s)"
      "o_waiting t = o_waiting s" "o_spc t \<noteq> SIdle"
      using sender_progress [OF less.prems False] by (elim exE conjE)
    obtain n u where u: "n \<le> spc_rank (o_state t) (o_spc t)" "os_events (replicate n SenderStep) t = Some u" "os_inv u"
      "o_spc u = SGone" "o_waiting u = o_waiting t"
      using less.hyps [OF t(2) os_step_inv [OF less.prems(1) t(1)] t(4)] by blast
    show ?thesis using t u by (intro exI [of _ "Suc n"] exI [of _ u]) (simp del: os_step.simps)
  qed
qed

lemma spc_rank_le: "spc_rank st p \<le> 9"
  by (cases p) auto

text \<open>C39: At most one value is received, it is the one whose send succeeded, and a value whose send succeeded is
  received by the next poll that begins; a value given back by a failed send is never received. No \<open>unwrap\<close> or
  \<open>unreachable!\<close> fails, and the two threads are never inside the value or the stored waker at the same time. This holds in every
  interleaving of the sender and the receiver.\<close>

theorem oneshot_delivers_once:
  assumes "os_reach s"
  shows "\<not> o_panic s \<and>
    (o_received s = [] \<or> (\<exists>v. o_received s = [v] \<and> o_sent s = Some (Inr v))) \<and>
    \<not> (sender_in_value (o_spc s) \<and> o_rpc s = RTake) \<and> \<not> (o_spc s = SWakeTake k \<and> receiver_in_waker (o_rpc s)) \<and>
    (o_sent s = Some (Inr v) \<and> o_rpc s = RIdle \<and> o_received s = [] \<longrightarrow>
      map_option o_received (os_events [Poll w, ReceiverStep, ReceiverStep, ReceiverStep] s) = Some [v])"
proof -
  have i: "os_inv s" by (rule os_reach_inv [OF assms])
  have "\<not> o_panic s" using i by (simp add: os_inv_def)
  moreover have "o_received s = [] \<or> (\<exists>v. o_received s = [v] \<and> o_sent s = Some (Inr v))" using received_was_sent [OF i] by blast
  moreover have "map_option o_received (os_events [Poll w, ReceiverStep, ReceiverStep, ReceiverStep] s) = Some [v]"
    if "o_sent s = Some (Inr v)" "o_rpc s = RIdle" "o_received s = []"
    using poll_takes [of s v w] sent_is_there [OF i that] that(2,3) by (simp only: append_Nil)
  ultimately show ?thesis using cells_exclusive [OF i] by blast
qed

definition os_sent_run :: "nat oneshot" where
  "os_sent_run = the (os_events ([Poll 7] @ replicate 5 ReceiverStep @ [Send 5] @ replicate 5 SenderStep) channel)"

theorem oneshot_delivers_once_witness:
  "map_option o_received (os_events [Poll 7, ReceiverStep, ReceiverStep, ReceiverStep] os_sent_run) = Some [5]"
proof -
  have "map_option o_received (os_events ([Poll 7] @ replicate 5 ReceiverStep @ [Send 5] @ replicate 5 SenderStep) channel) = Some ([] :: nat list)"
    by code_simp
  then have r: "os_reach os_sent_run"
    unfolding os_sent_run_def by (rule os_events_reach [OF os_start map_option_the(1)])
  have f: "o_sent os_sent_run = Some (Inr 5)" "o_rpc os_sent_run = RIdle" "o_received os_sent_run = []" by code_simp+
  show ?thesis using oneshot_delivers_once [OF r, of False 5 7] f by (simp only: simp_thms)
qed

text \<open>C40: A receiver whose poll was pending is not forgotten. Once the value is sent, or the sender dropped, and the sender has
  left its wake-up, the waker of the last poll has been called; and a sender that has begun to send or drop reaches
  that point within nine steps of its own, whatever it found.\<close>

theorem oneshot_wakes_receiver:
  assumes "os_reach s" "o_waiting s = Some w"
  shows "(o_state s \<noteq> INIT \<and> \<not> in_wake (o_spc s) \<longrightarrow> w \<in> set (o_woken s)) \<and>
    (o_spc s \<noteq> SIdle \<longrightarrow>
      (\<exists>n s'. n \<le> 9 \<and> os_events (replicate n SenderStep) s = Some s' \<and> o_spc s' = SGone \<and> w \<in> set (o_woken s')))"
proof -
  have i: "os_inv s" by (rule os_reach_inv [OF assms(1)])
  have "\<exists>n s'. n \<le> 9 \<and> os_events (replicate n SenderStep) s = Some s' \<and> o_spc s' = SGone \<and> w \<in> set (o_woken s')"
    if begun: "o_spc s \<noteq> SIdle"
  proof -
    obtain n s' where f: "n \<le> spc_rank (o_state s) (o_spc s)" "os_events (replicate n SenderStep) s = Some s'" "os_inv s'"
      "o_spc s' = SGone" "o_waiting s' = o_waiting s"
      using sender_finishes [OF i begun] by blast
    have "o_state s' \<noteq> INIT" using f(3,4) by (simp add: os_inv_def waker_inv_def)
    then have "w \<in> set (o_woken s')" using woken_when_done [OF f(3)] f(4,5) assms(2) by simp
    moreover have "n \<le> 9" using f(1) spc_rank_le le_trans by blast
    ultimately show ?thesis using f(2,4) by blast
  qed
  then show ?thesis using woken_when_done [OF i assms(2)] by blast
qed

definition os_waiting_run :: "nat oneshot" where
  "os_waiting_run = the (os_events ([Poll 7] @ replicate 5 ReceiverStep @ [DropSender]) channel)"

theorem oneshot_wakes_receiver_witness:
  "\<exists>n s'. n \<le> 9 \<and> os_events (replicate n SenderStep) os_waiting_run = Some s' \<and> o_spc s' = SGone \<and> 7 \<in> set (o_woken s')"
proof -
  have "map_option o_woken (os_events ([Poll 7] @ replicate 5 ReceiverStep @ [DropSender]) (channel :: nat oneshot)) = Some []"
    by code_simp
  then have r: "os_reach os_waiting_run"
    unfolding os_waiting_run_def by (rule os_events_reach [OF os_start map_option_the(1)])
  have f: "o_waiting os_waiting_run = Some 7" "o_spc os_waiting_run \<noteq> SIdle" by code_simp+
  show ?thesis using oneshot_wakes_receiver [OF r f(1)] f(2) by (simp only: simp_thms)
qed

end
