(* ===== verification/Read_Buf.thy ===== *)
theory Read_Buf
  imports Prelude
begin

text \<open>
  The buffer readers fill, \<open>ylong_runtime/src/io/read_buf.rs\<close>. A byte of memory is None while nothing
  has been written to it. Lengths of slices are below \<open>2\<^sup>6\<^sup>3\<close>, so that only sums with an
  argument of the caller can leave the range of a \<open>usize\<close>. An operation that panics answers None.
\<close>

type_synonym bytes = "u8 list"

datatype io_err = UnexpectedEof | WriteZero | InvalidData | OutOfMemory | OtherError nat

type_synonym 'a io_result = "io_err + 'a"

record read_buf =
  rb_buf :: "u8 option list"
  rb_filled :: nat
  rb_initialized :: nat

definition rb_new :: "bytes \<Rightarrow> read_buf" where
  "rb_new buf = \<lparr>rb_buf = map Some buf, rb_filled = 0, rb_initialized = length buf\<rparr>"

definition rb_create :: "u8 option list \<Rightarrow> nat \<Rightarrow> nat \<Rightarrow> read_buf" where
  "rb_create buf filled initialized = \<lparr>rb_buf = buf, rb_filled = filled, rb_initialized = initialized\<rparr>"

definition rb_uninit :: "u8 option list \<Rightarrow> read_buf" where
  "rb_uninit buf = \<lparr>rb_buf = buf, rb_filled = 0, rb_initialized = 0\<rparr>"

definition rb_capacity :: "read_buf \<Rightarrow> nat" where
  "rb_capacity b = length (rb_buf b)"

definition rb_remaining :: "read_buf \<Rightarrow> nat" where
  "rb_remaining b = length (rb_buf b) - rb_filled b"

text \<open>Reading a byte that was never written is undefined behaviour, the value None.\<close>

definition bytes_of :: "u8 option list \<Rightarrow> bytes option" where
  "bytes_of m = (if None \<in> set m then None else Some (map the m))"

definition rb_filled_bytes :: "read_buf \<Rightarrow> bytes option" where
  "rb_filled_bytes b = bytes_of (take (rb_filled b) (rb_buf b))"

definition rb_initialized_bytes :: "read_buf \<Rightarrow> bytes option" where
  "rb_initialized_bytes b = bytes_of (take (rb_initialized b) (rb_buf b))"

definition rb_unfilled :: "read_buf \<Rightarrow> u8 option list" where
  "rb_unfilled b = drop (rb_filled b) (rb_buf b)"

text \<open>The buffer \<open>take\<close> answers is a part of the memory; when it is given up its bytes stay there.\<close>

definition rb_take :: "nat \<Rightarrow> read_buf \<Rightarrow> read_buf" where
  "rb_take n b = rb_uninit (take (min n (rb_remaining b)) (rb_unfilled b))"

definition rb_end_take :: "read_buf \<Rightarrow> read_buf \<Rightarrow> read_buf" where
  "rb_end_take part b = b\<lparr>rb_buf := take (rb_filled b) (rb_buf b) @ rb_buf part @ drop (rb_filled b + rb_capacity part) (rb_buf b)\<rparr>"

definition rb_initialize_unfilled_to :: "nat \<Rightarrow> read_buf \<Rightarrow> (bytes \<times> read_buf) option" where
  "rb_initialize_unfilled_to n b =
     (if n > rb_remaining b then None
      else let end = rb_filled b + n;
               b' = (if rb_initialized b < end
                     then b\<lparr>rb_buf := take (rb_initialized b) (rb_buf b) @ replicate (end - rb_initialized b) (Some 0) @ drop end (rb_buf b),
                            rb_initialized := end\<rparr>
                     else b)
           in map_option (\<lambda>s. (s, b')) (bytes_of (take n (drop (rb_filled b) (rb_buf b')))))"

definition rb_initialize_unfilled :: "read_buf \<Rightarrow> (bytes \<times> read_buf) option" where
  "rb_initialize_unfilled b = rb_initialize_unfilled_to (rb_remaining b) b"

definition rb_clear :: "read_buf \<Rightarrow> read_buf" where
  "rb_clear b = b\<lparr>rb_filled := 0\<rparr>"

definition rb_set_filled :: "nat \<Rightarrow> read_buf \<Rightarrow> read_buf option" where
  "rb_set_filled n b = (if n \<le> rb_initialized b then Some (b\<lparr>rb_filled := n\<rparr>) else None)"

definition rb_advance :: "nat \<Rightarrow> read_buf \<Rightarrow> read_buf option" where
  "rb_advance n b = (if rb_filled b + n \<ge> 2 ^ 64 then None else rb_set_filled (rb_filled b + n) b)"

text \<open>The sum wraps, as it does in a build without overflow checks.\<close>

definition rb_assume_init :: "nat \<Rightarrow> read_buf \<Rightarrow> read_buf" where
  "rb_assume_init n b =
     (let end = min ((rb_filled b + n) mod 2 ^ 64) (rb_capacity b)
      in if end > rb_initialized b then b\<lparr>rb_initialized := end\<rparr> else b)"

definition rb_append :: "bytes \<Rightarrow> read_buf \<Rightarrow> read_buf option" where
  "rb_append s b =
     (if length s > rb_remaining b then None
      else let end = rb_filled b + length s
           in Some (b\<lparr>rb_buf := take (rb_filled b) (rb_buf b) @ map Some s @ drop end (rb_buf b),
                      rb_initialized := max (rb_initialized b) end, rb_filled := end\<rparr>))"

section \<open>The regions of the buffer\<close>

definition rb_ok :: "read_buf \<Rightarrow> bool" where
  "rb_ok b \<longleftrightarrow> rb_filled b \<le> rb_initialized b \<and> rb_initialized b \<le> rb_capacity b \<and> None \<notin> set (take (rb_initialized b) (rb_buf b))"

text \<open>The bytes of the filled region.\<close>

definition rb_content :: "read_buf \<Rightarrow> bytes" where
  "rb_content b = map the (take (rb_filled b) (rb_buf b))"

lemma rb_okD:
  assumes "rb_ok b"
  shows "rb_filled b \<le> rb_initialized b" "rb_initialized b \<le> rb_capacity b" "rb_filled b \<le> rb_capacity b"
    "rb_filled_bytes b = Some (rb_content b)" "\<exists>s. rb_initialized_bytes b = Some s \<and> length s = rb_initialized b \<and> take (rb_filled b) s = rb_content b"
proof -
  show f: "rb_filled b \<le> rb_initialized b" "rb_initialized b \<le> rb_capacity b" "rb_filled b \<le> rb_capacity b" using assms by (auto simp: rb_ok_def)
  have "set (take (rb_filled b) (rb_buf b)) \<subseteq> set (take (rb_initialized b) (rb_buf b))" by (rule set_take_subset_set_take [OF f(1)])
  then show "rb_filled_bytes b = Some (rb_content b)" using assms by (auto simp: rb_filled_bytes_def bytes_of_def rb_content_def rb_ok_def)
  show "\<exists>s. rb_initialized_bytes b = Some s \<and> length s = rb_initialized b \<and> take (rb_filled b) s = rb_content b"
    using assms f by (auto simp: rb_initialized_bytes_def bytes_of_def rb_content_def rb_ok_def rb_capacity_def take_map min_def)
qed

lemma rb_new_ok: "rb_ok (rb_new s)" "rb_content (rb_new s) = []" "rb_capacity (rb_new s) = length s" "rb_remaining (rb_new s) = length s"
  by (auto simp: rb_ok_def rb_new_def rb_content_def rb_capacity_def rb_remaining_def)

lemma rb_uninit_ok: "rb_ok (rb_uninit m)" "rb_content (rb_uninit m) = []" "rb_capacity (rb_uninit m) = length m" "rb_remaining (rb_uninit m) = length m"
  by (auto simp: rb_ok_def rb_uninit_def rb_content_def rb_capacity_def rb_remaining_def)

lemma rb_content_len: "rb_ok b \<Longrightarrow> length (rb_content b) = rb_filled b"
  by (auto simp: rb_ok_def rb_content_def rb_capacity_def)

lemma rb_clear_ok: "rb_ok b \<Longrightarrow> rb_ok (rb_clear b) \<and> rb_content (rb_clear b) = [] \<and> rb_capacity (rb_clear b) = rb_capacity b"
  by (auto simp: rb_ok_def rb_clear_def rb_content_def rb_capacity_def)

lemma rb_set_filled_ok:
  "rb_ok b \<Longrightarrow> rb_set_filled n b = Some b' \<Longrightarrow> rb_ok b' \<and> n \<le> rb_initialized b \<and> rb_filled b' = n \<and> rb_buf b' = rb_buf b \<and> rb_initialized b' = rb_initialized b"
  by (auto simp: rb_ok_def rb_set_filled_def rb_capacity_def split: if_splits)

lemma rb_append_ok:
  assumes ok: "rb_ok b" and s: "length s \<le> rb_remaining b"
  shows "\<exists>b'. rb_append s b = Some b' \<and> rb_ok b' \<and> rb_content b' = rb_content b @ s \<and> rb_capacity b' = rb_capacity b \<and>
    rb_filled b' = rb_filled b + length s \<and> rb_initialized b \<le> rb_initialized b'"
proof -
  let ?e = "rb_filled b + length s" and ?m = "take (rb_filled b) (rb_buf b) @ map Some s @ drop (rb_filled b + length s) (rb_buf b)"
  let ?b = "b\<lparr>rb_buf := ?m, rb_initialized := max (rb_initialized b) ?e, rb_filled := ?e\<rparr>"
  have f: "rb_filled b \<le> rb_initialized b" "rb_initialized b \<le> length (rb_buf b)" "?e \<le> length (rb_buf b)"
    using ok s by (auto simp: rb_ok_def rb_capacity_def rb_remaining_def)
  have len: "length ?m = length (rb_buf b)" using f by simp
  have "take (max (rb_initialized b) ?e) ?m = take (rb_filled b) (rb_buf b) @ map Some s @ drop ?e (take (rb_initialized b) (rb_buf b))"
    using f by (auto simp: max_def drop_take)
  moreover have "None \<notin> set (take (rb_filled b) (rb_buf b))" "None \<notin> set (drop ?e (take (rb_initialized b) (rb_buf b)))"
    using ok set_take_subset_set_take [OF f(1), of "rb_buf b"] by (auto simp: rb_ok_def dest: in_set_dropD)
  ultimately have "None \<notin> set (take (max (rb_initialized b) ?e) ?m)" by auto
  then have "rb_ok ?b" using f len by (simp add: rb_ok_def rb_capacity_def)
  moreover have "rb_content ?b = rb_content b @ s" using f by (simp add: rb_content_def comp_def)
  moreover have "rb_append s b = Some ?b" using s by (simp add: rb_append_def Let_def)
  ultimately show ?thesis using f len by (auto simp: rb_capacity_def)
qed

lemma rb_initialize_ok:
  assumes ok: "rb_ok b" and n: "n \<le> rb_remaining b"
  shows "\<exists>s b'. rb_initialize_unfilled_to n b = Some (s, b') \<and> length s = n \<and> rb_ok b' \<and> rb_content b' = rb_content b \<and>
    rb_filled b' = rb_filled b \<and> rb_capacity b' = rb_capacity b \<and> rb_initialized b' = max (rb_initialized b) (rb_filled b + n)"
proof -
  let ?e = "rb_filled b + n"
  have f: "rb_filled b \<le> rb_initialized b" "rb_initialized b \<le> length (rb_buf b)" "?e \<le> length (rb_buf b)"
    using ok n by (auto simp: rb_ok_def rb_capacity_def rb_remaining_def)
  have part: "None \<notin> set (take n (drop (rb_filled b) m))" if "None \<notin> set (take ?e m)" for m :: "u8 option list"
    using that by (metis add.commute drop_take in_set_dropD add_diff_cancel_left')
  show ?thesis
  proof (cases "rb_initialized b < ?e")
    case False
    then have "set (take ?e (rb_buf b)) \<subseteq> set (take (rb_initialized b) (rb_buf b))" by (intro set_take_subset_set_take) simp
    then have "None \<notin> set (take n (drop (rb_filled b) (rb_buf b)))" using ok part by (auto simp: rb_ok_def)
    then show ?thesis using False ok n f by (auto simp: rb_initialize_unfilled_to_def Let_def bytes_of_def max_def)
  next
    case True
    let ?m = "take (rb_initialized b) (rb_buf b) @ replicate (?e - rb_initialized b) (Some 0) @ drop ?e (rb_buf b)"
    have t: "take ?e ?m = take (rb_initialized b) (rb_buf b) @ replicate (?e - rb_initialized b) (Some 0)" using f True by simp
    then have nn: "None \<notin> set (take ?e ?m)" using ok by (auto simp: rb_ok_def)
    have len: "length ?m = length (rb_buf b)" using f True by simp
    have "take (rb_filled b) ?m = take (rb_filled b) (rb_buf b)" using f by simp
    then show ?thesis using True n nn part [OF nn] len f
      by (auto simp: rb_initialize_unfilled_to_def Let_def bytes_of_def max_def rb_ok_def rb_capacity_def rb_content_def)
  qed
qed

lemma rb_take_ok:
  assumes ok: "rb_ok b" and part: "rb_capacity part = rb_capacity (rb_take n b)" "rb_ok part"
    and sure: "rb_initialized b \<le> rb_filled b \<or> rb_initialized b \<le> rb_filled b + rb_initialized part \<or> rb_initialized part = rb_capacity part"
  shows "rb_ok (rb_take n b)" "rb_ok (rb_end_take part b)" "rb_content (rb_end_take part b) = rb_content b"
proof -
  show "rb_ok (rb_take n b)" by (simp add: rb_take_def rb_uninit_ok)
  have f: "rb_filled b \<le> rb_initialized b" "rb_initialized b \<le> length (rb_buf b)" using ok by (auto simp: rb_ok_def rb_capacity_def)
  have cap: "rb_filled b + rb_capacity part \<le> length (rb_buf b)"
    using part(1) f by (auto simp: rb_take_def rb_uninit_def rb_capacity_def rb_unfilled_def rb_remaining_def min_def)
  let ?r = "rb_initialized b - rb_filled b"
  have pm: "None \<notin> set (take ?r (rb_buf part))"
  proof (cases "?r \<le> rb_initialized part")
    case True
    then show ?thesis using part(2) set_take_subset_set_take [OF True, of "rb_buf part"] by (auto simp: rb_ok_def)
  next
    case False
    then have "rb_initialized part = rb_capacity part" using sure by auto
    then show ?thesis using part(2) by (auto simp: rb_ok_def rb_capacity_def dest: in_set_takeD)
  qed
  have t: "take (rb_initialized b) (rb_buf (rb_end_take part b)) =
    take (rb_filled b) (rb_buf b) @ take ?r (rb_buf part) @ drop (rb_filled b + rb_capacity part) (take (rb_initialized b) (rb_buf b))"
    using f cap by (auto simp: rb_end_take_def rb_capacity_def drop_take min_def)
  have "None \<notin> set (take (rb_filled b) (rb_buf b))" "None \<notin> set (drop (rb_filled b + rb_capacity part) (take (rb_initialized b) (rb_buf b)))"
    using ok set_take_subset_set_take [OF f(1), of "rb_buf b"] by (auto simp: rb_ok_def dest: in_set_dropD)
  then have "None \<notin> set (take (rb_initialized b) (rb_buf (rb_end_take part b)))" using pm t by simp
  then show "rb_ok (rb_end_take part b)" using f cap by (auto simp: rb_ok_def rb_end_take_def rb_capacity_def)
  show "rb_content (rb_end_take part b) = rb_content b" using f by (simp add: rb_content_def rb_end_take_def)
qed

section \<open>Uses of the buffer\<close>

datatype rb_op =
    RClear
  | RSetFilled nat
  | RAdvance nat
  | RAppend bytes
  | RInitialize nat
  | RAssumeInit nat

text \<open>
  One call, None when it panics. \<open>assume_init\<close> states that bytes were written; its caller has to be right
  about that, here that none of them is None.
\<close>

fun rb_step :: "rb_op \<Rightarrow> read_buf \<Rightarrow> read_buf option" where
  "rb_step RClear b = Some (rb_clear b)"
| "rb_step (RSetFilled n) b = rb_set_filled n b"
| "rb_step (RAdvance n) b = rb_advance n b"
| "rb_step (RAppend s) b = rb_append s b"
| "rb_step (RInitialize n) b = map_option snd (rb_initialize_unfilled_to n b)"
| "rb_step (RAssumeInit n) b = Some (rb_assume_init n b)"

definition rb_call_ok :: "rb_op \<Rightarrow> read_buf \<Rightarrow> bool" where
  "rb_call_ok x b = (case x of RAssumeInit n \<Rightarrow> None \<notin> set (take n (rb_unfilled b)) | _ \<Rightarrow> True)"

primrec rb_steps :: "rb_op list \<Rightarrow> read_buf \<Rightarrow> read_buf option" where
  "rb_steps [] b = Some b"
| "rb_steps (x # xs) b = (if rb_call_ok x b then case rb_step x b of None \<Rightarrow> None | Some b' \<Rightarrow> rb_steps xs b' else None)"

text \<open>When a call panics.\<close>

definition rb_panics :: "rb_op \<Rightarrow> read_buf \<Rightarrow> bool" where
  "rb_panics x b = (case x of
      RSetFilled n \<Rightarrow> n > rb_initialized b
    | RAdvance n \<Rightarrow> rb_filled b + n > rb_initialized b \<or> rb_filled b + n \<ge> 2 ^ 64
    | RAppend s \<Rightarrow> length s > rb_capacity b - rb_filled b
    | RInitialize n \<Rightarrow> n > rb_capacity b - rb_filled b
    | _ \<Rightarrow> False)"

lemma rb_assume_init_ok:
  assumes ok: "rb_ok b" and w: "None \<notin> set (take n (rb_unfilled b))"
  shows "rb_ok (rb_assume_init n b)"
proof -
  let ?e = "min ((rb_filled b + n) mod 2 ^ 64) (rb_capacity b)"
  have "None \<notin> set (take ?e (rb_buf b))"
  proof -
    have "?e \<le> rb_filled b + n" by (meson min.coboundedI1 mod_less_eq_dividend)
    then have "set (take ?e (rb_buf b)) \<subseteq> set (take (rb_filled b + n) (rb_buf b))" by (rule set_take_subset_set_take)
    also have "\<dots> = set (take (rb_filled b) (rb_buf b)) \<union> set (take n (rb_unfilled b))" by (simp add: take_add rb_unfilled_def)
    also have "set (take (rb_filled b) (rb_buf b)) \<subseteq> set (take (rb_initialized b) (rb_buf b))"
      using ok by (intro set_take_subset_set_take) (simp add: rb_ok_def)
    finally show ?thesis using ok w by (auto simp: rb_ok_def)
  qed
  then show ?thesis using ok by (auto simp: rb_assume_init_def Let_def rb_ok_def rb_capacity_def)
qed

lemma rb_step_ok:
  assumes "rb_ok b" "rb_call_ok x b"
  shows "(rb_step x b = None \<longleftrightarrow> rb_panics x b) \<and> (\<forall>b'. rb_step x b = Some b' \<longrightarrow> rb_ok b' \<and> rb_capacity b' = rb_capacity b)"
proof (cases x)
  case (RAppend s)
  then show ?thesis using rb_append_ok [OF assms(1), of s] by (auto simp: rb_panics_def rb_append_def rb_remaining_def rb_capacity_def Let_def)
next
  case (RInitialize n)
  then show ?thesis using rb_initialize_ok [OF assms(1), of n]
    by (cases "n \<le> rb_remaining b") (auto simp: rb_panics_def rb_initialize_unfilled_to_def rb_remaining_def rb_capacity_def)
next
  case (RAssumeInit n)
  then show ?thesis using rb_assume_init_ok [OF assms(1), of n] assms(2)
    by (auto simp: rb_panics_def rb_call_ok_def rb_assume_init_def rb_capacity_def Let_def)
qed (use assms rb_clear_ok [OF assms(1)] in \<open>auto simp: rb_panics_def rb_set_filled_def rb_advance_def rb_ok_def rb_capacity_def rb_clear_def split: if_splits\<close>)

lemma rb_steps_ok: "rb_ok b \<Longrightarrow> rb_steps xs b = Some b' \<Longrightarrow> rb_ok b' \<and> rb_capacity b' = rb_capacity b"
  by (induction xs arbitrary: b) (use rb_step_ok in \<open>fastforce split: option.splits if_splits\<close>)+



text \<open>
  A wrong \<open>assume_init\<close>, which any caller can make since it is not an unsafe function, exposes bytes that
  were never written.
\<close>

lemma assume_init_exposes: "rb_initialized_bytes (rb_assume_init 1 (rb_uninit [None])) = None"
  by code_simp

end
