(* ===== verification/Async_Read.thy ===== *)
theory Async_Read
  imports Read_Buf
begin

text \<open>
  Readers, \<open>ylong_runtime/src/io/async_read.rs\<close>, \<open>async_buf_read.rs\<close>, \<open>buffered/async_buf_reader.rs\<close> and the
  futures of \<open>read_task.rs\<close>. The traits are locales: an implementation is a function on its
  state, and the locale states what its callers rely on. The forwarding implementations for boxes,
  references and pins are the function they forward to. A panic is None.
\<close>

type_synonym 'r read_op = "'r \<Rightarrow> read_buf \<Rightarrow> (unit io_result poll \<times> 'r \<times> read_buf) option"
type_synonym 'r fill_op = "'r \<Rightarrow> (bytes io_result poll \<times> 'r) option"

section \<open>A slice as a reader\<close>

definition slice_poll_read :: "bytes read_op" where
  "slice_poll_read s buf =
     (let amt = min (rb_remaining buf) (length s)
      in map_option (\<lambda>b. (Ready (Inr ()), drop amt s, b)) (rb_append (take amt s) buf))"

section \<open>The buffered reader\<close>

record 'r buf_reader =
  br_inner :: 'r
  br_buf :: bytes
  br_pos :: nat
  br_filled :: nat

definition DEFAULT_BUF_SIZE :: nat where "DEFAULT_BUF_SIZE = 8 * 1024"

definition br_with_capacity :: "nat \<Rightarrow> 'r \<Rightarrow> 'r buf_reader" where
  "br_with_capacity capacity inner = \<lparr>br_inner = inner, br_buf = replicate capacity 0, br_pos = 0, br_filled = 0\<rparr>"

definition br_new :: "'r \<Rightarrow> 'r buf_reader" where
  "br_new inner = br_with_capacity DEFAULT_BUF_SIZE inner"

definition br_buffer :: "'r buf_reader \<Rightarrow> bytes option" where
  "br_buffer br = (if br_pos br \<le> br_filled br \<and> br_filled br \<le> length (br_buf br)
     then Some (drop (br_pos br) (take (br_filled br) (br_buf br))) else None)"

definition discard_buffer :: "'r buf_reader \<Rightarrow> 'r buf_reader" where
  "discard_buffer br = br\<lparr>br_pos := 0, br_filled := 0\<rparr>"

definition br_poll_fill_buf :: "'r read_op \<Rightarrow> 'r buf_reader fill_op" where
  "br_poll_fill_buf rd br =
     (if br_pos br \<ge> br_filled br
      then case rd (br_inner br) (rb_new (br_buf br)) of
             None \<Rightarrow> None
           | Some (a, r, b) \<Rightarrow>
               let br1 = br\<lparr>br_inner := r, br_buf := map the (rb_buf b)\<rparr> in
               (case a of
                  Pending \<Rightarrow> Some (Pending, br1)
                | Ready (Inl e) \<Rightarrow> Some (Ready (Inl e), br1)
                | Ready (Inr _) \<Rightarrow>
                    let br2 = br1\<lparr>br_pos := 0, br_filled := rb_filled b\<rparr>
                    in map_option (\<lambda>s. (Ready (Inr s), br2)) (br_buffer br2))
      else map_option (\<lambda>s. (Ready (Inr s), br)) (br_buffer br))"

definition br_consume :: "nat \<Rightarrow> 'r buf_reader \<Rightarrow> 'r buf_reader" where
  "br_consume amt br = br\<lparr>br_pos := min (br_pos br + amt) (br_filled br)\<rparr>"

definition br_poll_read :: "'r read_op \<Rightarrow> 'r buf_reader read_op" where
  "br_poll_read rd br buf =
     (if br_filled br = br_pos br \<and> rb_remaining buf \<ge> length (br_buf br)
      then let br1 = discard_buffer br in
           map_option (\<lambda>(a, r, b). (a, br1\<lparr>br_inner := r\<rparr>, b)) (rd (br_inner br1) buf)
      else case br_poll_fill_buf rd br of
             None \<Rightarrow> None
           | Some (Pending, br1) \<Rightarrow> Some (Pending, br1, buf)
           | Some (Ready (Inl e), br1) \<Rightarrow> Some (Ready (Inl e), br1, buf)
           | Some (Ready (Inr rem), br1) \<Rightarrow>
               let r_len = min (length rem) (rb_remaining buf)
               in map_option (\<lambda>b. (Ready (Inr ()), br_consume r_len br1, b)) (rb_append (take r_len rem) buf))"

section \<open>Reading tasks\<close>

text \<open>\<open>ReadTask\<close>: the reader is taken out of the future unless it is pending; polling again panics.\<close>

definition read_task_poll :: "'r read_op \<Rightarrow> bool \<Rightarrow> 'r \<Rightarrow> bytes \<Rightarrow> (nat io_result poll \<times> bool \<times> 'r \<times> bytes) option" where
  "read_task_poll rd has_reader r buf =
     (if \<not> has_reader then None
      else case rd r (rb_new buf) of
             None \<Rightarrow> None
           | Some (a, r', b) \<Rightarrow>
               let buf' = map the (rb_buf b) in
               (case a of
                  Ready (Inl e) \<Rightarrow> Some (Ready (Inl e), False, r', buf')
                | Ready (Inr _) \<Rightarrow> Some (Ready (Inr (rb_filled b)), False, r', buf')
                | Pending \<Rightarrow> Some (Pending, True, r', buf')))"

text \<open>
  \<open>poll_read_to_end\<close> on a vector of the given contents and capacity. \<open>grow\<close> is the capacity \<open>try_reserve\<close>
  leaves, None when there is no memory.
\<close>

definition PROBE_SIZE :: nat where "PROBE_SIZE = 32"

definition vec_read_buf :: "bytes \<Rightarrow> nat \<Rightarrow> read_buf option" where
  "vec_read_buf v cap =
     rb_set_filled (length v) (rb_assume_init (length v) (rb_uninit (map Some v @ replicate (cap - length v) None)))"

partial_function (option) poll_read_to_end ::
  "(nat \<Rightarrow> nat \<Rightarrow> nat option) \<Rightarrow> 'r read_op \<Rightarrow> bytes \<Rightarrow> nat \<Rightarrow> 'r \<Rightarrow> nat \<Rightarrow> (nat io_result poll \<times> bytes \<times> nat \<times> 'r \<times> nat) option" where
  "poll_read_to_end grow rd v cap r read_len =
     (case grow (length v) cap of
        None \<Rightarrow> Some (Ready (Inl OutOfMemory), v, cap, r, read_len)
      | Some cap' \<Rightarrow>
          (case vec_read_buf v cap' of
             None \<Rightarrow> None
           | Some buf \<Rightarrow>
               (case rd r buf of
                  None \<Rightarrow> None
                | Some (Pending, r', b) \<Rightarrow> Some (Pending, v, cap', r', read_len)
                | Some (Ready (Inl e), r', b) \<Rightarrow> Some (Ready (Inl e), v, cap', r', read_len)
                | Some (Ready (Inr _), r', b) \<Rightarrow>
                    if rb_filled b - length v = 0 then Some (Ready (Inr read_len), v, cap', r', 0)
                    else poll_read_to_end grow rd (map the (take (rb_filled b) (rb_buf b))) cap' r' (read_len + (rb_filled b - length v)))))"

text \<open>\<open>ReadExactTask\<close>.\<close>

partial_function (option) read_exact_loop :: "'r read_op \<Rightarrow> 'r \<Rightarrow> read_buf \<Rightarrow> (unit io_result poll \<times> 'r \<times> read_buf) option" where
  "read_exact_loop rd r buf =
     (let remain = rb_remaining buf in
      if remain = 0 then Some (Ready (Inr ()), r, buf)
      else case rd r buf of
             None \<Rightarrow> None
           | Some (Pending, r', b) \<Rightarrow> Some (Pending, r', b)
           | Some (Ready (Inl e), r', b) \<Rightarrow> Some (Ready (Inl e), r', b)
           | Some (Ready (Inr _), r', b) \<Rightarrow>
               if rb_remaining b = remain then Some (Ready (Inl UnexpectedEof), r', b) else read_exact_loop rd r' b)"

definition read_exact_poll :: "'r read_op \<Rightarrow> bool \<Rightarrow> 'r \<Rightarrow> read_buf \<Rightarrow> (unit io_result poll \<times> bool \<times> 'r \<times> read_buf) option" where
  "read_exact_poll rd has_reader r buf =
     (if \<not> has_reader then None
      else map_option (\<lambda>(a, r', b). (a, a = Pending, r', b)) (read_exact_loop rd r buf))"

text \<open>\<open>poll_read_until\<close> on a reader with a buffer.\<close>

fun position :: "('a \<Rightarrow> bool) \<Rightarrow> 'a list \<Rightarrow> nat option" where
  "position p [] = None"
| "position p (x # xs) = (if p x then Some 0 else map_option Suc (position p xs))"

partial_function (option) poll_read_until ::
  "'r fill_op \<Rightarrow> (nat \<Rightarrow> 'r \<Rightarrow> 'r) \<Rightarrow> u8 \<Rightarrow> bytes \<Rightarrow> 'r \<Rightarrow> nat \<Rightarrow> (nat io_result poll \<times> bytes \<times> 'r \<times> nat) option" where
  "poll_read_until fl co delim buf r read_len =
     (case fl r of
        None \<Rightarrow> None
      | Some (Pending, r') \<Rightarrow> Some (Pending, buf, r', read_len)
      | Some (Ready (Inl e), r') \<Rightarrow> Some (Ready (Inl e), buf, r', read_len)
      | Some (Ready (Inr available), r') \<Rightarrow>
          let (done, used) = (case position (\<lambda>x. x = delim) available of None \<Rightarrow> (False, length available) | Some i \<Rightarrow> (True, i + 1));
              buf' = buf @ take used available;
              r2 = co used r'
          in if done \<or> used = 0 then Some (Ready (Inr (read_len + used)), buf', r2, 0)
             else poll_read_until fl co delim buf' r2 (read_len + used))"

text \<open>\<open>SplitTask::poll_next\<close>.\<close>

definition split_poll_next :: "'r fill_op \<Rightarrow> (nat \<Rightarrow> 'r \<Rightarrow> 'r) \<Rightarrow> u8 \<Rightarrow> bytes \<Rightarrow> 'r \<Rightarrow> nat \<Rightarrow>
    (bytes option io_result poll \<times> bytes \<times> 'r \<times> nat) option" where
  "split_poll_next fl co delim buf r read_len =
     (case poll_read_until fl co delim buf r read_len of
        None \<Rightarrow> None
      | Some (Pending, buf', r', l) \<Rightarrow> Some (Pending, buf', r', l)
      | Some (Ready (Inl e), buf', r', l) \<Rightarrow> Some (Ready (Inl e), buf', r', l)
      | Some (Ready (Inr res), buf', r', l) \<Rightarrow>
          if buf' = [] \<and> res = 0 then Some (Ready (Inr None), buf', r', l)
          else Some (Ready (Inr (Some (if buf' \<noteq> [] \<and> last buf' = delim then butlast buf' else buf'))), [], r', l))"

section \<open>Text\<close>

text \<open>
  A \<open>String\<close> is its bytes, which are well-formed UTF-8; \<open>String::from_utf8\<close> is this check. The rows are those of
  the table of well-formed byte sequences of the Unicode standard.
\<close>

definition in_range :: "nat \<Rightarrow> nat \<Rightarrow> u8 \<Rightarrow> bool" where
  "in_range a b x \<longleftrightarrow> a \<le> unat x \<and> unat x \<le> b"

fun valid_utf8 :: "bytes \<Rightarrow> bool" where
  "valid_utf8 [] = True"
| "valid_utf8 (a # s) =
     (if in_range 0 127 a then valid_utf8 s
      else case s of
        [] \<Rightarrow> False
      | b # s \<Rightarrow>
          if in_range 194 223 a then in_range 128 191 b \<and> valid_utf8 s
          else case s of
            [] \<Rightarrow> False
          | c # s \<Rightarrow>
              if in_range 224 239 a
              then in_range (if unat a = 224 then 160 else 128) (if unat a = 237 then 159 else 191) b \<and> in_range 128 191 c \<and> valid_utf8 s
              else case s of
                [] \<Rightarrow> False
              | d # s \<Rightarrow>
                  in_range 240 244 a \<and> in_range (if unat a = 240 then 144 else 128) (if unat a = 244 then 143 else 191) b \<and>
                  in_range 128 191 c \<and> in_range 128 191 d \<and> valid_utf8 s)"

definition io_string_result :: "nat io_result \<Rightarrow> bytes \<Rightarrow> nat \<Rightarrow> (nat io_result \<times> bytes) option" where
  "io_string_result io_res vector read_len =
     (case io_res of
        Inr n \<Rightarrow>
          if valid_utf8 vector then Some (Inr n, vector)
          else let v = take (length vector - n) vector in if valid_utf8 v then Some (Inl InvalidData, v) else None
      | Inl e \<Rightarrow>
          if valid_utf8 vector then Some (Inl e, vector)
          else let v = take (length vector - read_len) vector in if valid_utf8 v then Some (Inl e, v) else None)"

text \<open>
  The \<open>poll\<close> of \<open>ReadToStringTask\<close>: \<open>buf\<close> starts as the bytes of the destination, which \<open>new\<close> takes out of it;
  the destination is written when the poll is ready.
\<close>

definition read_to_string_poll :: "(nat \<Rightarrow> nat \<Rightarrow> nat option) \<Rightarrow> 'r read_op \<Rightarrow> bytes \<Rightarrow> nat \<Rightarrow> 'r \<Rightarrow> nat \<Rightarrow> bytes \<Rightarrow>
    (nat io_result poll \<times> bytes \<times> nat \<times> 'r \<times> nat \<times> bytes) option" where
  "read_to_string_poll grow rd buf cap r read_len output =
     (case poll_read_to_end grow rd buf cap r read_len of
        None \<Rightarrow> None
      | Some (Pending, v, cap', r', l) \<Rightarrow> Some (Pending, v, cap', r', l, output)
      | Some (Ready res, v, cap', r', l) \<Rightarrow>
          map_option (\<lambda>(a, out). (Ready a, [], 0, r', l, out)) (io_string_result res v l))"

text \<open>\<open>ReadLineTask::poll\<close> and \<open>LinesTask::poll_next_line\<close>.\<close>

definition read_line_poll :: "'r fill_op \<Rightarrow> (nat \<Rightarrow> 'r \<Rightarrow> 'r) \<Rightarrow> bytes \<Rightarrow> 'r \<Rightarrow> nat \<Rightarrow> bytes \<Rightarrow>
    (nat io_result poll \<times> bytes \<times> 'r \<times> nat \<times> bytes) option" where
  "read_line_poll fl co buf r read_len output =
     (case poll_read_until fl co 10 buf r read_len of
        None \<Rightarrow> None
      | Some (Pending, v, r', l) \<Rightarrow> Some (Pending, v, r', l, output)
      | Some (Ready res, v, r', l) \<Rightarrow> map_option (\<lambda>(a, out). (Ready a, [], r', l, out)) (io_string_result res v l))"

definition chomp :: "bytes \<Rightarrow> bytes" where
  "chomp s = (if s \<noteq> [] \<and> last s = 10 then (let t = butlast s in if t \<noteq> [] \<and> last t = 13 then butlast t else t) else s)"

definition lines_poll_next :: "'r fill_op \<Rightarrow> (nat \<Rightarrow> 'r \<Rightarrow> 'r) \<Rightarrow> bytes \<Rightarrow> 'r \<Rightarrow> nat \<Rightarrow> bytes \<Rightarrow>
    (bytes option io_result poll \<times> bytes \<times> 'r \<times> nat \<times> bytes) option" where
  "lines_poll_next fl co buf r read_len output =
     (case read_line_poll fl co buf r read_len output of
        None \<Rightarrow> None
      | Some (Pending, v, r', l, out) \<Rightarrow> Some (Pending, v, r', l, out)
      | Some (Ready (Inl e), v, r', l, out) \<Rightarrow> Some (Ready (Inl e), v, r', l, out)
      | Some (Ready (Inr res), v, r', l, out) \<Rightarrow>
          if out = [] \<and> res = 0 then Some (Ready (Inr None), v, r', l, out)
          else Some (Ready (Inr (Some (chomp out))), v, r', l, []))"

section \<open>The contracts of the traits\<close>

text \<open>
  \<open>stream r\<close> is what a reader will still deliver up to its end. A poll that is ready without an error appends the next
  part of it to the filled region, and no byte only at the end; a poll that is pending or fails delivers nothing. Callers
  always give some room. \<open>good\<close> is what the implementation keeps of its own state.
\<close>

locale async_read =
  fixes rd :: "'r read_op" and good :: "'r \<Rightarrow> bool" and stream :: "'r \<Rightarrow> bytes"
  assumes poll_read: "good r \<Longrightarrow> rb_ok b \<Longrightarrow> 0 < rb_remaining b \<Longrightarrow>
    \<exists>a r' b'. rd r b = Some (a, r', b') \<and> good r' \<and> rb_ok b' \<and> rb_capacity b' = rb_capacity b \<and> rb_initialized b \<le> rb_initialized b' \<and>
      rb_content b' @ stream r' = rb_content b @ stream r \<and> rb_filled b \<le> rb_filled b' \<and>
      (a = Ready (Inr ()) \<and> rb_filled b' = rb_filled b \<longrightarrow> stream r = []) \<and> (a \<noteq> Ready (Inr ()) \<longrightarrow> rb_filled b' = rb_filled b)"

text \<open>
  A reader with a buffer shows the next part of its stream, nothing only at the end, and consuming up to that many
  bytes takes them off the stream.
\<close>

locale async_buf_read =
  fixes fl :: "'r fill_op" and co :: "nat \<Rightarrow> 'r \<Rightarrow> 'r" and good :: "'r \<Rightarrow> bool" and stream :: "'r \<Rightarrow> bytes"
  assumes fill_buf: "good r \<Longrightarrow>
    \<exists>a r'. fl r = Some (a, r') \<and> good r' \<and> stream r' = stream r \<and>
      (\<forall>s. a = Ready (Inr s) \<longrightarrow>
         (\<exists>rest. stream r = s @ rest \<and> (s = [] \<longrightarrow> rest = [])) \<and> (\<forall>n \<le> length s. good (co n r') \<and> stream (co n r') = drop n (stream r)))"

lemma take_append_eq: "xs @ ys = zs @ ws \<Longrightarrow> length zs \<le> length xs \<Longrightarrow> \<exists>k. xs = zs @ take k ws \<and> ys = drop k ws \<and> length xs = length zs + k \<and> k \<le> length ws"
  by (auto simp: append_eq_append_conv2)

interpretation slice: async_read slice_poll_read "\<lambda>_. True" "\<lambda>s. s"
proof
  fix r :: bytes and b :: read_buf assume ok: "rb_ok b" and room: "0 < rb_remaining b"
  let ?n = "min (rb_remaining b) (length r)"
  from rb_append_ok [OF ok, of "take ?n r"] obtain b' where b: "rb_append (take ?n r) b = Some b'" "rb_ok b'"
    "rb_content b' = rb_content b @ take ?n r" "rb_capacity b' = rb_capacity b" "rb_filled b' = rb_filled b + length (take ?n r)" "rb_initialized b \<le> rb_initialized b'" by auto
  then show "\<exists>a r' b'. slice_poll_read r b = Some (a, r', b') \<and> True \<and> rb_ok b' \<and> rb_capacity b' = rb_capacity b \<and> rb_initialized b \<le> rb_initialized b' \<and>
      rb_content b' @ r' = rb_content b @ r \<and> rb_filled b \<le> rb_filled b' \<and>
      (a = Ready (Inr ()) \<and> rb_filled b' = rb_filled b \<longrightarrow> r = []) \<and> (a \<noteq> Ready (Inr ()) \<longrightarrow> rb_filled b' = rb_filled b)"
    using room by (auto simp: slice_poll_read_def Let_def min_def split: if_splits)
qed

section \<open>Buffering keeps the contract\<close>

definition br_inv :: "('r \<Rightarrow> bool) \<Rightarrow> 'r buf_reader \<Rightarrow> bool" where
  "br_inv good br \<longleftrightarrow> good (br_inner br) \<and> br_pos br \<le> br_filled br \<and> br_filled br \<le> length (br_buf br)"

definition br_stream :: "('r \<Rightarrow> bytes) \<Rightarrow> 'r buf_reader \<Rightarrow> bytes" where
  "br_stream stream br = drop (br_pos br) (take (br_filled br) (br_buf br)) @ stream (br_inner br)"

lemma br_consume_ok:
  assumes "br_inv good br" "br_buffer br = Some s" "n \<le> length s"
  shows "br_inv good (br_consume n br)" "br_stream stream (br_consume n br) = drop n (br_stream stream br)" "br_buf (br_consume n br) = br_buf br"
  using assms by (auto simp: br_inv_def br_consume_def br_stream_def br_buffer_def min_def add.commute split: if_splits)

context async_read
begin

lemma fill_ok:
  assumes i: "br_inv good br" and room: "br_buf br \<noteq> []"
  shows "\<exists>a br'. br_poll_fill_buf rd br = Some (a, br') \<and> br_inv good br' \<and> br_stream stream br' = br_stream stream br \<and> length (br_buf br') = length (br_buf br) \<and>
    (\<forall>s. a = Ready (Inr s) \<longrightarrow> br_buffer br' = Some s \<and> (s = [] \<longrightarrow> br_stream stream br = []))"
proof (cases "br_pos br < br_filled br")
  case True
  then show ?thesis using i by (auto simp: br_poll_fill_buf_def br_buffer_def br_inv_def)
next
  case False
  then have e: "br_pos br = br_filled br" "good (br_inner br)" using i by (auto simp: br_inv_def)
  have n: "rb_filled (rb_new (br_buf br)) = 0" "rb_initialized (rb_new (br_buf br)) = length (br_buf br)" by (simp_all add: rb_new_def)
  have "0 < rb_remaining (rb_new (br_buf br))" using room by (simp add: rb_new_ok)
  from poll_read [OF e(2) rb_new_ok(1) this, unfolded rb_new_ok n append_Nil] obtain a r b where p: "rd (br_inner br) (rb_new (br_buf br)) = Some (a, r, b)" "good r" "rb_ok b"
    "rb_capacity b = length (br_buf br)" "length (br_buf br) \<le> rb_initialized b" "rb_content b @ stream r = stream (br_inner br)"
    "a = Ready (Inr ()) \<and> rb_filled b = 0 \<longrightarrow> stream (br_inner br) = []" "a \<noteq> Ready (Inr ()) \<longrightarrow> rb_filled b = 0"
    by blast
  have len: "length (rb_buf b) = length (br_buf br)" "rb_filled b \<le> length (br_buf br)" using p(3,4) by (auto simp: rb_ok_def rb_capacity_def)
  let ?b1 = "br\<lparr>br_inner := r, br_buf := map the (rb_buf b)\<rparr>"
  show ?thesis
  proof (cases "a = Ready (Inr ())")
    case True
    let ?b2 = "?b1\<lparr>br_pos := 0, br_filled := rb_filled b\<rparr>"
    have "br_stream stream ?b2 = rb_content b @ stream r" by (simp add: br_stream_def rb_content_def take_map)
    moreover have "br_inv good ?b2" using p(2) len by (simp add: br_inv_def)
    moreover have "br_buffer ?b2 = Some (rb_content b)" using len by (simp add: br_buffer_def rb_content_def take_map)
    moreover have "br_stream stream br = stream (br_inner br)" using e by (simp add: br_stream_def)
    ultimately show ?thesis using False True p len rb_content_len [OF p(3)] by (auto simp: br_poll_fill_buf_def)
  next
    case False
    then have "rb_filled b = 0" using p(8) by simp
    then have "rb_content b = []" by (simp add: rb_content_def)
    then have st: "br_stream stream ?b1 = br_stream stream br" "br_inv good ?b1" using p(2,6) e i len by (auto simp: br_stream_def br_inv_def)
    from False consider "a = Pending" | x where "a = Ready (Inl x)" by (metis (full_types) old.unit.exhaust poll.exhaust sum.exhaust)
    then show ?thesis using e p(1) len st by cases (simp_all add: br_poll_fill_buf_def)
  qed
qed

lemma buffered: "async_read (br_poll_read rd) (br_inv good) (br_stream stream)"
proof
  fix br b assume i: "br_inv good br" and ok: "rb_ok b" and room: "0 < rb_remaining b"
  let ?G = "\<lambda>x. \<exists>a r' b'. x = Some (a, r', b') \<and> br_inv good r' \<and> rb_ok b' \<and> rb_capacity b' = rb_capacity b \<and> rb_initialized b \<le> rb_initialized b' \<and>
      rb_content b' @ br_stream stream r' = rb_content b @ br_stream stream br \<and> rb_filled b \<le> rb_filled b' \<and>
      (a = Ready (Inr ()) \<and> rb_filled b' = rb_filled b \<longrightarrow> br_stream stream br = []) \<and> (a \<noteq> Ready (Inr ()) \<longrightarrow> rb_filled b' = rb_filled b)"
  show "?G (br_poll_read rd br b)"
  proof (cases "br_filled br = br_pos br \<and> rb_remaining b \<ge> length (br_buf br)")
    case True
    then have s: "br_stream stream br = stream (br_inner br)" "good (br_inner br)" using i by (auto simp: br_stream_def br_inv_def)
    from poll_read [OF s(2) ok room] obtain a r b' where p: "rd (br_inner br) b = Some (a, r, b')" "good r" "rb_ok b'" "rb_capacity b' = rb_capacity b" "rb_initialized b \<le> rb_initialized b'"
      "rb_content b' @ stream r = rb_content b @ stream (br_inner br)" "rb_filled b \<le> rb_filled b'"
      "a = Ready (Inr ()) \<and> rb_filled b' = rb_filled b \<longrightarrow> stream (br_inner br) = []" "a \<noteq> Ready (Inr ()) \<longrightarrow> rb_filled b' = rb_filled b" by blast
    let ?d = "(discard_buffer br)\<lparr>br_inner := r\<rparr>"
    have "br_poll_read rd br b = Some (a, ?d, b')" using True p(1) by (simp add: br_poll_read_def discard_buffer_def Let_def)
    moreover have "br_inv good ?d" "br_stream stream ?d = stream r" using p(2) by (simp_all add: br_inv_def br_stream_def discard_buffer_def)
    ultimately show ?thesis using p s(1) by simp
  next
    case False
    have "br_buf br \<noteq> []"
    proof
      assume "br_buf br = []"
      then have "br_filled br = 0" "br_pos br = 0" using i by (auto simp: br_inv_def)
      then show False using False \<open>br_buf br = []\<close> by simp
    qed
    from fill_ok [OF i this] obtain a br' where f: "br_poll_fill_buf rd br = Some (a, br')" "br_inv good br'" "br_stream stream br' = br_stream stream br"
      "length (br_buf br') = length (br_buf br)"
      "\<forall>s. a = Ready (Inr s) \<longrightarrow> br_buffer br' = Some s \<and> (s = [] \<longrightarrow> br_stream stream br = [])" by blast
    show ?thesis
    proof (cases "\<exists>s. a = Ready (Inr s)")
      case True
      then obtain s where s: "a = Ready (Inr s)" "br_buffer br' = Some s" "s = [] \<longrightarrow> br_stream stream br = []" using f(5) by auto
      let ?n = "min (length s) (rb_remaining b)"
      from rb_append_ok [OF ok, of "take ?n s"] obtain b' where b: "rb_append (take ?n s) b = Some b'" "rb_ok b'" "rb_content b' = rb_content b @ take ?n s"
        "rb_capacity b' = rb_capacity b" "rb_filled b' = rb_filled b + length (take ?n s)" "rb_initialized b \<le> rb_initialized b'" by auto
      note c = br_consume_ok [OF f(2) s(2), of ?n]
      have "br_stream stream br' = s @ stream (br_inner br')" using s(2) by (auto simp: br_stream_def br_buffer_def split: if_splits)
      then have st: "take ?n s @ drop ?n (br_stream stream br') = br_stream stream br'" by simp
      have r: "br_poll_read rd br b = Some (Ready (Inr ()), br_consume ?n br', b')" using False f(1) s(1) b(1) by (auto simp: br_poll_read_def Let_def)
      have "?n = 0 \<longrightarrow> br_stream stream br = []" using s(3) room by (auto simp: min_def split: if_splits)
      then show ?thesis using r b c st f(3) by auto
    next
      case n: False
      then consider "a = Pending" | e where "a = Ready (Inl e)" by (metis poll.exhaust sum.exhaust)
      then show ?thesis using False f ok by cases (auto simp: br_poll_read_def)
    qed
  qed
qed

lemma buf_reader: "async_buf_read (br_poll_fill_buf rd) br_consume (\<lambda>br. br_inv good br \<and> br_buf br \<noteq> []) (br_stream stream)"
proof
  fix br assume i: "br_inv good br \<and> br_buf br \<noteq> []"
  from fill_ok [of br] i obtain a br' where f: "br_poll_fill_buf rd br = Some (a, br')" "br_inv good br'" "br_stream stream br' = br_stream stream br"
    "length (br_buf br') = length (br_buf br)"
    "\<forall>s. a = Ready (Inr s) \<longrightarrow> br_buffer br' = Some s \<and> (s = [] \<longrightarrow> br_stream stream br = [])" by metis
  have ne: "br_buf br' \<noteq> []" using i f(4) by auto
  show "\<exists>a r'. br_poll_fill_buf rd br = Some (a, r') \<and> (br_inv good r' \<and> br_buf r' \<noteq> []) \<and> br_stream stream r' = br_stream stream br \<and>
      (\<forall>s. a = Ready (Inr s) \<longrightarrow> (\<exists>rest. br_stream stream br = s @ rest \<and> (s = [] \<longrightarrow> rest = [])) \<and>
         (\<forall>n \<le> length s. (br_inv good (br_consume n r') \<and> br_buf (br_consume n r') \<noteq> []) \<and> br_stream stream (br_consume n r') = drop n (br_stream stream br)))"
  proof (cases "\<exists>s. a = Ready (Inr s)")
    case True
    then obtain s where s: "a = Ready (Inr s)" "br_buffer br' = Some s" "s = [] \<longrightarrow> br_stream stream br = []" using f(5) by auto
    have "br_stream stream br = s @ stream (br_inner br')" using s(2) f(3) by (auto simp: br_stream_def br_buffer_def split: if_splits)
    then show ?thesis using f s ne br_consume_ok [OF f(2) s(2)] by auto
  next
    case False
    then show ?thesis using f ne by (auto split: poll.splits sum.splits)
  qed
qed

end

section \<open>The tasks on any reader\<close>

lemma vec_read_buf_ok:
  assumes "length v \<le> cap" "length v < 2 ^ 64"
  shows "\<exists>b. vec_read_buf v cap = Some b \<and> rb_ok b \<and> rb_content b = v \<and> rb_capacity b = cap \<and> rb_filled b = length v"
proof -
  let ?m = "map Some v @ replicate (cap - length v) (None :: u8 option)"
  let ?b = "\<lparr>rb_buf = ?m, rb_filled = length v, rb_initialized = length v\<rparr>"
  have "rb_assume_init (length v) (rb_uninit ?m) = (rb_uninit ?m)\<lparr>rb_initialized := length v\<rparr>"
    using assms by (auto simp: rb_assume_init_def rb_uninit_def rb_capacity_def Let_def)
  then have "vec_read_buf v cap = Some ?b" by (simp add: vec_read_buf_def rb_set_filled_def rb_uninit_def)
  moreover have "rb_ok ?b" "rb_content ?b = v" "rb_capacity ?b = cap" using assms by (auto simp: rb_ok_def rb_content_def rb_capacity_def comp_def)
  ultimately show ?thesis by simp
qed

text \<open>What \<open>try_reserve\<close> promises: room for the probe, and no vector longer than memory.\<close>

definition grow_ok :: "(nat \<Rightarrow> nat \<Rightarrow> nat option) \<Rightarrow> bool" where
  "grow_ok grow \<longleftrightarrow> (\<forall>l c c'. grow l c = Some c' \<longrightarrow> l + PROBE_SIZE \<le> c' \<and> c \<le> c' \<and> c' < 2 ^ 63)"

context async_read
begin

lemma read_to_end_ok:
  assumes g: "grow_ok grow" and r: "good r"
  shows "\<exists>a v' cap' r' l'. poll_read_to_end grow rd v cap r l = Some (a, v', cap', r', l') \<and> good r' \<and> v' @ stream r' = v @ stream r \<and> length v \<le> length v' \<and>
    (\<forall>n. a = Ready (Inr n) \<longrightarrow> stream r' = [] \<and> n = l + (length v' - length v) \<and> l' = 0) \<and>
    ((\<forall>n. a \<noteq> Ready (Inr n)) \<longrightarrow> l' = l + (length v' - length v))"
  using r
proof (induction "length (stream r)" arbitrary: v cap r l rule: less_induct)
  case less
  show ?case
  proof (cases "grow (length v) cap")
    case None
    then show ?thesis using less(2) by (subst poll_read_to_end.simps) auto
  next
    case (Some c)
    then have c: "length v + 32 \<le> c" "c < 2 ^ 63" using g by (auto simp: grow_ok_def PROBE_SIZE_def)
    obtain b where b: "vec_read_buf v c = Some b" "rb_ok b" "rb_content b = v" "rb_capacity b = c" "rb_filled b = length v"
      using vec_read_buf_ok [of v c] c by auto
    have rem: "0 < rb_remaining b" using b(4,5) c(1) by (simp add: rb_remaining_def rb_capacity_def)
    obtain a r' b' where p: "rd r b = Some (a, r', b')" "good r'" "rb_ok b'" "rb_content b' @ stream r' = v @ stream r" "length v \<le> rb_filled b'"
      "a = Ready (Inr ()) \<and> rb_filled b' = length v \<longrightarrow> stream r = []" "a \<noteq> Ready (Inr ()) \<longrightarrow> rb_filled b' = length v"
      using poll_read [OF less(2) b(2) rem] b(3,5) by auto
    have len: "length (rb_content b') = rb_filled b'" using rb_content_len [OF p(3)] .
    consider (stop) "a \<noteq> Ready (Inr ())" | (fin) "a = Ready (Inr ())" "rb_filled b' = length v" | (more) "a = Ready (Inr ())" "length v < rb_filled b'"
      using p(5) by linarith
    then show ?thesis
    proof cases
      case stop
      then have st: "rb_content b' = v" "stream r' = stream r" using p(4,7) len by (simp_all add: append_eq_append_conv)
      from stop consider "a = Pending" | e where "a = Ready (Inl e)" by (metis (full_types) old.unit.exhaust poll.exhaust sum.exhaust)
      then show ?thesis using Some b(1) p(1,2) st by cases (simp_all add: poll_read_to_end.simps)
    next
      case fin
      then have "rb_content b' = v" "stream r' = stream r" using p(4) len by (simp_all add: append_eq_append_conv)
      then show ?thesis using Some b(1) p(1,2,6) fin by (simp add: poll_read_to_end.simps)
    next
      case more
      have "length (stream r') < length (stream r)" using more(2) len arg_cong [OF p(4), of length] by simp
      from less(1) [OF this p(2), of "rb_content b'" c "l + (rb_filled b' - length v)"] obtain a2 v2 c2 r2 l2 where
        i: "poll_read_to_end grow rd (rb_content b') c r' (l + (rb_filled b' - length v)) = Some (a2, v2, c2, r2, l2)" "good r2" "v2 @ stream r2 = rb_content b' @ stream r'"
        "length (rb_content b') \<le> length v2"
        "\<forall>n. a2 = Ready (Inr n) \<longrightarrow> stream r2 = [] \<and> n = l + (rb_filled b' - length v) + (length v2 - length (rb_content b')) \<and> l2 = 0"
        "(\<forall>n. a2 \<noteq> Ready (Inr n)) \<longrightarrow> l2 = l + (rb_filled b' - length v) + (length v2 - length (rb_content b'))" by blast
      have "poll_read_to_end grow rd v cap r l = Some (a2, v2, c2, r2, l2)"
        using Some b(1) p(1) more i(1) by (simp add: poll_read_to_end.simps [of grow rd v] rb_content_def)
      then show ?thesis using i(2-) p(4) more(2) len by auto
    qed
  qed
qed

lemma read_exact_ok:
  assumes "good r" "rb_ok b"
  shows "\<exists>a r' b'. read_exact_loop rd r b = Some (a, r', b') \<and> good r' \<and> rb_ok b' \<and> rb_capacity b' = rb_capacity b \<and> rb_content b' @ stream r' = rb_content b @ stream r \<and>
    rb_filled b \<le> rb_filled b' \<and> (a = Ready (Inr ()) \<longrightarrow> rb_remaining b' = 0)"
  using assms
proof (induction "rb_remaining b" arbitrary: b r rule: less_induct)
  case less
  show ?case
  proof (cases "rb_remaining b = 0")
    case True
    then show ?thesis using less(2,3) by (subst read_exact_loop.simps) simp
  next
    case False
    obtain a r' b' where p: "rd r b = Some (a, r', b')" "good r'" "rb_ok b'" "rb_capacity b' = rb_capacity b" "rb_content b' @ stream r' = rb_content b @ stream r" "rb_filled b \<le> rb_filled b'"
      using poll_read [OF less(2,3)] False by blast
    show ?thesis
    proof (cases "a = Ready (Inr ()) \<and> rb_remaining b' \<noteq> rb_remaining b")
      case True
      then have lt: "rb_remaining b' < rb_remaining b" using p(4,6) by (auto simp: rb_remaining_def rb_capacity_def)
      have "read_exact_loop rd r b = read_exact_loop rd r' b'" using False True p(1) by (simp add: read_exact_loop.simps [of rd r] Let_def)
      then show ?thesis using less(1) [OF lt p(2,3)] p(4-6) by fastforce
    next
      case n: False
      have "\<exists>x. read_exact_loop rd r b = Some (x, r', b') \<and> x \<noteq> Ready (Inr ())"
        using False n p(1) by (cases a) (auto simp: read_exact_loop.simps [of rd r] Let_def split: sum.splits)
      then show ?thesis using p by blast
    qed
  qed
qed

end

fun segment :: "u8 \<Rightarrow> bytes \<Rightarrow> bytes" where
  "segment d [] = []"
| "segment d (x # xs) = (if x = d then [d] else x # segment d xs)"

lemma position_segment:
  "position (\<lambda>x. x = d) s = None \<Longrightarrow> segment d (s @ t) = s @ segment d t"
  "position (\<lambda>x. x = d) s = Some i \<Longrightarrow> segment d (s @ t) = take (Suc i) s \<and> i < length s \<and> s ! i = d"
proof -
  show "position (\<lambda>x. x = d) s = None \<Longrightarrow> segment d (s @ t) = s @ segment d t" by (induction s) (auto split: if_splits)
  show "position (\<lambda>x. x = d) s = Some i \<Longrightarrow> segment d (s @ t) = take (Suc i) s \<and> i < length s \<and> s ! i = d"
    by (induction s arbitrary: i) (auto split: if_splits)
qed

lemma segment_prefix: "segment d s = take (length (segment d s)) s" "length (segment d s) \<le> length s" "segment d s = [] \<longleftrightarrow> s = []"
  by (induction s) auto

context async_buf_read
begin

lemma read_until_ok:
  assumes "good r"
  shows "\<exists>a v' r' l'. poll_read_until fl co d v r l = Some (a, v', r', l') \<and> good r' \<and> v' @ stream r' = v @ stream r \<and>
    (\<forall>n. a = Ready (Inr n) \<longrightarrow> v' = v @ segment d (stream r) \<and> n = l + length (segment d (stream r)) \<and> l' = 0) \<and>
    ((\<forall>n. a \<noteq> Ready (Inr n)) \<longrightarrow> (\<exists>k. v' = v @ take k (stream r) \<and> k \<le> length (stream r) \<and> d \<notin> set (take k (stream r)) \<and> l' = l + k))"
  using assms
proof (induction "length (stream r)" arbitrary: r v l rule: less_induct)
  case less
  obtain a r1 where f: "fl r = Some (a, r1)" "good r1" "stream r1 = stream r"
    "\<And>s. a = Ready (Inr s) \<Longrightarrow> \<exists>rest. stream r = s @ rest \<and> (s = [] \<longrightarrow> rest = [])"
    "\<And>s n. a = Ready (Inr s) \<Longrightarrow> n \<le> length s \<Longrightarrow> good (co n r1) \<and> stream (co n r1) = drop n (stream r)"
    using fill_buf [OF less(2)] by blast
  show ?case
  proof (cases "\<exists>s. a = Ready (Inr s)")
    case False
    then consider "a = Pending" | e where "a = Ready (Inl e)" by (metis poll.exhaust sum.exhaust)
    then have "\<exists>x. poll_read_until fl co d v r l = Some (x, v, r1, l) \<and> (\<forall>n. x \<noteq> Ready (Inr n))"
      using f(1) by cases (simp_all add: poll_read_until.simps [of fl co d v r l])
    then obtain x where "poll_read_until fl co d v r l = Some (x, v, r1, l)" "\<forall>n. x \<noteq> Ready (Inr n)" by blast
    then show ?thesis using f(2,3) by (intro exI [of _ x] exI [of _ v] exI [of _ r1] exI [of _ l]) (auto intro!: exI [of _ "0::nat"])
  next
    case True
    then obtain s rest where s: "a = Ready (Inr s)" "stream r = s @ rest" "s = [] \<longrightarrow> rest = []" using f(4) by blast
    show ?thesis
    proof (cases "position (\<lambda>x. x = d) s")
      case (Some i)
      note ps = position_segment(2) [OF Some, of rest]
      have "poll_read_until fl co d v r l = Some (Ready (Inr (l + Suc i)), v @ take (Suc i) s, co (Suc i) r1, 0)"
        using f(1) s(1) Some by (simp add: poll_read_until.simps [of fl co d v r l])
      then show ?thesis using f(5) [OF s(1), of "Suc i"] ps s(2) by auto
    next
      case None
      note pn = position_segment(1) [OF None, of rest]
      have nd: "d \<notin> set s" using None by (induction s) (auto split: if_splits)
      show ?thesis
      proof (cases "s = []")
        case True
        then have "poll_read_until fl co d v r l = Some (Ready (Inr l), v, co 0 r1, 0)" using f(1) s(1) by (simp add: poll_read_until.simps [of fl co d v r l])
        then show ?thesis using f(5) [OF s(1), of 0] True s(2,3) by auto
      next
        case ne: False
        let ?r = "co (length s) r1"
        have c: "good ?r" "stream ?r = rest" using f(5) [OF s(1), of "length s"] s(2) by auto
        have "length (stream ?r) < length (stream r)" using ne s(2) c(2) by simp
        note ih = less(1) [OF this c(1), of "v @ s" "l + length s"]
        have eq: "poll_read_until fl co d v r l = poll_read_until fl co d (v @ s) ?r (l + length s)"
          using f(1) s(1) None ne by (simp add: poll_read_until.simps [of fl co d v r l])
        from ih obtain a2 v2 r2 l2 where i: "poll_read_until fl co d (v @ s) ?r (l + length s) = Some (a2, v2, r2, l2)" "good r2" "v2 @ stream r2 = (v @ s) @ rest"
          "\<forall>n. a2 = Ready (Inr n) \<longrightarrow> v2 = (v @ s) @ segment d rest \<and> n = l + length s + length (segment d rest) \<and> l2 = 0"
          "(\<forall>n. a2 \<noteq> Ready (Inr n)) \<longrightarrow> (\<exists>k. v2 = (v @ s) @ take k rest \<and> k \<le> length rest \<and> d \<notin> set (take k rest) \<and> l2 = l + length s + k)"
          unfolding c(2) by blast
        have B: "\<exists>k. v2 = v @ take k (stream r) \<and> k \<le> length (stream r) \<and> d \<notin> set (take k (stream r)) \<and> l2 = l + k" if "\<forall>n. a2 \<noteq> Ready (Inr n)"
        proof -
          from i(5) that obtain k where "v2 = (v @ s) @ take k rest" "k \<le> length rest" "d \<notin> set (take k rest)" "l2 = l + length s + k" by blast
          then show ?thesis using nd s(2) by (intro exI [of _ "length s + k"]) simp
        qed
        have A: "\<forall>n. a2 = Ready (Inr n) \<longrightarrow> v2 = v @ segment d (stream r) \<and> n = l + length (segment d (stream r)) \<and> l2 = 0"
          using i(4) by (simp add: s(2) pn add.assoc)
        have C: "v2 @ stream r2 = v @ stream r" using i(3) by (simp add: s(2))
        show ?thesis unfolding eq i(1) using A B C i(2) by blast
      qed
    qed
  qed
qed

end

section \<open>Properties\<close>

lemma br_capacity_ok: "good r \<Longrightarrow> br_inv good (br_with_capacity k r)" "br_stream stream (br_with_capacity k r) = stream r"
  by (simp_all add: br_inv_def br_stream_def br_with_capacity_def)

interpretation slice_buf: async_buf_read "br_poll_fill_buf slice_poll_read" br_consume "\<lambda>br. br_inv (\<lambda>_. True) br \<and> br_buf br \<noteq> []" "br_stream (\<lambda>s. s)"
  by (rule slice.buf_reader)

definition grow_example :: "nat \<Rightarrow> nat \<Rightarrow> nat option" where
  "grow_example l c = (let c' = max c (l + PROBE_SIZE) in if c' < 2 ^ 63 then Some c' else None)"

lemma grow_example_ok: "grow_ok grow_example"
  by (auto simp: grow_ok_def grow_example_def Let_def split: if_splits)

text \<open>
  C32: Buffering changes nothing of what is read. A buffered reader of any capacity over a reader that keeps the
  contract of \<open>AsyncRead\<close> keeps that contract, for the same stream. Reading to the end, directly or through the
  buffer, never panics and always comes back; what has been read and what is left make up the stream at all times;
  and when it is ready both have delivered the whole stream and answer its length.
\<close>

theorem buffering_is_transparent:
  assumes "async_read rd good stream" "good r" "grow_ok grow"
  shows "async_read (br_poll_read rd) (br_inv good) (br_stream stream) \<and>
    (\<exists>a v' cap' r' l. poll_read_to_end grow rd v cap r 0 = Some (a, v', cap', r', l) \<and> v' @ stream r' = v @ stream r \<and>
       (\<forall>n. a = Ready (Inr n) \<longrightarrow> v' = v @ stream r \<and> n = length (stream r))) \<and>
    (\<exists>a v' cap' br' l. poll_read_to_end grow (br_poll_read rd) v cap (br_with_capacity k r) 0 = Some (a, v', cap', br', l) \<and>
       v' @ br_stream stream br' = v @ stream r \<and> (\<forall>n. a = Ready (Inr n) \<longrightarrow> v' = v @ stream r \<and> n = length (stream r)))"
proof (intro conjI)
  show b: "async_read (br_poll_read rd) (br_inv good) (br_stream stream)" by (rule async_read.buffered [OF assms(1)])
  have fin: "v' = v @ s \<and> n = length s" if "v' @ t = v @ s" "t = []" "n = 0 + (length v' - length v)" for v' t s :: bytes and n using that by simp
  from async_read.read_to_end_ok [OF assms(1,3,2), of v cap 0] show "\<exists>a v' cap' r' l. poll_read_to_end grow rd v cap r 0 = Some (a, v', cap', r', l) \<and> v' @ stream r' = v @ stream r \<and>
       (\<forall>n. a = Ready (Inr n) \<longrightarrow> v' = v @ stream r \<and> n = length (stream r))" using fin by blast
  from async_read.read_to_end_ok [OF b assms(3) br_capacity_ok(1) [of good r k], of v cap 0] assms(2)
  show "\<exists>a v' cap' br' l. poll_read_to_end grow (br_poll_read rd) v cap (br_with_capacity k r) 0 = Some (a, v', cap', br', l) \<and>
       v' @ br_stream stream br' = v @ stream r \<and> (\<forall>n. a = Ready (Inr n) \<longrightarrow> v' = v @ stream r \<and> n = length (stream r))"
    unfolding br_capacity_ok(2) [of stream k r] using fin by blast
qed

theorem buffering_is_transparent_witness:
  "\<exists>a v' cap' br' l. poll_read_to_end grow_example (br_poll_read slice_poll_read) [7] 1 (br_with_capacity 3 [1, 2, 3, 4, 5]) 0 = Some (a, v', cap', br', l) \<and>
     v' @ br_stream (\<lambda>s. s) br' = [7, 1, 2, 3, 4, 5]"
  using buffering_is_transparent [OF slice.async_read_axioms TrueI grow_example_ok, where v = "[7]" and cap = 1 and r = "[1, 2, 3, 4, 5]" and k = 3] by auto

text \<open>The segments of a stream: cut after every delimiter, the delimiter left out.\<close>

definition strip :: "u8 \<Rightarrow> bytes \<Rightarrow> bytes" where
  "strip d s = (if s \<noteq> [] \<and> last s = d then butlast s else s)"

function segments :: "u8 \<Rightarrow> bytes \<Rightarrow> bytes list" where
  "segments d s = (if s = [] then [] else strip d (segment d s) # segments d (drop (length (segment d s)) s))"
  by pat_completeness auto
termination
  by (relation "measure (\<lambda>(d, s). length s)") (auto simp: segment_prefix(3))

lemma segment_append: "d \<notin> set xs \<Longrightarrow> segment d (xs @ ys) = xs @ segment d ys"
  by (induction xs) auto

declare segments.simps [simp del]

text \<open>
  C33: \<open>SplitTask\<close> yields the segments of the stream, in order, however the reader cuts it up: if the bytes held so far
  contain no delimiter, a poll that is ready takes the next segment of the held bytes and the stream together off
  them, or answers that there is none exactly when nothing is left; a poll that is pending or fails loses nothing.
\<close>

theorem split_yields_segments:
  assumes "async_buf_read fl co good stream" "good r" "d \<notin> set buf" "l = length buf"
  shows "\<exists>a buf' r' l'. split_poll_next fl co d buf r l = Some (a, buf', r', l') \<and> good r' \<and> d \<notin> set buf' \<and> l' = length buf' \<and>
    (case a of
       Ready (Inr (Some s)) \<Rightarrow> segments d (buf @ stream r) = s # segments d (stream r') \<and> buf' = []
     | Ready (Inr None) \<Rightarrow> buf @ stream r = [] \<and> buf' @ stream r' = []
     | _ \<Rightarrow> buf' @ stream r' = buf @ stream r)"
proof -
  from async_buf_read.read_until_ok [OF assms(1,2), of d buf l] obtain a v' r' l' where u: "poll_read_until fl co d buf r l = Some (a, v', r', l')" "good r'"
    "v' @ stream r' = buf @ stream r" "\<forall>n. a = Ready (Inr n) \<longrightarrow> v' = buf @ segment d (stream r) \<and> n = l + length (segment d (stream r)) \<and> l' = 0"
    "(\<forall>n. a \<noteq> Ready (Inr n)) \<longrightarrow> (\<exists>k. v' = buf @ take k (stream r) \<and> k \<le> length (stream r) \<and> d \<notin> set (take k (stream r)) \<and> l' = l + k)" by blast
  show ?thesis
  proof (cases "\<exists>n. a = Ready (Inr n)")
    case False
    then have h: "d \<notin> set v'" "l' = length v'" using u(5) assms(3,4) by auto
    from False consider "a = Pending" | e where "a = Ready (Inl e)" by (metis poll.exhaust sum.exhaust)
    then have "\<exists>x. split_poll_next fl co d buf r l = Some (x, v', r', l') \<and> (x = Pending \<or> (\<exists>e. x = Ready (Inl e)))"
      by cases (simp_all add: split_poll_next_def u(1))
    then obtain x where "split_poll_next fl co d buf r l = Some (x, v', r', l')" "x = Pending \<or> (\<exists>e. x = Ready (Inl e))" by blast
    then show ?thesis using u(2,3) h by (intro exI [of _ x] exI [of _ v'] exI [of _ r'] exI [of _ l']) auto
  next
    case True
    then obtain n where a: "a = Ready (Inr n)" by blast
    then have "v' = buf @ segment d (stream r)" "n = l + length (segment d (stream r))" "l' = 0" using u(4) by blast+
    then have n: "a = Ready (Inr n)" "v' = segment d (buf @ stream r)" "n = length v'" "l' = 0" using a assms(4) segment_append [OF assms(3)] by simp_all
    have left: "stream r' = drop (length v') (buf @ stream r)" using u(3) by (metis append_eq_conv_conj)
    show ?thesis
    proof (cases "v' = []")
      case True
      then have "split_poll_next fl co d buf r l = Some (Ready (Inr None), [], r', 0)" using u(1) n by (simp add: split_poll_next_def)
      moreover have "buf @ stream r = []" using True n(2) segment_prefix(3) [of d "buf @ stream r"] by metis
      ultimately show ?thesis using u(2,3) True by simp
    next
      case False
      then have "split_poll_next fl co d buf r l = Some (Ready (Inr (Some (strip d v'))), [], r', l')" using u(1) n(1) by (simp add: split_poll_next_def strip_def)
      moreover have "buf @ stream r \<noteq> []" using False n(2) by auto
      then have "segments d (buf @ stream r) = strip d v' # segments d (stream r')" by (subst segments.simps) (simp only: left n(2) if_False)
      ultimately show ?thesis using u(2) n(4) by simp
    qed
  qed
qed

theorem split_yields_segments_witness:
  "\<exists>a buf' r' l'. split_poll_next (br_poll_fill_buf slice_poll_read) br_consume 44 [1, 2] (br_with_capacity 3 [3, 44, 5]) 2 = Some (a, buf', r', l') \<and> l' = length buf'"
proof -
  have "br_inv (\<lambda>_. True) (br_with_capacity 3 [3, 44, 5 :: u8]) \<and> br_buf (br_with_capacity 3 [3, 44, 5 :: u8]) \<noteq> []" by (simp add: br_inv_def br_with_capacity_def)
  moreover have "(44 :: u8) \<notin> set [1, 2]" "2 = length [1, 2 :: u8]" by code_simp+
  ultimately show ?thesis using split_yields_segments [OF slice_buf.async_buf_read_axioms] by blast
qed

lemma io_string_result_ok:
  assumes "valid_utf8 dst" "v = dst @ x" "case res of Inr n \<Rightarrow> n = length x | Inl _ \<Rightarrow> l = length x"
  shows "\<exists>res' out. io_string_result res v l = Some (res', out) \<and> valid_utf8 out \<and> (out = dst \<or> out = v) \<and>
    (\<forall>n. res' = Inr n \<longrightarrow> res = Inr n \<and> out = v) \<and> (\<not> valid_utf8 v \<longrightarrow> out = dst \<and> (\<forall>n. res = Inr n \<longrightarrow> res' = Inl InvalidData))"
  using assms by (cases res) (auto simp: io_string_result_def Let_def)

text \<open>
  C34: Reading into a string never panics and never leaves bytes in it that are not UTF-8. With the destination
  \<open>dst\<close> and \<open>x\<close> read by earlier polls, a poll that is ready without an error has appended the whole rest of the
  stream; one that fails leaves a string that starts with \<open>dst\<close>, and exactly \<open>dst\<close> when the end was reached and
  the bytes are not UTF-8; a pending poll keeps everything for later.
\<close>

theorem read_to_string_keeps_utf8:
  assumes "async_read rd good stream" "good r" "grow_ok grow" "valid_utf8 dst"
  shows "\<exists>a v' cap' r' l out'. read_to_string_poll grow rd (dst @ x) cap r (length x) out = Some (a, v', cap', r', l, out') \<and>
    (case a of
       Pending \<Rightarrow> out' = out \<and> (\<exists>y. v' = dst @ x @ y \<and> l = length (x @ y) \<and> y @ stream r' = stream r)
     | Ready (Inr n) \<Rightarrow> valid_utf8 out' \<and> out' = dst @ x @ stream r \<and> n = length (x @ stream r)
     | Ready (Inl e) \<Rightarrow> valid_utf8 out' \<and> (\<exists>y. out' = dst @ y) \<and> (stream r' = [] \<and> \<not> valid_utf8 (dst @ x @ stream r) \<longrightarrow> out' = dst))"
proof -
  from async_read.read_to_end_ok [OF assms(1,3,2), of "dst @ x" cap "length x"] obtain a v' cap' r' l where u:
    "poll_read_to_end grow rd (dst @ x) cap r (length x) = Some (a, v', cap', r', l)" "v' @ stream r' = (dst @ x) @ stream r" "length (dst @ x) \<le> length v'"
    "\<forall>n. a = Ready (Inr n) \<longrightarrow> stream r' = [] \<and> n = length x + (length v' - length (dst @ x)) \<and> l = 0"
    "(\<forall>n. a \<noteq> Ready (Inr n)) \<longrightarrow> l = length x + (length v' - length (dst @ x))" by blast
  from take_append_eq [OF u(2,3)] obtain k where k: "v' = dst @ x @ take k (stream r)" "stream r' = drop k (stream r)" "k \<le> length (stream r)" by auto
  let ?y = "x @ take k (stream r)"
  show ?thesis
  proof (cases a)
    case Pending
    then show ?thesis using u(1,5) k by (auto simp: read_to_string_poll_def)
  next
    case (Ready res)
    have c: "case res of Inr n \<Rightarrow> n = length ?y | Inl _ \<Rightarrow> l = length ?y" using u(4,5) Ready k by (auto split: sum.splits)
    from io_string_result_ok [OF assms(4) _ c, of v'] k(1) obtain res' out' where o: "io_string_result res v' l = Some (res', out')" "valid_utf8 out'" "out' = dst \<or> out' = v'"
      "\<forall>n. res' = Inr n \<longrightarrow> res = Inr n \<and> out' = v'" "\<not> valid_utf8 v' \<longrightarrow> out' = dst" by auto
    have "read_to_string_poll grow rd (dst @ x) cap r (length x) out = Some (Ready res', [], 0, r', l, out')" using u(1) Ready o(1) by (simp add: read_to_string_poll_def)
    then show ?thesis using o(2-) u(4) Ready k c by (cases res') fastforce+
  qed
qed

theorem read_to_string_keeps_utf8_witness:
  "\<exists>a v' cap' r' l out'. read_to_string_poll grow_example slice_poll_read [104] 1 [105, 195] 0 [] = Some (a, v', cap', r', l, out')"
  using read_to_string_keeps_utf8 [OF slice.async_read_axioms TrueI grow_example_ok, where dst = "[104]" and r = "[105, 195]" and x = "[]" and cap = 1 and out = "[]"]
  by (auto simp: in_range_def)

end
