(* ===== verification/Async_Write.thy ===== *)
theory Async_Write
  imports Async_Read
begin

text \<open>
  Writers, \<open>ylong_runtime/src/io/async_write.rs\<close>, \<open>buffered/async_buf_writer.rs\<close> and the futures of
  \<open>write_task.rs\<close>. The trait is a locale, as for readers. The capacity of the vector of a buffered writer is
  the one it was made with: it is never extended beyond it. A panic is None.
\<close>

type_synonym 'w write_op = "'w \<Rightarrow> bytes \<Rightarrow> (nat io_result poll \<times> 'w) option"
type_synonym 'w writev_op = "'w \<Rightarrow> bytes list \<Rightarrow> (nat io_result poll \<times> 'w) option"
type_synonym 'w flush_op = "'w \<Rightarrow> (unit io_result poll \<times> 'w) option"

text \<open>The default \<open>poll_write_vectored\<close> of the trait writes the first slice that is not empty.\<close>

definition default_write_vectored :: "'w write_op \<Rightarrow> 'w writev_op" where
  "default_write_vectored wr w bufs = wr w (case dropWhile (\<lambda>b. b = []) bufs of [] \<Rightarrow> [] | b # _ \<Rightarrow> b)"

section \<open>The buffered writer\<close>

record 'w buf_writer =
  bw_inner :: 'w
  bw_buf :: bytes
  bw_capacity :: nat
  bw_written :: nat

definition bw_with_capacity :: "nat \<Rightarrow> 'w \<Rightarrow> 'w buf_writer" where
  "bw_with_capacity cap inner = \<lparr>bw_inner = inner, bw_buf = [], bw_capacity = cap, bw_written = 0\<rparr>"

definition bw_new :: "'w \<Rightarrow> 'w buf_writer" where
  "bw_new inner = bw_with_capacity DEFAULT_BUF_SIZE inner"

text \<open>The end of \<open>flush\<close>: the written part is drained, which panics if there is not that much.\<close>

definition bw_drain :: "unit io_result \<Rightarrow> 'w buf_writer \<Rightarrow> (unit io_result poll \<times> 'w buf_writer) option" where
  "bw_drain res bw =
     (if bw_written bw > length (bw_buf bw) then None
      else Some (Ready res, bw\<lparr>bw_buf := drop (bw_written bw) (bw_buf bw), bw_written := 0\<rparr>))"

partial_function (option) bw_flush :: "'w write_op \<Rightarrow> 'w buf_writer \<Rightarrow> (unit io_result poll \<times> 'w buf_writer) option" where
  "bw_flush wr bw =
     (if bw_written bw < length (bw_buf bw)
      then case wr (bw_inner bw) (drop (bw_written bw) (bw_buf bw)) of
             None \<Rightarrow> None
           | Some (Pending, w) \<Rightarrow> Some (Pending, bw\<lparr>bw_inner := w\<rparr>)
           | Some (Ready (Inl e), w) \<Rightarrow> bw_drain (Inl e) (bw\<lparr>bw_inner := w\<rparr>)
           | Some (Ready (Inr n), w) \<Rightarrow>
               if n = 0 then bw_drain (Inl WriteZero) (bw\<lparr>bw_inner := w\<rparr>)
               else bw_flush wr (bw\<lparr>bw_inner := w, bw_written := bw_written bw + n\<rparr>)
      else bw_drain (Inr ()) bw)"

text \<open>\<open>poll_ready!(self.flush(cx))?\<close> before something else.\<close>

definition after_flush :: "'w write_op \<Rightarrow> bool \<Rightarrow> 'w buf_writer \<Rightarrow> ('w buf_writer \<Rightarrow> ('a io_result poll \<times> 'w buf_writer) option) \<Rightarrow>
    ('a io_result poll \<times> 'w buf_writer) option" where
  "after_flush wr needed bw k =
     (if \<not> needed then k bw
      else case bw_flush wr bw of
             None \<Rightarrow> None
           | Some (Pending, bw') \<Rightarrow> Some (Pending, bw')
           | Some (Ready (Inl e), bw') \<Rightarrow> Some (Ready (Inl e), bw')
           | Some (Ready (Inr _), bw') \<Rightarrow> k bw')"

definition bw_on_inner :: "('a \<times> 'w) option \<Rightarrow> 'w buf_writer \<Rightarrow> ('a \<times> 'w buf_writer) option" where
  "bw_on_inner x bw = map_option (\<lambda>(a, w). (a, bw\<lparr>bw_inner := w\<rparr>)) x"

definition bw_extend :: "bytes \<Rightarrow> 'w buf_writer \<Rightarrow> 'w buf_writer" where
  "bw_extend s bw = bw\<lparr>bw_buf := bw_buf bw @ s\<rparr>"

definition bw_poll_write :: "'w write_op \<Rightarrow> 'w buf_writer write_op" where
  "bw_poll_write wr bw s =
     after_flush wr (length (bw_buf bw) + length s > bw_capacity bw) bw
       (\<lambda>bw. if length s \<ge> bw_capacity bw then bw_on_inner (wr (bw_inner bw) s) bw
             else Some (Ready (Inr (length s)), bw_extend s bw))"

text \<open>The slices after the first that still fit.\<close>

fun bw_extend_more :: "bytes list \<Rightarrow> nat \<Rightarrow> 'w buf_writer \<Rightarrow> nat \<times> 'w buf_writer" where
  "bw_extend_more [] len bw = (len, bw)"
| "bw_extend_more (s # ss) len bw =
     (if length s + length (bw_buf bw) \<ge> bw_capacity bw then (len, bw) else bw_extend_more ss (len + length s) (bw_extend s bw))"

definition bw_poll_write_vectored :: "'w write_op \<Rightarrow> bool \<Rightarrow> 'w writev_op \<Rightarrow> 'w buf_writer writev_op" where
  "bw_poll_write_vectored wr is_write_vectored wv bw bufs =
     (if is_write_vectored
      then let len = min (sum_list (map length bufs)) (2 ^ 64 - 1) in
           after_flush wr (len + length (bw_buf bw) > bw_capacity bw) bw
             (\<lambda>bw. if len \<ge> bw_capacity bw then bw_on_inner (wv (bw_inner bw) bufs) bw
                   else Some (Ready (Inr len), fold bw_extend bufs bw))
      else if bufs = [] then Some (Ready (Inr 0), bw)
      else case dropWhile (\<lambda>b. b = []) bufs of
             [] \<Rightarrow> None
           | s # ss \<Rightarrow>
               after_flush wr (length s + length (bw_buf bw) > bw_capacity bw) bw
                 (\<lambda>bw. if length s \<ge> bw_capacity bw then bw_on_inner (wr (bw_inner bw) s) bw
                       else let (len, bw') = bw_extend_more ss (length s) (bw_extend s bw) in Some (Ready (Inr len), bw')))"

definition bw_poll_flush :: "'w write_op \<Rightarrow> 'w flush_op \<Rightarrow> 'w buf_writer flush_op" where
  "bw_poll_flush wr fl bw = after_flush wr True bw (\<lambda>bw. bw_on_inner (fl (bw_inner bw)) bw)"

definition bw_poll_shutdown :: "'w write_op \<Rightarrow> 'w flush_op \<Rightarrow> 'w buf_writer flush_op" where
  "bw_poll_shutdown wr sd bw = after_flush wr True bw (\<lambda>bw. bw_on_inner (sd (bw_inner bw)) bw)"

section \<open>Writing tasks\<close>

text \<open>The writer is taken out of the future unless it is pending; polling again panics.\<close>

definition write_task_poll :: "'w write_op \<Rightarrow> bool \<Rightarrow> 'w \<Rightarrow> bytes \<Rightarrow> (nat io_result poll \<times> bool \<times> 'w) option" where
  "write_task_poll wr has_writer w buf =
     (if \<not> has_writer then None else map_option (\<lambda>(a, w'). (a, a = Pending, w')) (wr w buf))"

definition write_vectored_task_poll :: "'w writev_op \<Rightarrow> bool \<Rightarrow> 'w \<Rightarrow> bytes list \<Rightarrow> (nat io_result poll \<times> bool \<times> 'w) option" where
  "write_vectored_task_poll wv has_writer w bufs =
     (if \<not> has_writer then None else map_option (\<lambda>(a, w'). (a, a = Pending, w')) (wv w bufs))"

text \<open>\<open>WriteAllTask\<close>; the last component is \<open>w_len\<close>.\<close>

partial_function (option) write_all_loop :: "'w write_op \<Rightarrow> 'w \<Rightarrow> bytes \<Rightarrow> nat \<Rightarrow> (unit io_result poll \<times> 'w \<times> nat) option" where
  "write_all_loop wr w buf w_len =
     (if w_len < length buf
      then case wr w (drop w_len buf) of
             None \<Rightarrow> None
           | Some (Pending, w') \<Rightarrow> Some (Pending, w', w_len)
           | Some (Ready (Inl e), w') \<Rightarrow> Some (Ready (Inl e), w', w_len)
           | Some (Ready (Inr n), w') \<Rightarrow> if n = 0 then Some (Ready (Inl WriteZero), w', w_len) else write_all_loop wr w' buf (w_len + n)
      else Some (Ready (Inr ()), w, w_len))"

definition write_all_poll :: "'w write_op \<Rightarrow> bool \<Rightarrow> 'w \<Rightarrow> bytes \<Rightarrow> nat \<Rightarrow> (unit io_result poll \<times> bool \<times> 'w \<times> nat) option" where
  "write_all_poll wr has_writer w buf w_len =
     (if \<not> has_writer then None else map_option (\<lambda>(a, w', l). (a, a = Pending, w', l)) (write_all_loop wr w buf w_len))"

section \<open>The contract of the trait\<close>

text \<open>
  \<open>accepted w\<close> is all a writer has taken, \<open>delivered w\<close> what has reached its destination. A write that is ready without
  an error took a prefix of the bytes and answers its length; one that is pending or fails took
  nothing; a flush that is ready without an error has delivered everything.
\<close>

locale async_write =
  fixes wr :: "'w write_op" and fl :: "'w flush_op" and good :: "'w \<Rightarrow> bool" and accepted :: "'w \<Rightarrow> bytes" and delivered :: "'w \<Rightarrow> bytes"
  assumes poll_write: "good w \<Longrightarrow>
    \<exists>a w'. wr w s = Some (a, w') \<and> good w' \<and>
      (\<forall>n. a = Ready (Inr n) \<longrightarrow> n \<le> length s \<and> accepted w' = accepted w @ take n s) \<and> ((\<forall>n. a \<noteq> Ready (Inr n)) \<longrightarrow> accepted w' = accepted w)"
    and poll_flush: "good w \<Longrightarrow>
    \<exists>a w'. fl w = Some (a, w') \<and> good w' \<and> accepted w' = accepted w \<and> (a = Ready (Inr ()) \<longrightarrow> delivered w' = accepted w')"

text \<open>Several slices at once: a prefix of their concatenation.\<close>

locale async_write_vectored = async_write +
  fixes wv :: "'w writev_op"
  assumes poll_write_vectored: "good w \<Longrightarrow>
    \<exists>a w'. wv w bufs = Some (a, w') \<and> good w' \<and>
      (\<forall>n. a = Ready (Inr n) \<longrightarrow> n \<le> length (concat bufs) \<and> accepted w' = accepted w @ take n (concat bufs)) \<and> ((\<forall>n. a \<noteq> Ready (Inr n)) \<longrightarrow> accepted w' = accepted w)"

lemma not_ok_cases: assumes "\<forall>n. a \<noteq> Ready (Inr n)" obtains "a = Pending" | e where "a = Ready (Inl e)"
  using assms by (metis poll.exhaust sum.exhaust)

section \<open>Buffering keeps the contract\<close>

definition bw_inv :: "('w \<Rightarrow> bool) \<Rightarrow> 'w buf_writer \<Rightarrow> bool" where
  "bw_inv good bw \<longleftrightarrow> good (bw_inner bw) \<and> bw_written bw \<le> length (bw_buf bw) \<and> length (bw_buf bw) \<le> bw_capacity bw"

definition bw_accepted :: "('w \<Rightarrow> bytes) \<Rightarrow> 'w buf_writer \<Rightarrow> bytes" where
  "bw_accepted accepted bw = accepted (bw_inner bw) @ drop (bw_written bw) (bw_buf bw)"

text \<open>A step of the writer that takes \<open>s\<close>.\<close>

definition bw_takes :: "('w \<Rightarrow> bool) \<Rightarrow> ('w \<Rightarrow> bytes) \<Rightarrow> bytes \<Rightarrow> 'w buf_writer \<Rightarrow> (nat io_result poll \<times> 'w buf_writer) option \<Rightarrow> bool" where
  "bw_takes good accepted s bw x \<longleftrightarrow>
     (\<exists>a bw'. x = Some (a, bw') \<and> bw_inv good bw' \<and>
       (\<forall>n. a = Ready (Inr n) \<longrightarrow> n \<le> length s \<and> bw_accepted accepted bw' = bw_accepted accepted bw @ take n s) \<and>
       ((\<forall>n. a \<noteq> Ready (Inr n)) \<longrightarrow> bw_accepted accepted bw' = bw_accepted accepted bw))"

lemma bw_extend_ok:
  "bw_inv good bw \<Longrightarrow> length (bw_buf bw) + length s \<le> bw_capacity bw \<Longrightarrow>
    bw_inv good (bw_extend s bw) \<and> bw_accepted accepted (bw_extend s bw) = bw_accepted accepted bw @ s"
  by (simp add: bw_inv_def bw_extend_def bw_accepted_def)

lemma bw_extend_all:
  "bw_inv good bw \<Longrightarrow> length (bw_buf bw) + length (concat ss) \<le> bw_capacity bw \<Longrightarrow>
    bw_inv good (fold bw_extend ss bw) \<and> bw_accepted accepted (fold bw_extend ss bw) = bw_accepted accepted bw @ concat ss"
proof (induction ss arbitrary: bw)
  case (Cons s ss)
  have "bw_inv good (bw_extend s bw)" "bw_accepted accepted (bw_extend s bw) = bw_accepted accepted bw @ s" using bw_extend_ok [of good bw s] Cons(2,3) by auto
  moreover have "length (bw_buf (bw_extend s bw)) + length (concat ss) \<le> bw_capacity (bw_extend s bw)" using Cons(3) by (simp add: bw_extend_def)
  ultimately show ?case using Cons(1) by simp
qed simp

lemma bw_extend_more_ok:
  "bw_inv good bw \<Longrightarrow> bw_extend_more ss len bw = (len', bw') \<Longrightarrow>
    \<exists>k. len' = len + k \<and> k \<le> length (concat ss) \<and> bw_inv good bw' \<and> bw_accepted accepted bw' = bw_accepted accepted bw @ take k (concat ss)"
proof (induction ss len bw arbitrary: len' bw' rule: bw_extend_more.induct)
  case (2 s ss len bw)
  show ?case
  proof (cases "length s + length (bw_buf bw) \<ge> bw_capacity bw")
    case True
    then show ?thesis using 2(2,3) by (auto intro!: exI [of _ "0::nat"])
  next
    case False
    note e = bw_extend_ok [OF 2(2), of s accepted]
    from 2(1) [OF False, of len' bw'] e 2(3) False obtain k where "len' = len + length s + k" "k \<le> length (concat ss)" "bw_inv good bw'"
      "bw_accepted accepted bw' = bw_accepted accepted bw @ s @ take k (concat ss)" by auto
    then show ?thesis by (intro exI [of _ "length s + k"]) simp
  qed
qed simp

context async_write
begin

lemma bw_flush_ok:
  assumes "bw_inv good bw"
  shows "\<exists>a bw'. bw_flush wr bw = Some (a, bw') \<and> bw_inv good bw' \<and> bw_accepted accepted bw' = bw_accepted accepted bw \<and>
    bw_capacity bw' = bw_capacity bw \<and> (a = Ready (Inr ()) \<longrightarrow> bw_buf bw' = [])"
  using assms
proof (induction "length (bw_buf bw) - bw_written bw" arbitrary: bw rule: less_induct)
  case less
  have i: "good (bw_inner bw)" "bw_written bw \<le> length (bw_buf bw)" "length (bw_buf bw) \<le> bw_capacity bw" using less(2) by (auto simp: bw_inv_def)
  show ?case
  proof (cases "bw_written bw < length (bw_buf bw)")
    case False
    then show ?thesis using i by (simp add: bw_flush.simps [of wr bw] bw_drain_def bw_inv_def bw_accepted_def)
  next
    case True
    let ?s = "drop (bw_written bw) (bw_buf bw)"
    obtain a w where p: "wr (bw_inner bw) ?s = Some (a, w)" "good w" "\<forall>n. a = Ready (Inr n) \<longrightarrow> n \<le> length ?s \<and> accepted w = accepted (bw_inner bw) @ take n ?s"
      "(\<forall>n. a \<noteq> Ready (Inr n)) \<longrightarrow> accepted w = accepted (bw_inner bw)" using poll_write [OF i(1)] by blast
    have drain: "\<exists>b'. bw_drain res (bw\<lparr>bw_inner := w\<rparr>) = Some (Ready res, b') \<and> bw_inv good b' \<and> bw_accepted accepted b' = bw_accepted accepted bw \<and> bw_capacity b' = bw_capacity bw"
      if "accepted w = accepted (bw_inner bw)" for res using i p(2) that by (simp add: bw_drain_def bw_inv_def bw_accepted_def)
    show ?thesis
    proof (cases "\<exists>n. a = Ready (Inr n)")
      case True
      then obtain n where n: "a = Ready (Inr n)" "n \<le> length ?s" "accepted w = accepted (bw_inner bw) @ take n ?s" using p(3) by blast
      show ?thesis
      proof (cases "n = 0")
        case True
        then show ?thesis using \<open>bw_written bw < length (bw_buf bw)\<close> p(1) n drain [of "Inl WriteZero"] by (auto simp: bw_flush.simps [of wr bw])
      next
        case False
        let ?b = "bw\<lparr>bw_inner := w, bw_written := bw_written bw + n\<rparr>"
        have lt: "length (bw_buf ?b) - bw_written ?b < length (bw_buf bw) - bw_written bw" using False \<open>bw_written bw < length (bw_buf bw)\<close> by simp
        have inv: "bw_inv good ?b" using i p(2) n(2) by (simp add: bw_inv_def)
        have "take n ?s @ drop (bw_written bw + n) (bw_buf bw) = ?s" by (metis add.commute append_take_drop_id drop_drop)
        then have "bw_accepted accepted ?b = bw_accepted accepted bw" using n(3) by (simp add: bw_accepted_def)
        moreover have "bw_flush wr bw = bw_flush wr ?b" using \<open>bw_written bw < length (bw_buf bw)\<close> p(1) n(1) False by (simp add: bw_flush.simps [of wr bw])
        ultimately show ?thesis using less(1) [OF lt inv] by simp
      qed
    next
      case False
      then have acc: "accepted w = accepted (bw_inner bw)" and "\<forall>n. a \<noteq> Ready (Inr n)" using p(4) by blast+
      from this(2) show ?thesis
      proof (cases rule: not_ok_cases)
        case 1
        then show ?thesis using True p(1,2) i acc by (simp add: bw_flush.simps [of wr bw] bw_inv_def bw_accepted_def)
      next
        case (2 e)
        then show ?thesis using True p(1) drain [OF acc, of "Inl e"] by (auto simp: bw_flush.simps [of wr bw])
      qed
    qed
  qed
qed

lemma after_flush_takes:
  assumes i: "bw_inv good bw"
    and k: "\<And>b. bw_inv good b \<Longrightarrow> bw_capacity b = bw_capacity bw \<Longrightarrow> (if needed then bw_buf b = [] else b = bw) \<Longrightarrow>
      bw_accepted accepted b = bw_accepted accepted bw \<Longrightarrow> bw_takes good accepted s b (k b)"
  shows "bw_takes good accepted s bw (after_flush wr needed bw k)"
proof (cases needed)
  case False
  then show ?thesis using k [OF i] by (simp add: after_flush_def)
next
  case True
  obtain a b where f: "bw_flush wr bw = Some (a, b)" "bw_inv good b" "bw_accepted accepted b = bw_accepted accepted bw" "bw_capacity b = bw_capacity bw"
    "a = Ready (Inr ()) \<longrightarrow> bw_buf b = []" using bw_flush_ok [OF i] by blast
  show ?thesis
  proof (cases "a = Ready (Inr ())")
    case ok: True
    then have "bw_takes good accepted s b (k b)" using k [OF f(2,4)] True f(3,5) by simp
    then show ?thesis using True f ok by (simp add: after_flush_def bw_takes_def)
  next
    case False
    then have "\<forall>n. a \<noteq> Ready (Inr n)" by auto
    then show ?thesis using True f(1-3) by (cases rule: not_ok_cases) (auto simp: after_flush_def bw_takes_def)
  qed
qed

lemma on_inner_takes:
  assumes "bw_inv good bw" "bw_buf bw = []" "wr (bw_inner bw) s = x"
  shows "bw_takes good accepted s bw (bw_on_inner x bw)"
proof -
  have w: "bw_written bw = 0" "good (bw_inner bw)" using assms(1,2) by (auto simp: bw_inv_def)
  obtain a w' where "x = Some (a, w')" "good w'" "\<forall>n. a = Ready (Inr n) \<longrightarrow> n \<le> length s \<and> accepted w' = accepted (bw_inner bw) @ take n s"
    "(\<forall>n. a \<noteq> Ready (Inr n)) \<longrightarrow> accepted w' = accepted (bw_inner bw)" using poll_write [OF w(2)] assms(3) by blast
  then show ?thesis using assms(1,2) w by (auto simp: bw_takes_def bw_on_inner_def bw_inv_def bw_accepted_def)
qed

lemma bw_write_takes: "bw_inv good bw \<Longrightarrow> bw_takes good accepted s bw (bw_poll_write wr bw s)"
  unfolding bw_poll_write_def
proof (rule after_flush_takes, assumption)
  fix b assume b: "bw_inv good b" "bw_capacity b = bw_capacity bw" "if length (bw_buf bw) + length s > bw_capacity bw then bw_buf b = [] else b = bw"
  show "bw_takes good accepted s b (if length s \<ge> bw_capacity b then bw_on_inner (wr (bw_inner b) s) b else Some (Ready (Inr (length s)), bw_extend s b))"
  proof (cases "length s \<ge> bw_capacity b")
    case True
    then have "bw_buf b = []" using b(2,3) by (cases "bw_buf b") (auto split: if_splits)
    then show ?thesis using True on_inner_takes [OF b(1)] by simp
  next
    case False
    then have "length (bw_buf b) + length s \<le> bw_capacity b" using b by (auto split: if_splits)
    then show ?thesis using False bw_extend_ok [OF b(1), of s accepted] by (auto simp: bw_takes_def)
  qed
qed

lemma bw_poll_flush_ok:
  assumes "bw_inv good bw"
  shows "\<exists>a bw'. bw_poll_flush wr fl bw = Some (a, bw') \<and> bw_inv good bw' \<and> bw_accepted accepted bw' = bw_accepted accepted bw \<and>
    (a = Ready (Inr ()) \<longrightarrow> delivered (bw_inner bw') = bw_accepted accepted bw')"
proof -
  obtain a b where f: "bw_flush wr bw = Some (a, b)" "bw_inv good b" "bw_accepted accepted b = bw_accepted accepted bw" "a = Ready (Inr ()) \<longrightarrow> bw_buf b = []"
    using bw_flush_ok [OF assms] by blast
  show ?thesis
  proof (cases "a = Ready (Inr ())")
    case False
    then have "\<forall>n. a \<noteq> Ready (Inr n)" by auto
    then show ?thesis using f(1-3) by (cases rule: not_ok_cases) (auto simp: bw_poll_flush_def after_flush_def)
  next
    case True
    then have b: "bw_buf b = []" "bw_written b = 0" "good (bw_inner b)" using f(2,4) by (auto simp: bw_inv_def)
    obtain x w where w: "fl (bw_inner b) = Some (x, w)" "good w" "accepted w = accepted (bw_inner b)" "x = Ready (Inr ()) \<longrightarrow> delivered w = accepted w"
      using poll_flush [OF b(3)] by blast
    have "bw_poll_flush wr fl bw = Some (x, b\<lparr>bw_inner := w\<rparr>)" using True f(1) w(1) by (simp add: bw_poll_flush_def after_flush_def bw_on_inner_def)
    then show ?thesis using w b f(2,3) by (auto simp: bw_inv_def bw_accepted_def)
  qed
qed

lemma buffered_writer: "async_write (bw_poll_write wr) (bw_poll_flush wr fl) (bw_inv good) (bw_accepted accepted) (\<lambda>bw. delivered (bw_inner bw))"
proof
  fix bw s assume "bw_inv good bw"
  from bw_write_takes [OF this, of s] show "\<exists>a w'. bw_poll_write wr bw s = Some (a, w') \<and> bw_inv good w' \<and>
      (\<forall>n. a = Ready (Inr n) \<longrightarrow> n \<le> length s \<and> bw_accepted accepted w' = bw_accepted accepted bw @ take n s) \<and>
      ((\<forall>n. a \<noteq> Ready (Inr n)) \<longrightarrow> bw_accepted accepted w' = bw_accepted accepted bw)" by (simp add: bw_takes_def)
qed (rule bw_poll_flush_ok)

lemma write_all_ok:
  assumes "good w" "l \<le> length s"
  shows "\<exists>a w' l'. write_all_loop wr w s l = Some (a, w', l') \<and> good w' \<and> l \<le> l' \<and> l' \<le> length s \<and> accepted w' = accepted w @ take (l' - l) (drop l s) \<and>
    (a = Ready (Inr ()) \<longrightarrow> l' = length s)"
  using assms
proof (induction "length s - l" arbitrary: w l rule: less_induct)
  case less
  show ?case
  proof (cases "l < length s")
    case False
    then show ?thesis using less(2,3) by (simp add: write_all_loop.simps [of wr w])
  next
    case True
    obtain a w' where p: "wr w (drop l s) = Some (a, w')" "good w'" "\<forall>n. a = Ready (Inr n) \<longrightarrow> n \<le> length (drop l s) \<and> accepted w' = accepted w @ take n (drop l s)"
      "(\<forall>n. a \<noteq> Ready (Inr n)) \<longrightarrow> accepted w' = accepted w" using poll_write [OF less(2)] by blast
    show ?thesis
    proof (cases "\<exists>n. a = Ready (Inr n) \<and> n \<noteq> 0")
      case True
      then obtain n where n: "a = Ready (Inr n)" "n \<noteq> 0" "n \<le> length (drop l s)" "accepted w' = accepted w @ take n (drop l s)" using p(3) by blast
      have lt: "length s - (l + n) < length s - l" "l + n \<le> length s" using n(2,3) \<open>l < length s\<close> by simp_all
      from less(1) [OF lt(1) p(2) lt(2)] obtain x v l' where v: "write_all_loop wr w' s (l + n) = Some (x, v, l')" "good v" "l + n \<le> l'" "l' \<le> length s"
        "accepted v = accepted w' @ take (l' - (l + n)) (drop (l + n) s)" "x = Ready (Inr ()) \<longrightarrow> l' = length s" by blast
      have "take (l' - l) (drop l s) = take (n + (l' - (l + n))) (drop l s)" using v(3) by simp
      also have "\<dots> = take n (drop l s) @ take (l' - (l + n)) (drop (l + n) s)" by (simp only: take_add drop_drop add.commute)
      finally have "accepted v = accepted w @ take (l' - l) (drop l s)" using v(5) n(4) by simp
      moreover have "write_all_loop wr w s l = write_all_loop wr w' s (l + n)" using \<open>l < length s\<close> p(1) n(1,2) by (simp add: write_all_loop.simps [of wr w])
      ultimately show ?thesis using v by auto
    next
      case n: False
      have "accepted w' = accepted w" using p(3,4) n by fastforce
      moreover have "\<exists>x. write_all_loop wr w s l = Some (x, w', l) \<and> x \<noteq> Ready (Inr ())"
        using True p(1) n by (cases a) (auto simp: write_all_loop.simps [of wr w] split: sum.splits)
      ultimately show ?thesis using p(2) less(3) by auto
    qed
  qed
qed

end

lemma dropWhile_concat: "concat (dropWhile (\<lambda>b. b = []) bufs) = concat bufs"
  by (induction bufs) auto

context async_write
begin

lemma default_vectored: "async_write_vectored wr fl good accepted delivered (default_write_vectored wr)"
proof
  fix w bufs assume g: "good w"
  show "\<exists>a w'. default_write_vectored wr w bufs = Some (a, w') \<and> good w' \<and>
      (\<forall>n. a = Ready (Inr n) \<longrightarrow> n \<le> length (concat bufs) \<and> accepted w' = accepted w @ take n (concat bufs)) \<and> ((\<forall>n. a \<noteq> Ready (Inr n)) \<longrightarrow> accepted w' = accepted w)"
  proof (cases "dropWhile (\<lambda>b. b = []) bufs")
    case Nil
    then have e: "concat bufs = []" using dropWhile_concat [of bufs] by simp
    show ?thesis using poll_write [OF g, of "[]"] unfolding default_write_vectored_def Nil e by simp
  next
    case (Cons s ss)
    then have c: "concat bufs = s @ concat ss" using dropWhile_concat [of bufs] by simp
    from poll_write [OF g, of s] obtain a w' where "wr w s = Some (a, w')" "good w'" "\<forall>n. a = Ready (Inr n) \<longrightarrow> n \<le> length s \<and> accepted w' = accepted w @ take n s"
      "(\<forall>n. a \<noteq> Ready (Inr n)) \<longrightarrow> accepted w' = accepted w" by blast
    then show ?thesis using Cons by (auto simp: default_write_vectored_def c)
  qed
qed

end

context async_write_vectored
begin

lemma bw_writev_takes:
  assumes i: "bw_inv good bw" and small: "sum_list (map length bufs) < 2 ^ 64" and first: "isv \<or> bufs = [] \<or> (\<exists>s \<in> set bufs. s \<noteq> [])"
  shows "bw_takes good accepted (concat bufs) bw (bw_poll_write_vectored wr isv wv bw bufs)"
proof (cases isv)
  case True
  have len: "min (sum_list (map length bufs)) (2 ^ 64 - 1) = length (concat bufs)" using small by (simp add: length_concat)
  have "bw_takes good accepted (concat bufs) bw (after_flush wr (length (concat bufs) + length (bw_buf bw) > bw_capacity bw) bw
     (\<lambda>bw. if length (concat bufs) \<ge> bw_capacity bw then bw_on_inner (wv (bw_inner bw) bufs) bw else Some (Ready (Inr (length (concat bufs))), fold bw_extend bufs bw)))"
  proof (rule after_flush_takes [OF i])
    fix b assume b: "bw_inv good b" "bw_capacity b = bw_capacity bw" "if length (concat bufs) + length (bw_buf bw) > bw_capacity bw then bw_buf b = [] else b = bw"
    show "bw_takes good accepted (concat bufs) b (if length (concat bufs) \<ge> bw_capacity b then bw_on_inner (wv (bw_inner b) bufs) b
      else Some (Ready (Inr (length (concat bufs))), fold bw_extend bufs b))"
    proof (cases "length (concat bufs) \<ge> bw_capacity b")
      case True
      then have "bw_buf b = []" using b(2,3) by (cases "bw_buf b") (auto split: if_splits)
      then have w: "bw_buf b = []" "bw_written b = 0" "good (bw_inner b)" using b(1) by (auto simp: bw_inv_def)
      from poll_write_vectored [OF w(3), of bufs] show ?thesis using True w b(1)
        by (auto simp: bw_takes_def bw_on_inner_def bw_inv_def bw_accepted_def)
    next
      case False
      then have "length (bw_buf b) + length (concat bufs) \<le> bw_capacity b" using b(2,3) by (auto split: if_splits)
      then show ?thesis using False bw_extend_all [OF b(1), of bufs accepted] by (auto simp: bw_takes_def)
    qed
  qed
  then show ?thesis unfolding bw_poll_write_vectored_def Let_def len using True by simp
next
  case False
  show ?thesis
  proof (cases "dropWhile (\<lambda>b. b = []) bufs")
    case Nil
    then have "bufs = []" using first False by (auto simp: dropWhile_eq_Nil_conv)
    then show ?thesis using False i by (simp add: bw_poll_write_vectored_def bw_takes_def)
  next
    case (Cons s ss)
    then have c: "concat bufs = s @ concat ss" "bufs \<noteq> []" using dropWhile_concat [of bufs] by auto
    have "bw_takes good accepted (concat bufs) bw (after_flush wr (length s + length (bw_buf bw) > bw_capacity bw) bw
      (\<lambda>bw. if length s \<ge> bw_capacity bw then bw_on_inner (wr (bw_inner bw) s) bw
            else let (len, bw') = bw_extend_more ss (length s) (bw_extend s bw) in Some (Ready (Inr len), bw')))"
    proof (rule after_flush_takes [OF i])
      fix b assume b: "bw_inv good b" "bw_capacity b = bw_capacity bw" "if length s + length (bw_buf bw) > bw_capacity bw then bw_buf b = [] else b = bw"
      show "bw_takes good accepted (concat bufs) b (if length s \<ge> bw_capacity b then bw_on_inner (wr (bw_inner b) s) b
        else let (len, bw') = bw_extend_more ss (length s) (bw_extend s b) in Some (Ready (Inr len), bw'))"
      proof (cases "length s \<ge> bw_capacity b")
        case True
        then have "bw_buf b = []" using b(2,3) by (cases "bw_buf b") (auto split: if_splits)
        then have "bw_takes good accepted s b (bw_on_inner (wr (bw_inner b) s) b)" using on_inner_takes [OF b(1)] by simp
        then show ?thesis using True by (auto simp: bw_takes_def c)
      next
        case False
        then have fit: "length (bw_buf b) + length s \<le> bw_capacity b" using b(2,3) by (auto split: if_splits)
        note e = bw_extend_ok [OF b(1) fit, of accepted]
        obtain len b' where m: "bw_extend_more ss (length s) (bw_extend s b) = (len, b')" by force
        from bw_extend_more_ok [OF conjunct1 [OF e] m, of accepted] show ?thesis using False e m by (auto simp: bw_takes_def c)
      qed
    qed
    then show ?thesis using False Cons c(2) by (simp add: bw_poll_write_vectored_def)
  qed
qed

end

end
