(* ===== verification/Async_File.thy ===== *)
theory Async_File
  imports Async_Write
begin

text \<open>
  Files, \<open>ylong_runtime/src/fs/async_file.rs\<close> and \<open>fs/file_buf.rs\<close>. Every call of the system runs as a closure
  on the blocking pool; the file is polled until the closure has run. When that is, how much a short read
  delivers, and which calls fail, is decided by an environment, one answer for every poll of a closure. The file
  of the standard library is its contents and its cursor. A panic, and a loop that never ends, is None. The
  join errors of a closure that was cancelled are not part of the model.
\<close>

section \<open>The file of the system\<close>

record os_file =
  of_data :: bytes
  of_pos :: nat

definition os_read :: "nat \<Rightarrow> nat \<Rightarrow> os_file \<Rightarrow> bytes \<times> os_file" where
  "os_read short n os =
     (let m = min n (length (of_data os) - of_pos os); c = (if m = 0 then 0 else max 1 (min short m))
      in (take c (drop (of_pos os) (of_data os)), os\<lparr>of_pos := of_pos os + c\<rparr>))"

definition os_write_all :: "bytes \<Rightarrow> os_file \<Rightarrow> os_file" where
  "os_write_all s os =
     (if s = [] then os
      else os\<lparr>of_data := take (of_pos os) (of_data os @ replicate (of_pos os - length (of_data os)) 0) @ s @ drop (of_pos os + length s) (of_data os),
              of_pos := of_pos os + length s\<rparr>)"

datatype seek_from = SeekStart nat | SeekEnd int | SeekCurrent int

definition seek_target :: "seek_from \<Rightarrow> nat \<Rightarrow> nat \<Rightarrow> int" where
  "seek_target p len pos = (case p of SeekStart n \<Rightarrow> int n | SeekEnd i \<Rightarrow> int len + i | SeekCurrent i \<Rightarrow> int pos + i)"

definition os_seek :: "seek_from \<Rightarrow> os_file \<Rightarrow> nat io_result \<times> os_file" where
  "os_seek p os =
     (let t = seek_target p (length (of_data os)) (of_pos os)
      in if t < 0 then (Inl (OtherError 22), os) else (Inr (nat t), os\<lparr>of_pos := nat t\<rparr>))"

section \<open>The buffer of a file\<close>

record file_buf =
  fb_buf :: "u8 option list"
  fb_idx :: nat

definition fb_with_capacity :: file_buf where
  "fb_with_capacity = \<lparr>fb_buf = [], fb_idx = 0\<rparr>"

definition fb_remaining :: "file_buf \<Rightarrow> nat" where
  "fb_remaining fb = length (fb_buf fb) - fb_idx fb"

definition fb_append_to :: "file_buf \<Rightarrow> read_buf \<Rightarrow> (nat \<times> file_buf \<times> read_buf) option" where
  "fb_append_to fb buf =
     (let n = min (fb_remaining fb) (rb_remaining buf); r_idx = n + fb_idx fb in
      case bytes_of (take n (drop (fb_idx fb) (fb_buf fb))) of
        None \<Rightarrow> None
      | Some s \<Rightarrow>
          (case rb_append s buf of
             None \<Rightarrow> None
           | Some b \<Rightarrow> Some (n, if r_idx = length (fb_buf fb) then \<lparr>fb_buf = [], fb_idx = 0\<rparr> else fb\<lparr>fb_idx := r_idx\<rparr>, b)))"

definition fb_append :: "bytes \<Rightarrow> nat \<Rightarrow> file_buf \<Rightarrow> nat \<times> file_buf" where
  "fb_append other buf_size_limit fb =
     (let n = min (length other) buf_size_limit in (n, fb\<lparr>fb_buf := fb_buf fb @ map Some (take n other)\<rparr>))"

text \<open>The new part of the vector is not written.\<close>

definition fb_reserve :: "nat \<Rightarrow> nat \<Rightarrow> file_buf \<Rightarrow> file_buf" where
  "fb_reserve sz buf_size_limit fb =
     (let len = min sz buf_size_limit in fb\<lparr>fb_buf := take len (fb_buf fb) @ replicate (len - length (fb_buf fb)) None\<rparr>)"

definition fb_clear :: "file_buf \<Rightarrow> file_buf" where
  "fb_clear fb = fb\<lparr>fb_idx := 0, fb_buf := []\<rparr>"

definition fb_drop_unread :: "file_buf \<Rightarrow> nat \<times> file_buf" where
  "fb_drop_unread fb = (length (fb_buf fb), fb_clear fb)"

text \<open>How a call ends: it fails, a write after that many bytes, or it is done, a read with at most that many.\<close>

type_synonym closure_answer = "(io_err \<times> nat) + nat"

text \<open>Interrupted calls are repeated. What was read replaces the buffer; an error empties it.\<close>

definition fb_read :: "closure_answer \<Rightarrow> file_buf \<Rightarrow> os_file \<Rightarrow> nat io_result \<times> file_buf \<times> os_file" where
  "fb_read answer fb os =
     (case answer of
        Inl (e, _) \<Rightarrow> (Inl e, fb\<lparr>fb_buf := []\<rparr>, os)
      | Inr short \<Rightarrow> let (s, os') = os_read short (length (fb_buf fb)) os in (Inr (length s), fb\<lparr>fb_buf := map Some s\<rparr>, os'))"

definition fb_write :: "closure_answer \<Rightarrow> file_buf \<Rightarrow> os_file \<Rightarrow> (unit io_result \<times> file_buf \<times> os_file) option" where
  "fb_write answer fb os =
     map_option (\<lambda>s. (case answer of
          Inl (e, k) \<Rightarrow> (Inl e, fb\<lparr>fb_buf := []\<rparr>, os_write_all (take k s) os)
        | Inr _ \<Rightarrow> (Inr (), fb\<lparr>fb_buf := []\<rparr>, os_write_all s os))) (bytes_of (fb_buf fb))"

section \<open>The file\<close>

datatype file_state =
    Idle "file_buf option"
  | Reading file_buf
  | Writing nat file_buf
  | Seeking seek_from file_buf

text \<open>An answer of the environment: not yet, done, or failed.\<close>

datatype env_answer = NotYet | Done nat | Failed io_err nat

record async_file =
  f_os :: os_file
  f_state :: file_state
  f_write_err :: "io_err option"
  f_idx :: nat
  f_limit :: nat
  f_env :: "nat \<Rightarrow> env_answer"
  f_tick :: nat

definition DEFAULT_BUF_LIMIT :: nat where "DEFAULT_BUF_LIMIT = 2 * 1024 * 1024"

definition file_new :: "(nat \<Rightarrow> env_answer) \<Rightarrow> os_file \<Rightarrow> async_file" where
  "file_new env os = \<lparr>f_os = os, f_state = Idle (Some fb_with_capacity), f_write_err = None, f_idx = 0, f_limit = DEFAULT_BUF_LIMIT,
     f_env = env, f_tick = 0\<rparr>"

text \<open>Running the closure of the state; \<open>None\<close> in the state is a closure that is not there.\<close>

definition run_closure :: "closure_answer \<Rightarrow> file_state \<Rightarrow> os_file \<Rightarrow> (nat io_result \<times> file_buf \<times> os_file) option" where
  "run_closure answer st os =
     (case st of
        Idle _ \<Rightarrow> None
      | Reading fb \<Rightarrow> Some (fb_read answer fb os)
      | Writing unread fb \<Rightarrow>
          (if unread \<noteq> 0
           then case os_seek (SeekCurrent (- int unread)) os of
                  (Inl e, _) \<Rightarrow> Some (Inl e, fb, os)
                | (Inr _, os') \<Rightarrow> map_option (\<lambda>(r, fb', os2). (map_sum id (\<lambda>_. 0) r, fb', os2)) (fb_write answer fb os')
           else map_option (\<lambda>(r, fb', os2). (map_sum id (\<lambda>_. 0) r, fb', os2)) (fb_write answer fb os))
      | Seeking p fb \<Rightarrow>
          (case answer of
             Inl (e, _) \<Rightarrow> Some (Inl e, fb, os)
           | Inr _ \<Rightarrow> let (r, os') = os_seek p os in Some (r, fb, os')))"

text \<open>One poll of the join handle: the closure is not done yet, or its result.\<close>

definition job_poll :: "async_file \<Rightarrow> ((nat io_result \<times> file_buf) poll \<times> async_file) option" where
  "job_poll f =
     (let f' = f\<lparr>f_tick := Suc (f_tick f)\<rparr>; finish = (\<lambda>ans. map_option (\<lambda>(r, fb, os). (Ready (r, fb), f'\<lparr>f_os := os\<rparr>)) (run_closure ans (f_state f) (f_os f))) in
      case f_env f (f_tick f) of
        NotYet \<Rightarrow> Some (Pending, f')
      | Done k \<Rightarrow> finish (Inr k)
      | Failed e k \<Rightarrow> finish (Inl (e, k)))"

text \<open>\<open>FileState::poll\<close>; reads and writes answer 0.\<close>

definition state_poll :: "async_file \<Rightarrow> (nat io_result poll \<times> async_file) option" where
  "state_poll f =
     (case job_poll f of
        None \<Rightarrow> None
      | Some (Pending, f') \<Rightarrow> Some (Pending, f')
      | Some (Ready (r, fb), f') \<Rightarrow>
          Some (Ready (case f_state f of Seeking _ _ \<Rightarrow> r | _ \<Rightarrow> map_sum id (\<lambda>_. 0) r), f'\<lparr>f_state := Idle (Some fb)\<rparr>))"

definition save_err :: "'a io_result \<Rightarrow> async_file \<Rightarrow> async_file" where
  "save_err r f = (case r of Inl e \<Rightarrow> f\<lparr>f_write_err := Some e\<rparr> | Inr _ \<Rightarrow> f)"

partial_function (option) file_poll_read :: "async_file \<Rightarrow> read_buf \<Rightarrow> (unit io_result poll \<times> async_file \<times> read_buf) option" where
  "file_poll_read f buf =
     (case f_state f of
        Idle None \<Rightarrow> None
      | Idle (Some r_buf) \<Rightarrow>
          if fb_remaining r_buf \<noteq> 0
          then map_option (\<lambda>(n, fb, b). (Ready (Inr ()), f\<lparr>f_state := Idle (Some fb)\<rparr>, b)) (fb_append_to r_buf buf)
          else file_poll_read (f\<lparr>f_state := Reading (fb_reserve (rb_remaining buf) (f_limit f) r_buf)\<rparr>) buf
      | Reading _ \<Rightarrow>
          (case job_poll f of
             None \<Rightarrow> None
           | Some (Pending, f') \<Rightarrow> Some (Pending, f', buf)
           | Some (Ready (Inl e, fb), f') \<Rightarrow> Some (Ready (Inl e), f'\<lparr>f_state := Idle (Some fb)\<rparr>, buf)
           | Some (Ready (Inr _, fb), f') \<Rightarrow>
               map_option (\<lambda>(n, fb', b). (Ready (Inr ()), f'\<lparr>f_state := Idle (Some fb')\<rparr>, b)) (fb_append_to fb buf))
      | Writing _ _ \<Rightarrow>
          (case job_poll f of
             None \<Rightarrow> None
           | Some (Pending, f') \<Rightarrow> Some (Pending, f', buf)
           | Some (Ready (r, fb), f') \<Rightarrow> file_poll_read (save_err r (f'\<lparr>f_state := Idle (Some fb)\<rparr>)) buf)
      | Seeking _ _ \<Rightarrow>
          (case job_poll f of
             None \<Rightarrow> None
           | Some (Pending, f') \<Rightarrow> Some (Pending, f', buf)
           | Some (Ready (r, fb), f') \<Rightarrow>
               let f1 = f'\<lparr>f_state := Idle (Some fb)\<rparr> in
               file_poll_read (case r of Inr i \<Rightarrow> f1\<lparr>f_idx := i\<rparr> | Inl _ \<Rightarrow> f1) buf))"

text \<open>The loop of \<open>poll_write\<close>. A pending closure is polled again at once.\<close>

partial_function (option) file_write_loop :: "async_file \<Rightarrow> bytes \<Rightarrow> (nat io_result poll \<times> async_file) option" where
  "file_write_loop f s =
     (case f_state f of
        Idle None \<Rightarrow> None
      | Idle (Some fb) \<Rightarrow>
          let (unread, fb1) = fb_drop_unread fb; (n, w_buf) = fb_append s (f_limit f) fb1
          in Some (Ready (Inr n), f\<lparr>f_state := Writing unread w_buf\<rparr>)
      | st \<Rightarrow>
          (case state_poll f of
             None \<Rightarrow> None
           | Some (Ready (Inl e), f') \<Rightarrow> (case st of Writing _ _ \<Rightarrow> Some (Ready (Inl e), f') | _ \<Rightarrow> file_write_loop f' s)
           | Some (_, f') \<Rightarrow> file_write_loop f' s))"

definition file_poll_write :: "async_file \<Rightarrow> bytes \<Rightarrow> (nat io_result poll \<times> async_file) option" where
  "file_poll_write f s = (case f_write_err f of Some e \<Rightarrow> Some (Ready (Inl e), f) | None \<Rightarrow> file_write_loop f s)"

definition file_poll_flush :: "async_file \<Rightarrow> (unit io_result poll \<times> async_file) option" where
  "file_poll_flush f =
     (case f_write_err f of
        Some e \<Rightarrow> Some (Ready (Inl e), f)
      | None \<Rightarrow>
          (case f_state f of
             Idle _ \<Rightarrow> Some (Ready (Inr ()), f)
           | st \<Rightarrow>
               (case state_poll f of
                  None \<Rightarrow> None
                | Some (Pending, f') \<Rightarrow> Some (Pending, f')
                | Some (Ready r, f') \<Rightarrow> Some (Ready (case st of Writing _ _ \<Rightarrow> map_sum id (\<lambda>_. ()) r | _ \<Rightarrow> Inr ()), f'))))"

definition seek_back :: "nat \<Rightarrow> seek_from \<Rightarrow> seek_from" where
  "seek_back unread p = (case p of SeekCurrent i \<Rightarrow> SeekCurrent (i - int unread) | _ \<Rightarrow> p)"

partial_function (option) file_poll_seek :: "async_file \<Rightarrow> seek_from \<Rightarrow> (nat io_result poll \<times> async_file) option" where
  "file_poll_seek f p =
     (case f_state f of
        Idle None \<Rightarrow> None
      | Idle (Some r_buf) \<Rightarrow>
          let (unread, fb) = fb_drop_unread r_buf; p' = seek_back unread p
          in file_poll_seek (f\<lparr>f_state := Seeking p' fb\<rparr>) p'
      | st \<Rightarrow>
          (case state_poll f of
             None \<Rightarrow> None
           | Some (Pending, f') \<Rightarrow> Some (Pending, f')
           | Some (Ready r, f') \<Rightarrow>
               (case st of
                  Seeking _ _ \<Rightarrow> Some (Ready r, case r of Inr i \<Rightarrow> f'\<lparr>f_idx := i\<rparr> | Inl _ \<Rightarrow> f')
                | Writing _ _ \<Rightarrow> file_poll_seek (save_err r f') p
                | _ \<Rightarrow> file_poll_seek f' p)))"

section \<open>The file as a cursor\<close>

text \<open>The bytes of the buffer that were not handed out are the ones before the cursor of the system.\<close>

definition fb_ok :: "file_buf \<Rightarrow> os_file \<Rightarrow> bool" where
  "fb_ok fb os \<longleftrightarrow> (fb_idx fb = 0 \<or> fb_idx fb < length (fb_buf fb)) \<and> fb_remaining fb \<le> of_pos os \<and>
     drop (fb_idx fb) (fb_buf fb) = map Some (take (fb_remaining fb) (drop (of_pos os - fb_remaining fb) (of_data os)))"

definition file_ok :: "async_file \<Rightarrow> bool" where
  "file_ok f \<longleftrightarrow> 0 < f_limit f \<and>
     (case f_state f of
        Idle None \<Rightarrow> False
      | Idle (Some fb) \<Rightarrow> fb_ok fb (f_os f)
      | Reading fb \<Rightarrow> 0 < length (fb_buf fb) \<and> fb_idx fb = 0
      | Writing unread fb \<Rightarrow> (\<exists>s. fb_buf fb = map Some s) \<and> fb_idx fb = 0 \<and> unread \<le> of_pos (f_os f)
      | Seeking p fb \<Rightarrow> fb = fb_with_capacity \<and> 0 \<le> seek_target p (length (of_data (f_os f))) (of_pos (f_os f)))"

text \<open>Contents and position as the user of the file sees them, the closure that is under way included.\<close>

definition file_view :: "async_file \<Rightarrow> bytes \<times> nat" where
  "file_view f =
     (let os = f_os f in
      case f_state f of
        Idle None \<Rightarrow> (of_data os, of_pos os)
      | Idle (Some fb) \<Rightarrow> (of_data os, of_pos os - fb_remaining fb)
      | Reading fb \<Rightarrow> (of_data os, of_pos os)
      | Writing unread fb \<Rightarrow> let os' = os_write_all (map the (fb_buf fb)) (os\<lparr>of_pos := of_pos os - unread\<rparr>) in (of_data os', of_pos os')
      | Seeking p fb \<Rightarrow> (of_data os, nat (seek_target p (length (of_data os)) (of_pos os))))"

text \<open>An environment without failures in which every closure runs at last.\<close>

definition env_ok :: "(nat \<Rightarrow> env_answer) \<Rightarrow> bool" where
  "env_ok env \<longleftrightarrow> (\<forall>t. env t = NotYet \<or> (\<exists>k. env t = Done k)) \<and> (\<forall>t. \<exists>t'\<ge>t. env t' \<noteq> NotYet)"

definition file_good :: "async_file \<Rightarrow> bool" where
  "file_good f \<longleftrightarrow> file_ok f \<and> env_ok (f_env f) \<and> f_write_err f = None"

definition file_stream :: "async_file \<Rightarrow> bytes" where
  "file_stream f = drop (snd (file_view f)) (fst (file_view f))"

lemma os_read_ok:
  assumes "os_read k n os = (s, os')"
  shows "of_data os' = of_data os" "of_pos os' = of_pos os + length s" "s = take (length s) (drop (of_pos os) (of_data os))" "length s \<le> n"
    "0 < n \<Longrightarrow> s = [] \<Longrightarrow> drop (of_pos os) (of_data os) = []"
  using assms by (auto simp: os_read_def Let_def min_def split: if_splits)

lemma job_poll_ok:
  assumes g: "file_good f" and st: "\<And>x. f_state f \<noteq> Idle x"
  shows "(f_env f (f_tick f) = NotYet \<and> job_poll f = Some (Pending, f\<lparr>f_tick := Suc (f_tick f)\<rparr>)) \<or>
    (\<exists>r fb f'. f_env f (f_tick f) \<noteq> NotYet \<and> job_poll f = Some (Ready (Inr r, fb), f') \<and> f_state f' = f_state f \<and> f_limit f' = f_limit f \<and> f_env f' = f_env f \<and>
      f_write_err f' = None \<and> f_tick f' = Suc (f_tick f) \<and> fb_ok fb (f_os f') \<and> file_view (f'\<lparr>f_state := Idle (Some fb)\<rparr>) = file_view f \<and> fb_idx fb = 0 \<and>
      (case f_state f of
         Reading b \<Rightarrow> length (fb_buf fb) \<le> length (fb_buf b) \<and> (fb_buf fb = [] \<longrightarrow> file_stream f = [])
       | Seeking p b \<Rightarrow> fb_buf fb = [] \<and> r = snd (file_view f)
       | _ \<Rightarrow> fb_buf fb = []))"
proof (cases "f_env f (f_tick f)")
  case NotYet
  then show ?thesis by (simp add: job_poll_def)
next
  case (Failed e k)
  moreover have "f_env f (f_tick f) = NotYet \<or> (\<exists>k. f_env f (f_tick f) = Done k)" using g by (simp add: file_good_def env_ok_def)
  ultimately show ?thesis by simp
next
  case (Done k)
  let ?f = "f\<lparr>f_tick := Suc (f_tick f)\<rparr>"
  have ok: "file_ok f" "f_write_err f = None" using g by (auto simp: file_good_def)
  show ?thesis
  proof (cases "f_state f")
    case (Idle x)
    then show ?thesis using st by blast
  next
    case (Reading b)
    obtain s os where r: "os_read k (length (fb_buf b)) (f_os f) = (s, os)" by force
    note o = os_read_ok [OF r]
    have b: "0 < length (fb_buf b)" "fb_idx b = 0" using ok Reading by (auto simp: file_ok_def)
    let ?fb = "b\<lparr>fb_buf := map Some s\<rparr>"
    have "job_poll f = Some (Ready (Inr (length s), ?fb), ?f\<lparr>f_os := os\<rparr>)" using Done Reading r by (simp add: job_poll_def run_closure_def fb_read_def Let_def)
    moreover have "fb_ok ?fb os" using b o(1-3) by (simp add: fb_ok_def fb_remaining_def)
    moreover have "file_view (?f\<lparr>f_os := os, f_state := Idle (Some ?fb)\<rparr>) = file_view f" using b o(1,2) Reading by (simp add: file_view_def fb_remaining_def Let_def)
    moreover have "s = [] \<longrightarrow> file_stream f = []" using o(5) b(1) Reading by (simp add: file_stream_def file_view_def Let_def)
    ultimately show ?thesis using Done Reading o(4) b ok(2) by auto
  next
    case (Writing u b)
    then obtain s where b: "fb_buf b = map Some s" "fb_idx b = 0" "u \<le> of_pos (f_os f)" using ok by (auto simp: file_ok_def)
    let ?os = "os_write_all s ((f_os f)\<lparr>of_pos := of_pos (f_os f) - u\<rparr>)" and ?fb = "b\<lparr>fb_buf := []\<rparr>"
    have bo: "bytes_of (fb_buf b) = Some s" by (auto simp: bytes_of_def b(1) comp_def)
    have "os_seek (SeekCurrent (- int u)) (f_os f) = (Inr (of_pos (f_os f) - u), (f_os f)\<lparr>of_pos := of_pos (f_os f) - u\<rparr>)"
      using b(3) by (auto simp: os_seek_def seek_target_def Let_def nat_diff_distrib)
    then have "job_poll f = Some (Ready (Inr 0, ?fb), ?f\<lparr>f_os := ?os\<rparr>)"
      using Done Writing bo by (cases "u = 0") (simp_all add: job_poll_def run_closure_def fb_write_def Let_def)
    moreover have "fb_ok ?fb ?os" using b by (simp add: fb_ok_def fb_remaining_def)
    moreover have "file_view (?f\<lparr>f_os := ?os, f_state := Idle (Some ?fb)\<rparr>) = file_view f" using b Writing by (simp add: file_view_def fb_remaining_def Let_def comp_def)
    ultimately show ?thesis using Done Writing b ok(2) by auto
  next
    case (Seeking p b)
    then have b: "b = fb_with_capacity" "0 \<le> seek_target p (length (of_data (f_os f))) (of_pos (f_os f))" using ok by (auto simp: file_ok_def)
    let ?t = "nat (seek_target p (length (of_data (f_os f))) (of_pos (f_os f)))"
    have "job_poll f = Some (Ready (Inr ?t, b), ?f\<lparr>f_os := (f_os f)\<lparr>of_pos := ?t\<rparr>\<rparr>)"
      using Done Seeking b by (simp add: job_poll_def run_closure_def os_seek_def Let_def)
    moreover have "fb_ok b ((f_os f)\<lparr>of_pos := ?t\<rparr>)" by (simp add: b(1) fb_ok_def fb_remaining_def fb_with_capacity_def)
    moreover have "file_view (?f\<lparr>f_os := (f_os f)\<lparr>of_pos := ?t\<rparr>, f_state := Idle (Some b)\<rparr>) = file_view f"
      using Seeking by (simp add: file_view_def fb_remaining_def fb_with_capacity_def b(1) Let_def)
    ultimately show ?thesis using Done Seeking ok(2) by (auto simp: file_view_def fb_with_capacity_def b(1) Let_def)
  qed
qed

lemma good_tick: "file_good f \<Longrightarrow> file_good (f\<lparr>f_tick := t\<rparr>)" "file_view (f\<lparr>f_tick := t\<rparr>) = file_view f"
  by (simp_all add: file_good_def file_ok_def file_view_def Let_def split: file_state.splits option.splits)

lemma good_idle:
  assumes "file_good f" "f_limit f' = f_limit f" "f_env f' = f_env f" "f_write_err f' = None" "fb_ok fb (f_os f')"
  shows "file_good (f'\<lparr>f_state := Idle (Some fb)\<rparr>)"
  using assms by (simp add: file_good_def file_ok_def)

definition file_reads :: "async_file \<Rightarrow> read_buf \<Rightarrow> (unit io_result poll \<times> async_file \<times> read_buf) option \<Rightarrow> bool" where
  "file_reads f b x \<longleftrightarrow>
     (\<exists>a f' b'. x = Some (a, f', b') \<and> file_good f' \<and> rb_ok b' \<and> rb_capacity b' = rb_capacity b \<and> rb_initialized b \<le> rb_initialized b' \<and>
       rb_content b' @ file_stream f' = rb_content b @ file_stream f \<and> rb_filled b \<le> rb_filled b' \<and> fst (file_view f') = fst (file_view f) \<and>
       (a = Ready (Inr ()) \<and> rb_filled b' = rb_filled b \<longrightarrow> file_stream f = []) \<and> (a \<noteq> Ready (Inr ()) \<longrightarrow> rb_filled b' = rb_filled b))"

lemma append_to_reads:
  assumes g: "file_good (f\<lparr>f_state := Idle (Some fb)\<rparr>)" and b: "rb_ok b" "0 < rb_remaining b" and v: "file_view (f\<lparr>f_state := Idle (Some fb)\<rparr>) = file_view f0"
    and e: "fb_remaining fb = 0 \<Longrightarrow> file_stream f0 = []"
  shows "file_reads f0 b (map_option (\<lambda>(n, fb', b'). (Ready (Inr ()), f\<lparr>f_state := Idle (Some fb')\<rparr>, b')) (fb_append_to fb b))"
proof -
  let ?os = "f_os f" and ?n = "min (fb_remaining fb) (rb_remaining b)"
  have ok: "fb_ok fb ?os" using g by (simp add: file_good_def file_ok_def)
  let ?p = "of_pos ?os - fb_remaining fb"
  have view: "file_view f0 = (of_data ?os, ?p)" using v by (simp add: file_view_def Let_def)
  let ?s = "take ?n (drop ?p (of_data ?os))"
  have "take ?n (drop (fb_idx fb) (fb_buf fb)) = map Some ?s" using ok by (simp add: fb_ok_def take_map min_def)
  then have bo: "bytes_of (take ?n (drop (fb_idx fb) (fb_buf fb))) = Some ?s" by (auto simp: bytes_of_def comp_def)
  have "length (drop (fb_idx fb) (fb_buf fb)) = fb_remaining fb" by (simp add: fb_remaining_def)
  then have len: "fb_remaining fb \<le> length (drop ?p (of_data ?os))" using ok by (metis fb_ok_def length_map length_take min.cobounded1)
  then have ls: "length ?s = ?n" by simp
  from rb_append_ok [OF b(1), of ?s] ls obtain b' where ap: "rb_append ?s b = Some b'" "rb_ok b'" "rb_content b' = rb_content b @ ?s" "rb_capacity b' = rb_capacity b"
    "rb_filled b' = rb_filled b + ?n" "rb_initialized b \<le> rb_initialized b'" by auto
  define n where "n = ?n"
  have nle: "n \<le> fb_remaining fb" by (simp add: n_def)
  let ?fb = "if ?n + fb_idx fb = length (fb_buf fb) then \<lparr>fb_buf = [], fb_idx = 0\<rparr> else fb\<lparr>fb_idx := ?n + fb_idx fb\<rparr>"
  have x: "fb_append_to fb b = Some (?n, ?fb, b')" using bo ap(1) by (simp add: fb_append_to_def Let_def)
  have rem: "fb_remaining ?fb = fb_remaining fb - n" unfolding n_def [symmetric] by (auto simp: fb_remaining_def)
  have pr: "fb_remaining fb \<le> of_pos ?os" using ok by (simp add: fb_ok_def)
  have pos: "of_pos ?os - fb_remaining ?fb = ?p + n" unfolding rem using pr nle by simp
  have "fb_ok ?fb ?os"
  proof (cases "?n + fb_idx fb = length (fb_buf fb)")
    case True
    then show ?thesis by (simp add: fb_ok_def fb_remaining_def)
  next
    case False
    have d: "drop (fb_idx fb) (fb_buf fb) = map Some (take (fb_remaining fb) (drop ?p (of_data ?os)))" using ok by (simp add: fb_ok_def)
    have "drop (n + fb_idx fb) (fb_buf fb) = drop n (drop (fb_idx fb) (fb_buf fb))" by simp
    also have "\<dots> = map Some (take (fb_remaining fb - n) (drop n (drop ?p (of_data ?os))))" unfolding d by (simp only: drop_map drop_take)
    also have "drop n (drop ?p (of_data ?os)) = drop (?p + n) (of_data ?os)" by (simp only: drop_drop add.commute)
    finally have dr: "drop (fb_idx ?fb) (fb_buf ?fb) = map Some (take (fb_remaining ?fb) (drop (of_pos ?os - fb_remaining ?fb) (of_data ?os)))"
      unfolding pos unfolding rem using False by (simp add: n_def)
    have "n + fb_idx fb < length (fb_buf fb)" using False nle ok by (auto simp: n_def fb_remaining_def fb_ok_def)
    then have "fb_idx ?fb < length (fb_buf ?fb)" using False by (simp add: n_def)
    moreover have "fb_remaining ?fb \<le> of_pos ?os" unfolding rem using pr by simp
    ultimately show ?thesis unfolding fb_ok_def using dr by blast
  qed
  then have g': "file_good (f\<lparr>f_state := Idle (Some ?fb)\<rparr>)" using g by (simp add: file_good_def file_ok_def)
  have v': "file_view (f\<lparr>f_state := Idle (Some ?fb)\<rparr>) = (of_data ?os, ?p + ?n)" using pos by (simp add: file_view_def Let_def n_def)
  have "?s @ drop (?p + ?n) (of_data ?os) = drop ?p (of_data ?os)" by (metis add.commute append_take_drop_id drop_drop)
  then have "rb_content b' @ file_stream (f\<lparr>f_state := Idle (Some ?fb)\<rparr>) = rb_content b @ file_stream f0" using v' view ap(3) by (simp add: file_stream_def)
  moreover have "?n = 0 \<Longrightarrow> file_stream f0 = []" using b(2) e by (auto simp: min_def split: if_splits)
  ultimately have "file_reads f0 b (Some (Ready (Inr ()), f\<lparr>f_state := Idle (Some ?fb)\<rparr>, b'))"
    unfolding file_reads_def using g' ap(2,4-6) v' view by (intro exI conjI) (rule refl | simp)+
  then show ?thesis by (simp add: x)
qed

lemma read_reading:
  assumes g: "file_good f" and st: "f_state f = Reading fb" and b: "rb_ok b" "0 < rb_remaining b"
  shows "file_reads f b (file_poll_read f b)"
proof -
  from job_poll_ok [OF g] st consider (p) "job_poll f = Some (Pending, f\<lparr>f_tick := Suc (f_tick f)\<rparr>)"
    | (r) r fb' f' where "job_poll f = Some (Ready (Inr r, fb'), f')" "f_limit f' = f_limit f" "f_env f' = f_env f" "f_write_err f' = None" "fb_ok fb' (f_os f')"
      "file_view (f'\<lparr>f_state := Idle (Some fb')\<rparr>) = file_view f" "fb_idx fb' = 0" "fb_buf fb' = [] \<longrightarrow> file_stream f = []" by auto
  then show ?thesis
  proof cases
    case p
    then show ?thesis using g b st good_tick [where f = f] by (auto simp: file_poll_read.simps [of f] file_reads_def file_stream_def)
  next
    case r
    have "file_reads f b (map_option (\<lambda>(n, fb', b'). (Ready (Inr ()), f'\<lparr>f_state := Idle (Some fb')\<rparr>, b')) (fb_append_to fb' b))"
      by (rule append_to_reads [OF good_idle [OF g r(2-5)] b r(6)]) (use r(7,8) in \<open>simp add: fb_remaining_def\<close>)
    then show ?thesis using st r(1) by (simp add: file_poll_read.simps [of f])
  qed
qed

lemma reads_view: "file_view f = file_view f0 \<Longrightarrow> file_reads f b x \<Longrightarrow> file_reads f0 b x"
  by (simp add: file_reads_def file_stream_def)

lemma read_idle:
  assumes g: "file_good f" and st: "f_state f = Idle (Some fb)" and b: "rb_ok b" "0 < rb_remaining b"
  shows "file_reads f b (file_poll_read f b)"
proof (cases "fb_remaining fb = 0")
  case False
  have e: "f\<lparr>f_state := Idle (Some fb)\<rparr> = f" using st by simp
  have "file_reads f b (map_option (\<lambda>(n, fb', b'). (Ready (Inr ()), f\<lparr>f_state := Idle (Some fb')\<rparr>, b')) (fb_append_to fb b))"
    by (rule append_to_reads) (use False in \<open>simp_all only: e g b\<close>)
  then show ?thesis using False by (subst file_poll_read.simps) (simp only: st file_state.case option.case if_True not_False_eq_True)
next
  case True
  let ?f = "f\<lparr>f_state := Reading (fb_reserve (rb_remaining b) (f_limit f) fb)\<rparr>"
  have i: "fb_ok fb (f_os f)" "0 < f_limit f" using g st by (auto simp: file_good_def file_ok_def)
  have "fb_idx fb = 0" using i(1) True by (auto simp: fb_ok_def fb_remaining_def)
  then have gf: "file_good ?f" using g i(2) b(2) by (simp add: file_good_def file_ok_def fb_reserve_def Let_def)
  have v: "file_view ?f = file_view f" using st True by (simp add: file_view_def Let_def)
  have "file_reads ?f b (file_poll_read ?f b)" by (rule read_reading [OF gf _ b]) simp
  moreover have "file_poll_read f b = file_poll_read ?f b" by (subst file_poll_read.simps) (simp add: st True)
  ultimately show ?thesis using reads_view [OF v] by simp
qed

lemma read_other:
  assumes g: "file_good f" and st: "\<And>x. f_state f \<noteq> Idle x" "\<And>fb. f_state f \<noteq> Reading fb" and b: "rb_ok b" "0 < rb_remaining b"
  shows "file_reads f b (file_poll_read f b)"
proof -
  have s: "(\<exists>u x. f_state f = Writing u x) \<or> (\<exists>q x. f_state f = Seeking q x)" using st by (cases "f_state f") auto
  from job_poll_ok [OF g st(1)] consider (p) "job_poll f = Some (Pending, f\<lparr>f_tick := Suc (f_tick f)\<rparr>)"
    | (r) r fb f' where "job_poll f = Some (Ready (Inr r, fb), f')" "f_limit f' = f_limit f" "f_env f' = f_env f" "f_write_err f' = None" "fb_ok fb (f_os f')"
      "file_view (f'\<lparr>f_state := Idle (Some fb)\<rparr>) = file_view f" by auto
  then show ?thesis
  proof cases
    case p
    have "file_poll_read f b = Some (Pending, f\<lparr>f_tick := Suc (f_tick f)\<rparr>, b)" using s p by (elim disjE exE) (simp_all add: file_poll_read.simps [of f])
    then show ?thesis using good_tick [where f = f] g b by (simp add: file_reads_def file_stream_def)
  next
    case r
    let ?f = "f'\<lparr>f_state := Idle (Some fb)\<rparr>"
    have gi: "file_good ?f" by (rule good_idle [OF g r(2-5)])
    have other: "file_reads h b (file_poll_read h b)" if "h = ?f \<or> h = ?f\<lparr>f_idx := r\<rparr>" for h
    proof -
      have "file_good h" "f_state h = Idle (Some fb)" using that gi by (auto simp: file_good_def file_ok_def)
      then show ?thesis by (rule read_idle [OF _ _ b])
    qed
    have hv: "file_view h = file_view f" if "h = ?f \<or> h = ?f\<lparr>f_idx := r\<rparr>" for h using that r(6) by (auto simp: file_view_def Let_def)
    have "\<exists>h. (h = ?f \<or> h = ?f\<lparr>f_idx := r\<rparr>) \<and> file_poll_read f b = file_poll_read h b"
      using s r(1) by (elim disjE exE) (simp_all add: file_poll_read.simps [of f] save_err_def exI [of _ ?f] exI [of _ "?f\<lparr>f_idx := r\<rparr>"])
    then show ?thesis using other hv reads_view by metis
  qed
qed

interpretation file_reader: async_read file_poll_read file_good file_stream
proof
  fix f b assume "file_good f" "rb_ok b" "0 < rb_remaining b"
  moreover from this(1) have "f_state f \<noteq> Idle None" by (auto simp: file_good_def file_ok_def)
  ultimately have "file_reads f b (file_poll_read f b)"
    by (cases "f_state f") (use read_idle read_reading read_other in \<open>auto simp: option.expand\<close>)
  then show "\<exists>a r' b'. file_poll_read f b = Some (a, r', b') \<and> file_good r' \<and> rb_ok b' \<and> rb_capacity b' = rb_capacity b \<and> rb_initialized b \<le> rb_initialized b' \<and>
      rb_content b' @ file_stream r' = rb_content b @ file_stream f \<and> rb_filled b \<le> rb_filled b' \<and>
      (a = Ready (Inr ()) \<and> rb_filled b' = rb_filled b \<longrightarrow> file_stream f = []) \<and> (a \<noteq> Ready (Inr ()) \<longrightarrow> rb_filled b' = rb_filled b)"
    unfolding file_reads_def by blast
qed


text \<open>No part of the buffer has been handed out.\<close>

definition whole :: "async_file \<Rightarrow> bool" where
  "whole f \<longleftrightarrow> (case f_state f of Idle (Some fb) \<Rightarrow> fb_idx fb = 0 | _ \<Rightarrow> True)"

definition cursor_write :: "bytes \<Rightarrow> bytes \<times> nat \<Rightarrow> bytes \<times> nat" where
  "cursor_write s v = (let os = os_write_all s \<lparr>of_data = fst v, of_pos = snd v\<rparr> in (of_data os, of_pos os))"

text \<open>The contents up to the cursor, with zeros in a gap after the end.\<close>

definition prefix_of :: "bytes \<times> nat \<Rightarrow> bytes" where
  "prefix_of v = take (snd v) (fst v @ replicate (snd v - length (fst v)) 0)"

definition file_accepted :: "async_file \<Rightarrow> bytes" where
  "file_accepted f = prefix_of (file_view f)"

definition file_delivered :: "async_file \<Rightarrow> bytes" where
  "file_delivered f = prefix_of (case f_state f of Idle (Some fb) \<Rightarrow> (of_data (f_os f), of_pos (f_os f) - fb_remaining fb) | _ \<Rightarrow> (of_data (f_os f), of_pos (f_os f)))"

lemma prefix_write: "prefix_of (cursor_write s v) = prefix_of v @ s"
  by (cases "s = []") (auto simp: prefix_of_def cursor_write_def os_write_all_def Let_def)

lemma state_poll_ok:
  assumes g: "file_good f" and st: "\<And>x. f_state f \<noteq> Idle x"
  shows "(f_env f (f_tick f) = NotYet \<and> state_poll f = Some (Pending, f\<lparr>f_tick := Suc (f_tick f)\<rparr>)) \<or>
    (\<exists>r fb f'. f_env f (f_tick f) \<noteq> NotYet \<and> state_poll f = Some (Ready (Inr r), f') \<and> f_state f' = Idle (Some fb) \<and> fb_idx fb = 0 \<and> file_good f' \<and> file_view f' = file_view f \<and>
      f_limit f' = f_limit f \<and> (\<forall>p b. f_state f = Seeking p b \<longrightarrow> r = snd (file_view f)))"
proof -
  from job_poll_ok [OF g st] show ?thesis
  proof (elim disjE exE conjE)
    fix r fb f' assume j: "f_env f (f_tick f) \<noteq> NotYet" "job_poll f = Some (Ready (Inr r, fb), f')" "f_limit f' = f_limit f" "f_env f' = f_env f" "f_write_err f' = None" "fb_ok fb (f_os f')"
      "file_view (f'\<lparr>f_state := Idle (Some fb)\<rparr>) = file_view f" "fb_idx fb = 0"
      "case f_state f of
         Reading b \<Rightarrow> length (fb_buf fb) \<le> length (fb_buf b) \<and> (fb_buf fb = [] \<longrightarrow> file_stream f = [])
       | Seeking p b \<Rightarrow> fb_buf fb = [] \<and> r = snd (file_view f)
       | _ \<Rightarrow> fb_buf fb = []"
    let ?r = "case f_state f of Seeking _ _ \<Rightarrow> r | _ \<Rightarrow> 0" and ?f = "f'\<lparr>f_state := Idle (Some fb)\<rparr>"
    have "state_poll f = Some (Ready (Inr ?r), ?f)" using j(2) by (simp add: state_poll_def split: file_state.splits)
    moreover have "file_good ?f" by (rule good_idle [OF g j(3-6)])
    moreover have "\<forall>p b. f_state f = Seeking p b \<longrightarrow> ?r = snd (file_view f)" using j(9) by auto
    ultimately show ?thesis using j(1,3,7,8) by auto
  qed (simp add: state_poll_def)
qed

lemma write_idle:
  assumes g: "file_good f" and st: "f_state f = Idle (Some fb)" "fb_idx fb = 0"
  shows "\<exists>f'. file_write_loop f s = Some (Ready (Inr (min (length s) (f_limit f))), f') \<and> file_good f' \<and> whole f' \<and> file_view f' = cursor_write (take (min (length s) (f_limit f)) s) (file_view f)"
proof -
  let ?n = "min (length s) (f_limit f)"
  let ?w = "\<lparr>fb_buf = map Some (take ?n s), fb_idx = 0\<rparr>"
  let ?f = "f\<lparr>f_state := Writing (length (fb_buf fb)) ?w\<rparr>"
  have rem: "fb_remaining fb = length (fb_buf fb)" using st by (simp add: fb_remaining_def)
  have "fb_ok fb (f_os f)" using g st by (simp add: file_good_def file_ok_def)
  then have le: "length (fb_buf fb) \<le> of_pos (f_os f)" using rem by (simp add: fb_ok_def)
  have "file_write_loop f s = Some (Ready (Inr ?n), ?f)"
    by (subst file_write_loop.simps) (simp add: st(1) fb_drop_unread_def fb_append_def fb_clear_def Let_def)
  moreover have "file_good ?f" using g le by (auto simp: file_good_def file_ok_def)
  moreover have os: "(f_os f)\<lparr>of_pos := x\<rparr> = \<lparr>of_data = of_data (f_os f), of_pos = x\<rparr>" for x by simp
  have "file_view ?f = cursor_write (take ?n s) (file_view f)" using st rem by (simp add: file_view_def cursor_write_def Let_def comp_def os)
  ultimately show ?thesis by (auto simp: whole_def)
qed

lemma write_loop_ok:
  assumes "file_good f" "whole f"
  shows "\<exists>f'. file_write_loop f s = Some (Ready (Inr (min (length s) (f_limit f))), f') \<and> file_good f' \<and> whole f' \<and> file_view f' = cursor_write (take (min (length s) (f_limit f)) s) (file_view f)"
proof -
  obtain t where "f_tick f \<le> t" "f_env f t \<noteq> NotYet" using assms(1) by (auto simp: file_good_def env_ok_def)
  then show ?thesis using assms
  proof (induction "t - f_tick f" arbitrary: f)
    case 0
    then have e: "f_env f (f_tick f) \<noteq> NotYet" by simp
    show ?case
    proof (cases "\<exists>x. f_state f = Idle x")
      case True
      then obtain fb where "f_state f = Idle (Some fb)" using 0(4) by (auto simp: file_good_def file_ok_def split: option.splits)
      then show ?thesis using write_idle [OF 0(4)] 0(5) by (simp add: whole_def)
    next
      case False
      then obtain r fb f' where p: "state_poll f = Some (Ready (Inr r), f')" "f_state f' = Idle (Some fb)" "fb_idx fb = 0" "file_good f'" "file_view f' = file_view f" "f_limit f' = f_limit f"
        using state_poll_ok [OF 0(4)] e by blast
      have "file_write_loop f s = file_write_loop f' s" using False p(1) by (subst file_write_loop.simps) (simp split: file_state.splits)
      then show ?thesis using write_idle [OF p(4,2,3), of s] p(5,6) by simp
    qed
  next
    case (Suc n)
    show ?case
    proof (cases "\<exists>x. f_state f = Idle x")
      case True
      then obtain fb where "f_state f = Idle (Some fb)" using Suc(5) by (auto simp: file_good_def file_ok_def split: option.splits)
      then show ?thesis using write_idle [OF Suc(5)] Suc(6) by (simp add: whole_def)
    next
      case False
      from state_poll_ok [OF Suc(5)] False consider (p) "f_env f (f_tick f) = NotYet" "state_poll f = Some (Pending, f\<lparr>f_tick := Suc (f_tick f)\<rparr>)"
        | (r) r fb f' where "state_poll f = Some (Ready (Inr r), f')" "f_state f' = Idle (Some fb)" "fb_idx fb = 0" "file_good f'" "file_view f' = file_view f" "f_limit f' = f_limit f" by blast
      then show ?thesis
      proof cases
        case p
        let ?f = "f\<lparr>f_tick := Suc (f_tick f)\<rparr>"
        have "n = t - f_tick ?f" "f_tick ?f \<le> t" "f_env ?f t \<noteq> NotYet" "whole ?f" using Suc(2,3,4,6) by (simp_all add: whole_def)
        from Suc(1) [OF this(1-3) good_tick(1) [OF Suc(5)] this(4)] have "\<exists>f'. file_write_loop ?f s = Some (Ready (Inr (min (length s) (f_limit f))), f') \<and> file_good f' \<and> whole f' \<and>
          file_view f' = cursor_write (take (min (length s) (f_limit f)) s) (file_view f)" using good_tick(2) by simp
        moreover have "file_write_loop f s = file_write_loop ?f s" using False p(2) by (subst file_write_loop.simps) (simp split: file_state.splits)
        ultimately show ?thesis by simp
      next
        case r
        have "file_write_loop f s = file_write_loop f' s" using False r(1) by (subst file_write_loop.simps) (simp split: file_state.splits)
        then show ?thesis using write_idle [OF r(4,2,3), of s] r(5,6) by simp
      qed
    qed
  qed
qed

lemma file_flush_ok:
  assumes g: "file_good f" "whole f"
  shows "\<exists>a f'. file_poll_flush f = Some (a, f') \<and> file_good f' \<and> whole f' \<and> file_view f' = file_view f \<and> (a = Ready (Inr ()) \<longrightarrow> (\<exists>fb. f_state f' = Idle (Some fb)))"
proof (cases "\<exists>x. f_state f = Idle x")
  case True
  then obtain fb where "f_state f = Idle (Some fb)" using g(1) by (auto simp: file_good_def file_ok_def split: option.splits)
  then show ?thesis using g by (simp add: file_poll_flush_def file_good_def)
next
  case False
  have e: "f_write_err f = None" using g by (simp add: file_good_def)
  from state_poll_ok [OF g(1)] False consider (p) "state_poll f = Some (Pending, f\<lparr>f_tick := Suc (f_tick f)\<rparr>)"
    | (r) r fb f' where "state_poll f = Some (Ready (Inr r), f')" "f_state f' = Idle (Some fb)" "fb_idx fb = 0" "file_good f'" "file_view f' = file_view f" by blast
  then show ?thesis
  proof cases
    case p
    then have "file_poll_flush f = Some (Pending, f\<lparr>f_tick := Suc (f_tick f)\<rparr>)" using False e by (simp add: file_poll_flush_def split: file_state.splits)
    then show ?thesis using good_tick [where f = f] g by (simp add: whole_def)
  next
    case r
    then have "\<exists>a. file_poll_flush f = Some (a, f')" using False e by (simp add: file_poll_flush_def split: file_state.splits)
    then show ?thesis using r by (auto simp: whole_def)
  qed
qed

interpretation file_writer: async_write file_poll_write file_poll_flush "\<lambda>f. file_good f \<and> whole f" file_accepted file_delivered
proof
  fix f s assume g: "file_good f \<and> whole f"
  then have "file_poll_write f s = file_write_loop f s" by (simp add: file_poll_write_def file_good_def)
  with write_loop_ok [of f s] g show "\<exists>a w'. file_poll_write f s = Some (a, w') \<and> (file_good w' \<and> whole w') \<and>
      (\<forall>n. a = Ready (Inr n) \<longrightarrow> n \<le> length s \<and> file_accepted w' = file_accepted f @ take n s) \<and> ((\<forall>n. a \<noteq> Ready (Inr n)) \<longrightarrow> file_accepted w' = file_accepted f)"
    by (auto simp: file_accepted_def prefix_write)
next
  fix f assume "file_good f \<and> whole f"
  then obtain a f' where p: "file_poll_flush f = Some (a, f')" "file_good f'" "whole f'" "file_view f' = file_view f" "a = Ready (Inr ()) \<longrightarrow> (\<exists>fb. f_state f' = Idle (Some fb))"
    using file_flush_ok by blast
  have "file_delivered f' = file_accepted f'" if "\<exists>fb. f_state f' = Idle (Some fb)" using that by (auto simp: file_delivered_def file_accepted_def file_view_def Let_def)
  then show "\<exists>a w'. file_poll_flush f = Some (a, w') \<and> (file_good w' \<and> whole w') \<and> file_accepted w' = file_accepted f \<and> (a = Ready (Inr ()) \<longrightarrow> file_delivered w' = file_accepted w')"
    using p by (auto simp: file_accepted_def)
qed

interpretation file_writer_vectored: async_write_vectored file_poll_write file_poll_flush "\<lambda>f. file_good f \<and> whole f" file_accepted file_delivered "default_write_vectored file_poll_write"
  by (rule file_writer.default_vectored)

lemma seek_idle:
  assumes g: "file_good f" and st: "f_state f = Idle (Some fb)" "fb_idx fb = 0" and t: "0 \<le> seek_target p (length (fst (file_view f))) (snd (file_view f))"
  shows "\<exists>a f'. file_poll_seek f p = Some (a, f') \<and> file_good f' \<and> whole f' \<and>
    file_view f' = (fst (file_view f), nat (seek_target p (length (fst (file_view f))) (snd (file_view f)))) \<and> (a = Pending \<or> a = Ready (Inr (snd (file_view f'))))"
proof -
  let ?p = "seek_back (length (fb_buf fb)) p"
  let ?f = "f\<lparr>f_state := Seeking ?p fb_with_capacity\<rparr>"
  have rem: "fb_remaining fb = length (fb_buf fb)" using st by (simp add: fb_remaining_def)
  have "fb_ok fb (f_os f)" using g st by (simp add: file_good_def file_ok_def)
  then have le: "length (fb_buf fb) \<le> of_pos (f_os f)" using rem by (simp add: fb_ok_def)
  have tgt: "seek_target ?p (length (of_data (f_os f))) (of_pos (f_os f)) = seek_target p (length (fst (file_view f))) (snd (file_view f))"
    using le st rem by (auto simp: seek_target_def seek_back_def file_view_def Let_def split: seek_from.splits)
  have gf: "file_good ?f" using g t tgt by (simp add: file_good_def file_ok_def)
  have vf: "file_view ?f = (fst (file_view f), nat (seek_target p (length (fst (file_view f))) (snd (file_view f))))" using tgt st by (simp add: file_view_def Let_def)
  have "fb_drop_unread fb = (length (fb_buf fb), fb_with_capacity)" by (simp add: fb_drop_unread_def fb_clear_def fb_with_capacity_def)
  then have e: "file_poll_seek f p = file_poll_seek ?f ?p" by (subst file_poll_seek.simps) (simp add: st(1) Let_def)
  from state_poll_ok [OF gf] consider (w) "state_poll ?f = Some (Pending, ?f\<lparr>f_tick := Suc (f_tick ?f)\<rparr>)"
    | (r) r fb' f' where "state_poll ?f = Some (Ready (Inr r), f')" "f_state f' = Idle (Some fb')" "fb_idx fb' = 0" "file_good f'" "file_view f' = file_view ?f" "r = snd (file_view ?f)" by auto
  then show ?thesis
  proof cases
    case w
    then have "file_poll_seek f p = Some (Pending, ?f\<lparr>f_tick := Suc (f_tick ?f)\<rparr>)" unfolding e by (subst file_poll_seek.simps) simp
    then show ?thesis using good_tick [where f = ?f] gf vf by (auto simp: whole_def)
  next
    case r
    then have "file_poll_seek f p = Some (Ready (Inr r), f'\<lparr>f_idx := r\<rparr>)" unfolding e by (subst file_poll_seek.simps) simp
    moreover have "file_view (f'\<lparr>f_idx := r\<rparr>) = file_view f'" "file_good (f'\<lparr>f_idx := r\<rparr>)" "whole (f'\<lparr>f_idx := r\<rparr>)"
      using r(2-4) by (simp_all add: file_view_def file_good_def file_ok_def whole_def Let_def)
    ultimately show ?thesis using r(5,6) vf by auto
  qed
qed

lemma seek_ok:
  assumes g: "file_good f" "whole f" and ns: "\<And>q b. f_state f \<noteq> Seeking q b" and t: "0 \<le> seek_target p (length (fst (file_view f))) (snd (file_view f))"
  shows "\<exists>a f'. file_poll_seek f p = Some (a, f') \<and> file_good f' \<and> whole f' \<and>
    (a = Pending \<and> file_view f' = file_view f \<or>
     file_view f' = (fst (file_view f), nat (seek_target p (length (fst (file_view f))) (snd (file_view f)))) \<and> (a = Pending \<or> a = Ready (Inr (snd (file_view f')))))"
proof (cases "\<exists>x. f_state f = Idle x")
  case True
  then obtain fb where "f_state f = Idle (Some fb)" using g(1) by (auto simp: file_good_def file_ok_def split: option.splits)
  then show ?thesis using seek_idle [OF g(1) _ _ t, of fb] g(2) by (auto simp: whole_def)
next
  case False
  from state_poll_ok [OF g(1)] False consider (w) "state_poll f = Some (Pending, f\<lparr>f_tick := Suc (f_tick f)\<rparr>)"
    | (r) r fb' f' where "state_poll f = Some (Ready (Inr r), f')" "f_state f' = Idle (Some fb')" "fb_idx fb' = 0" "file_good f'" "file_view f' = file_view f" by blast
  then show ?thesis
  proof cases
    case w
    then have "file_poll_seek f p = Some (Pending, f\<lparr>f_tick := Suc (f_tick f)\<rparr>)" using False by (subst file_poll_seek.simps) (simp split: file_state.splits)
    then show ?thesis using good_tick [where f = f] g by (auto simp: whole_def)
  next
    case r
    then have "file_poll_seek f p = file_poll_seek f' p" using False ns by (subst file_poll_seek.simps) (simp add: save_err_def split: file_state.splits)
    then show ?thesis using seek_idle [OF r(4,2,3), of p] t r(5) by auto
  qed
qed


section \<open>Properties\<close>

text \<open>An example: every second poll finds the closure done, short reads of three bytes.\<close>

definition env_example :: "nat \<Rightarrow> env_answer" where
  "env_example t = (if even t then NotYet else Done 3)"

definition file_example :: async_file where
  "file_example = file_new env_example \<lparr>of_data = [10, 11, 12, 13, 14, 15, 16, 17, 18, 19], of_pos = 2\<rparr>"

lemma env_example_ok: "env_ok env_example"
  unfolding env_ok_def
proof (intro conjI allI)
  fix t :: nat
  show "\<exists>t'\<ge>t. env_example t' \<noteq> NotYet" by (rule exI [of _ "2 * t + 1"]) (simp add: env_example_def)
qed (simp add: env_example_def)

lemma file_new_good: "env_ok env \<Longrightarrow> file_good (file_new env os)" "whole (file_new env os)" "file_view (file_new env os) = (of_data os, of_pos os)"
  by (simp_all add: file_good_def file_ok_def file_new_def DEFAULT_BUF_LIMIT_def fb_ok_def fb_with_capacity_def fb_remaining_def whole_def file_view_def Let_def)



text \<open>
  C35: A buffered writer of any capacity keeps the contract of \<open>AsyncWrite\<close> of the writer below it: what it has accepted is what the
  writer below accepted followed by its buffer, in order and nothing twice, whatever is pending or fails in between; a flush
  that is ready has delivered all of it; and \<open>write_all\<close> on such a writer, polled until it is ready, has written exactly its bytes.
\<close>

theorem buffered_writer_contract:
  assumes "async_write wr fl good accepted delivered" "good w"
  shows "async_write (bw_poll_write wr) (bw_poll_flush wr fl) (bw_inv good) (bw_accepted accepted) (\<lambda>bw. delivered (bw_inner bw)) \<and>
    bw_inv good (bw_with_capacity cap w) \<and> bw_accepted accepted (bw_with_capacity cap w) = accepted w \<and>
    (\<forall>bw l. bw_inv good bw \<and> l \<le> length s \<longrightarrow> (\<exists>a bw' l'. write_all_loop (bw_poll_write wr) bw s l = Some (a, bw', l') \<and> bw_inv good bw' \<and> l \<le> l' \<and> l' \<le> length s \<and>
       bw_accepted accepted bw' = bw_accepted accepted bw @ take (l' - l) (drop l s) \<and> (a = Ready (Inr ()) \<longrightarrow> l' = length s)))"
proof (intro conjI allI impI)
  show b: "async_write (bw_poll_write wr) (bw_poll_flush wr fl) (bw_inv good) (bw_accepted accepted) (\<lambda>bw. delivered (bw_inner bw))"
    by (rule async_write.buffered_writer [OF assms(1)])
  show "bw_inv good (bw_with_capacity cap w)" "bw_accepted accepted (bw_with_capacity cap w) = accepted w"
    using assms(2) by (simp_all add: bw_inv_def bw_accepted_def bw_with_capacity_def)
  fix bw l assume "bw_inv good bw \<and> l \<le> length s"
  then show "\<exists>a bw' l'. write_all_loop (bw_poll_write wr) bw s l = Some (a, bw', l') \<and> bw_inv good bw' \<and> l \<le> l' \<and> l' \<le> length s \<and>
       bw_accepted accepted bw' = bw_accepted accepted bw @ take (l' - l) (drop l s) \<and> (a = Ready (Inr ()) \<longrightarrow> l' = length s)"
    using async_write.write_all_ok [OF b] by blast
qed

theorem buffered_writer_contract_witness:
  "\<exists>a bw' l'. write_all_loop (bw_poll_write file_poll_write) (bw_with_capacity 4 file_example) [1, 2, 3, 4, 5, 6] 0 = Some (a, bw', l') \<and>
     bw_accepted file_accepted bw' = file_accepted file_example @ take l' [1, 2, 3, 4, 5, 6]"
proof -
  have g: "file_good file_example \<and> whole file_example" unfolding file_example_def using file_new_good env_example_ok by auto
  show ?thesis using buffered_writer_contract [OF file_writer.async_write_axioms g, where cap = 4 and s = "[1, 2, 3, 4, 5, 6]"] by fastforce
qed

text \<open>
  C36: Writing several slices at once through a buffered writer writes a prefix of their concatenation and answers its length. It
  panics exactly when the writer below takes one slice at a time and all slices, but at least one, are empty.
\<close>

theorem write_vectored_prefix:
  assumes "async_write_vectored wr fl good accepted delivered wv" "bw_inv good bw" "sum_list (map length bufs) < 2 ^ 64"
  shows "(bw_poll_write_vectored wr isv wv bw bufs = None \<longleftrightarrow> \<not> isv \<and> bufs \<noteq> [] \<and> (\<forall>s \<in> set bufs. s = [])) \<and>
    (\<forall>a bw'. bw_poll_write_vectored wr isv wv bw bufs = Some (a, bw') \<longrightarrow> bw_inv good bw' \<and>
      (\<forall>n. a = Ready (Inr n) \<longrightarrow> n \<le> length (concat bufs) \<and> bw_accepted accepted bw' = bw_accepted accepted bw @ take n (concat bufs)) \<and>
      ((\<forall>n. a \<noteq> Ready (Inr n)) \<longrightarrow> bw_accepted accepted bw' = bw_accepted accepted bw))"
proof (cases "\<not> isv \<and> bufs \<noteq> [] \<and> (\<forall>s \<in> set bufs. s = [])")
  case True
  then have d: "dropWhile (\<lambda>b. b = []) bufs = []" by simp
  show ?thesis unfolding bw_poll_write_vectored_def d using True by simp
next
  case False
  then have "isv \<or> bufs = [] \<or> (\<exists>s \<in> set bufs. s \<noteq> [])" by blast
  from async_write_vectored.bw_writev_takes [OF assms this] show ?thesis using False by (auto simp: bw_takes_def)
qed

theorem write_vectored_prefix_witness:
  "bw_poll_write_vectored file_poll_write False (default_write_vectored file_poll_write) (bw_with_capacity 4 file_example) [[], []] = None"
proof -
  have g: "bw_inv (\<lambda>f. file_good f \<and> whole f) (bw_with_capacity 4 file_example)"
    unfolding file_example_def using file_new_good env_example_ok by (auto simp: bw_inv_def bw_with_capacity_def)
  show ?thesis using write_vectored_prefix [OF file_writer_vectored.async_write_vectored_axioms g, where bufs = "[[], []]" and isv = False] by simp
qed

section \<open>Where the file is not a cursor\<close>

text \<open>
  \<open>drop_unread\<close> counts the whole buffer, also the part that was handed out. Here a read of eight bytes is given up and
  one of four bytes takes half of the buffer; the user stands at byte 6, but a write lands at byte 2.
\<close>

declare file_poll_read.simps [code] file_write_loop.simps [code] file_poll_seek.simps [code]

definition file_half_read :: async_file where
  "file_half_read =
     (case file_poll_read (file_example\<lparr>f_env := \<lambda>t. if t = 0 then NotYet else Done 8\<rparr>) (rb_new (replicate 8 0)) of
        Some (_, f1, _) \<Rightarrow> (case file_poll_read f1 (rb_new (replicate 4 0)) of Some (_, f2, _) \<Rightarrow> f2 | None \<Rightarrow> f1)
      | None \<Rightarrow> file_example)"

text \<open>
  C38: After a part of the buffer was handed out, a write does not go to the position the user has reached, but as many bytes
  before it as were handed out: the count of unread bytes includes them.
\<close>

theorem file_write_misplaced:
  assumes "f_write_err f = None" "f_state f = Idle (Some fb)" "fb_idx fb \<le> length (fb_buf fb)" "length (fb_buf fb) \<le> of_pos (f_os f)"
  shows "\<exists>n f'. file_poll_write f s = Some (Ready (Inr n), f') \<and> n = min (length s) (f_limit f) \<and>
    file_view f' = cursor_write (take n s) (fst (file_view f), snd (file_view f) - fb_idx fb)"
proof -
  let ?n = "min (length s) (f_limit f)"
  let ?f = "f\<lparr>f_state := Writing (length (fb_buf fb)) \<lparr>fb_buf = map Some (take ?n s), fb_idx = 0\<rparr>\<rparr>"
  have "file_write_loop f s = Some (Ready (Inr ?n), ?f)"
    by (subst file_write_loop.simps) (simp add: assms(2) fb_drop_unread_def fb_append_def fb_clear_def Let_def)
  moreover have os: "(f_os f)\<lparr>of_pos := x\<rparr> = \<lparr>of_data = of_data (f_os f), of_pos = x\<rparr>" for x by simp
  have "of_pos (f_os f) - fb_remaining fb - fb_idx fb = of_pos (f_os f) - length (fb_buf fb)" using assms(3) by (simp add: fb_remaining_def)
  then have "file_view ?f = cursor_write (take ?n s) (fst (file_view f), snd (file_view f) - fb_idx fb)"
    using assms(2) by (simp add: file_view_def cursor_write_def Let_def comp_def os)
  ultimately show ?thesis using assms(1) by (simp add: file_poll_write_def)
qed

theorem file_write_misplaced_witness:
  "snd (file_view file_half_read) = 6 \<and>
   (\<exists>f'. file_poll_write file_half_read [99] = Some (Ready (Inr 1), f') \<and> file_view f' = ([10, 11, 99, 13, 14, 15, 16, 17, 18, 19], 3))"
proof -
  have h: "f_write_err file_half_read = None" "f_state file_half_read = Idle (Some \<lparr>fb_buf = map Some [12, 13, 14, 15, 16, 17, 18, 19], fb_idx = 4\<rparr>)" by code_simp+
  have p: "of_pos (f_os file_half_read) = 10" "snd (file_view file_half_read) = 6" "f_limit file_half_read = 2097152" by code_simp+
  have v: "cursor_write [99] (fst (file_view file_half_read), 2) = ([10, 11, 99, 13, 14, 15, 16, 17, 18, 19], 3)" by code_simp
  show ?thesis using file_write_misplaced [OF h, where s = "[99]"] p v by simp
qed

text \<open>A seek that was given up answers for the next one: the file stands at 7 and not at 3.\<close>

lemma seek_after_seek:
  "(case file_poll_seek file_example (SeekStart 7) of
      Some (Pending, f1) \<Rightarrow> map_option (\<lambda>(a, f2). (a, snd (file_view f2))) (file_poll_seek f1 (SeekStart 3))
    | _ \<Rightarrow> None) = Some (Ready (Inr 7), 7)"
  by code_simp

text \<open>An empty read that was given up makes the next read look like the end of the file.\<close>

lemma empty_read_hides_data:
  "(case file_poll_read file_example (rb_new []) of
      Some (Pending, f1, _) \<Rightarrow> map_option (\<lambda>(a, f2, b). (a, rb_filled b, length (file_stream f2))) (file_poll_read f1 (rb_new [0, 0]))
    | _ \<Rightarrow> None) = Some (Ready (Inr ()), 0, 8)"
  by code_simp

end
