(* ===== verification/Spec2Isabelle.thy ===== *)
theory Spec2Isabelle
  imports Task_Lifecycle Locks Run_Queue IO_Driver Time_Driver Oneshot Async_File
begin

text \<open>
  \<^bold>\<open>Verification of the ylong runtime.\<close>

  The repository is an asynchronous runtime for Rust. Its crates are \<open>ylong_runtime\<close> (tasks,
  executor, synchronization primitives, timers, asynchronous I/O), \<open>ylong_io\<close> (the platform
  poller and sockets), \<open>ylong_signal\<close>, \<open>ylong_ffrt\<close> and \<open>ylong_runtime_macros\<close>. A spawned
  future becomes a task; a worker takes tasks from the run queues and polls them; a future
  that cannot continue leaves its waker with whatever it waits for (a lock, a
  semaphore, a channel, a timer, an I/O source), and waking puts the task back into a queue. The I/O driver turns
  events of the platform poller into wake-ups. The theories follow these parts.

  \<^bold>\<open>Common ground.\<close> \<open>Prelude\<close>: machine integers, \<open>Poll\<close>, and the compare-exchange retry
  loop. Every lock-free method of the crate is such a loop; \<open>cas_run_linear\<close> shows that under any
  interference it ends and acts like one indivisible step on a value the cell really
  had. The system models below therefore use the indivisible step \<open>atomically\<close>.

  \<^bold>\<open>Tasks.\<close> \<open>Task_State\<close> is the status word of \<open>task/state.rs\<close> at 64 bits: flags, reference
  count, all transitions. \<open>Task_Lifecycle\<close> is \<open>task/task_handle.rs\<close>, \<open>raw.rs\<close>, \<open>waker.rs\<close> and
  \<open>join_handle.rs\<close>: a task with any number of wakers, its join handle and its runner as one
  step function, a step per access to the word. Shown: a task is queued and
  polled by at most one worker, its reference count is exact and it is freed
  once, no wake-up is lost, the join handle gets the result and its waker is woken once, the shared
  cells are free of races, a canceled task finishes.

  \<^bold>\<open>Synchronization.\<close> \<open>Slots\<close> is the indexed linked list of \<open>util/slots.rs\<close>, a refinement of
  a map with an order. \<open>Wake_List\<close> is \<open>sync/wake_list.rs\<close> on top of it. \<open>Semaphore\<close> is
  \<open>sync/semaphore_inner.rs\<close> with its futures: permits are conserved, a waiter is
  never stranded while permits are free, waiters are served in order, closing wakes all of them.
  \<open>Locks\<close> is \<open>sync/mutex.rs\<close>, \<open>semaphore.rs\<close>, \<open>waiter.rs\<close> and \<open>rwlock.rs\<close>: mutual exclusion
  and no lost wake-up.

  \<^bold>\<open>Executor.\<close> \<open>Run_Queue\<close> is \<open>executor/queue.rs\<close>: ring buffers with 16-bit positions, stealing,
  overflow to the global queue, as atomic steps of any number of workers. Tasks
  are conserved in every interleaving; for its owner a local queue is a FIFO.

  \<^bold>\<open>Network I/O.\<close> \<open>Linked_List\<close> is \<open>util/linked_list.rs\<close> on an explicit store of nodes,
  \<open>Bit_Mask\<close> is \<open>util/bit.rs\<close>, \<open>Net_Ready\<close> is \<open>net/ready.rs\<close> and \<open>ylong_io/src/interest.rs\<close>,
  \<open>Schedule_IO\<close> is \<open>net/schedule_io.rs\<close>, \<open>Slab\<close> is \<open>util/slab.rs\<close>, \<open>IO_Driver\<close> is \<open>net/driver.rs\<close> and
  composes them. Shown: the lists refine sequences, fields of words do not overlap, no readiness
  is lost, entries of the slab stay put while they are referenced, and in any interleaving of
  the driver with its users every event reaches the source its token was made for.

  \<^bold>\<open>Timers.\<close> \<open>Timer_Wheel\<close> is \<open>time/wheel.rs\<close>: six levels of 64 slots, one list of clocks per slot, a
  word of occupied slots per level. \<open>Time_Driver\<close> is \<open>time/driver.rs\<close>, \<open>sleep.rs\<close>, \<open>timer.rs\<close> and \<open>timeout.rs\<close>. Shown: a
  run of the driver takes out exactly the clocks that have expired and wakes each once, a sleep is ready
  from at most a millisecond before its deadline and pending only with its clock in the wheel, and a sleep
  that was polled becomes ready.

  \<^bold>\<open>Channel for one value.\<close> \<open>Oneshot\<close> is \<open>sync/oneshot.rs\<close> and \<open>sync/atomic_waker.rs\<close>, sender and receiver as
  two threads. Shown: a value arrives at most once and is not lost, the shared cells are free of races, and a
  receiver that waits is woken.

  \<^bold>\<open>Reading, writing, files.\<close> The traits of \<open>io\<close> are locales, their methods arguments of the definitions that
  call them. \<open>Read_Buf\<close> is \<open>io/read_buf.rs\<close> on memory with bytes that were never written. \<open>Async_Read\<close> is
  the slice reader, \<open>async_buf_reader.rs\<close> and \<open>read_task.rs\<close>; \<open>Async_Write\<close> is \<open>async_buf_writer.rs\<close>, \<open>write_task.rs\<close> and the
  vectored write every writer inherits; \<open>Async_File\<close> is \<open>fs/async_file.rs\<close> and \<open>fs/file_buf.rs\<close>, whose interpretations show that a
  file keeps the contracts. Shown: buffering does not change the stream, the reading
  futures deliver it whole or by segments, strings stay valid UTF-8, accepted bytes are written once
  and in order, and a file acts like its contents with a cursor except in the cases proved.

  \<^bold>\<open>Bounds and assumptions.\<close> Atomic accesses are sequentially consistent. Words have their width in the source. Loops are
  recursive functions with a termination proof, or partial functions whose result the properties show to exist; no
  definition uses fuel. A loop that other threads can disturb takes one event per access to shared memory.
  The wheel is used within its horizon: deadlines lie within \<open>2^36\<close> milliseconds of the
  start of the driver, about two years. While a thief is between reading the positions of a run queue and
  claiming its tasks, the head moves by fewer than 65536 positions, since the positions have 16 bits. The poller of the platform answers
  only tokens that were registered. The blocking closures of a file are answered by an environment; the cursor property
  is stated for one without failures. Whether memory can be reserved is a parameter.

  \<^bold>\<open>Not modelled.\<close> The worker loop, parking and the blocking pool (threads, condition variables, platform time); the
  channels in \<open>sync/mpsc\<close> and \<open>sync/watch.rs\<close>; \<open>join_set\<close>, \<open>select\<close> and the builders, which only combine the parts above; sockets, directories,
  standard streams, processes and signals, which are system calls; the pollers of \<open>ylong_io\<close>, which are parameters of
  the driver; \<open>ylong_signal\<close>, \<open>ylong_ffrt\<close>, the macros, metrics and parallel iterators.
\<close>

end
